(* ===== verification/CCF_Prelude.thy ===== *)
theory CCF_Prelude
  imports Main "HOL-Library.AList" "HOL-Library.Word" "HOL-Library.Code_Target_Nat" "HOL-Library.List_Lexorder"
    "HOL-Library.Char_ord"
begin

text \<open>
  Shared vocabulary of the development: 64-bit counters with their wrap-around written out,
  the searches of the C++ standard library that the sources use on ordered sequences
  (\<^verbatim>\<open>std::upper_bound\<close>, \<^verbatim>\<open>std::lower_bound\<close>), loops that pop
  from one end of a sequence, and association lists as the ordered and unordered maps of the
  sources. The named collections are the automation that the component theories extend.
\<close>

section \<open>Collections of facts\<close>

named_theorems u64_simps \<open>no-wrap rules for 64-bit counters\<close>
named_theorems frame_simps \<open>fields that an operation leaves unchanged\<close>
named_theorems inv_intros \<open>operations that keep an invariant\<close>

section \<open>64-bit unsigned counters\<close>

text \<open>
  Indices, views and sizes of the sources are \<^verbatim>\<open>uint64_t\<close> or \<^verbatim>\<open>size_t\<close>.
  They are naturals here, and each addition or subtraction of the sources that can leave the
  range is written with \<open>add64\<close> or \<open>sub64\<close>.
\<close>

definition two64 :: nat where
  "two64 = 2 ^ 64"

definition max64 :: nat where
  "max64 = two64 - 1"

definition add64 :: "nat \<Rightarrow> nat \<Rightarrow> nat" where
  "add64 a b = (a + b) mod two64"

definition sub64 :: "nat \<Rightarrow> nat \<Rightarrow> nat" where
  "sub64 a b = (a + two64 - b) mod two64"

text \<open>The version that stands for none.\<close>

definition NoVersion :: nat where
  "NoVersion = 0"

lemma two64_pos: "0 < two64"
  by (simp add: two64_def)

lemma le_max64_iff: "a \<le> max64 \<longleftrightarrow> a < two64"
  using two64_pos by (auto simp: max64_def)

lemma add64_no_wrap [u64_simps]: "a + b \<le> max64 \<Longrightarrow> add64 a b = a + b"
  by (simp add: add64_def le_max64_iff)

lemma add64_le: "add64 a b \<le> max64"
  by (simp add: add64_def le_max64_iff two64_pos)

lemma sub64_no_wrap [u64_simps]:
  assumes "b \<le> a" "a \<le> max64"
  shows "sub64 a b = a - b"
proof -
  have "a + two64 - b = (a - b) + two64" using assms(1) by simp
  moreover have "a - b < two64" using assms(2) by (simp add: le_max64_iff)
  ultimately show ?thesis by (simp only: sub64_def mod_add_self2 mod_less)
qed

lemma sub64_le: "sub64 a b \<le> max64"
  by (simp add: sub64_def le_max64_iff two64_pos)

section \<open>Searches on ordered sequences\<close>

text \<open>
  \<^verbatim>\<open>std::upper_bound(first, last, x)\<close> is the first position whose element is greater than
  \<open>x\<close>, on a sequence that is partitioned by that test. The model counts the elements before
  it; on the ordered sequences the sources keep, this is what the binary search returns.
\<close>

definition upper_bound :: "'a::linorder list \<Rightarrow> 'a \<Rightarrow> nat" where
  "upper_bound xs x = length (takeWhile (\<lambda>v. v \<le> x) xs)"

definition lower_bound :: "'a::linorder list \<Rightarrow> 'a \<Rightarrow> nat" where
  "lower_bound xs x = length (takeWhile (\<lambda>v. v < x) xs)"

lemma upper_bound_le_length: "upper_bound xs x \<le> length xs"
  unfolding upper_bound_def by (rule length_takeWhile_le)

lemma upper_bound_Nil [simp]: "upper_bound [] x = 0"
  by (simp add: upper_bound_def)

lemma nth_before_upper_bound: "i < upper_bound xs x \<Longrightarrow> xs ! i \<le> x"
  unfolding upper_bound_def
  by (metis nth_mem set_takeWhileD takeWhile_nth)

lemma nth_upper_bound: "upper_bound xs x < length xs \<Longrightarrow> x < xs ! upper_bound xs x"
  unfolding upper_bound_def using nth_length_takeWhile by fastforce

lemma upper_bound_sorted_iff:
  assumes "sorted xs" "i < length xs"
  shows "i < upper_bound xs x \<longleftrightarrow> xs ! i \<le> x"
proof
  assume "xs ! i \<le> x"
  show "i < upper_bound xs x"
  proof (rule ccontr)
    assume "\<not> i < upper_bound xs x"
    then have le: "upper_bound xs x \<le> i" by simp
    then have "x < xs ! upper_bound xs x" using assms(2) by (intro nth_upper_bound) simp
    also have "\<dots> \<le> xs ! i" using assms le by (intro sorted_nth_mono) auto
    finally show False using \<open>xs ! i \<le> x\<close> by simp
  qed
qed (rule nth_before_upper_bound)

lemma upper_bound_mono:
  assumes "x \<le> y"
  shows "upper_bound xs x \<le> upper_bound xs y"
proof (induction xs)
  case (Cons a xs)
  then show ?case using assms by (auto simp: upper_bound_def)
qed (simp add: upper_bound_def)

lemma take_upper_bound: "take (upper_bound xs x) xs = takeWhile (\<lambda>v. v \<le> x) xs"
  unfolding upper_bound_def by (metis takeWhile_eq_take)

lemma upper_bound_all: "\<forall>v\<in>set xs. v \<le> x \<Longrightarrow> upper_bound xs x = length xs"
  by (induction xs) (auto simp: upper_bound_def)

lemma upper_bound_append:
  "upper_bound (xs @ ys) x =
     (if \<forall>v\<in>set xs. v \<le> x then length xs + upper_bound ys x else upper_bound xs x)"
  by (induction xs) (auto simp: upper_bound_def)

lemma upper_bound_replicate:
  "upper_bound (replicate n a) x = (if a \<le> x then n else 0)"
  by (induction n) (auto simp: upper_bound_def)

text \<open>A test that holds of an initial part of an ascending sequence.\<close>

lemma filter_initial:
  fixes xs :: "'a::linorder list"
  assumes "sorted_wrt (<) xs" "\<And>u v. P v \<Longrightarrow> u < v \<Longrightarrow> P u"
  shows "filter P xs = takeWhile P xs"
  using assms(1)
proof (induction xs)
  case (Cons x xs)
  have "\<not> P y" if "\<not> P x" "y \<in> set xs" for y
    using that Cons.prems assms(2) [of y x] by auto
  then show ?case using Cons by (auto simp: filter_empty_conv)
qed simp

lemma nth_initial_iff:
  fixes xs :: "'a::linorder list"
  assumes "sorted_wrt (<) xs" "\<And>u v. P v \<Longrightarrow> u < v \<Longrightarrow> P u" "j < length xs"
  shows "P (xs ! j) \<longleftrightarrow> j < length (takeWhile P xs)"
  using assms(1,3)
proof (induction xs arbitrary: j)
  case (Cons x xs)
  have "\<not> P y" if "\<not> P x" "y \<in> set xs" for y
    using that Cons.prems assms(2) [of y x] by auto
  then show ?case using Cons by (cases j) (auto simp: nth_mem)
qed simp

lemma take_initial:
  fixes xs :: "'a::linorder list"
  assumes "sorted_wrt (<) xs" "\<And>u v. P v \<Longrightarrow> u < v \<Longrightarrow> P u"
  shows "take (length (filter P xs)) xs = filter P xs"
  using filter_initial [of xs P] assms by (metis takeWhile_eq_take)

lemma drop_initial:
  fixes xs :: "'a::linorder list"
  assumes "sorted_wrt (<) xs" "\<And>u v. P v \<Longrightarrow> u < v \<Longrightarrow> P u"
  shows "drop (length (filter P xs)) xs = filter (\<lambda>x. \<not> P x) xs"
  using assms(1)
proof (induction xs)
  case (Cons x xs)
  have "\<not> P y" if "\<not> P x" "y \<in> set xs" for y
    using that Cons.prems assms(2) [of y x] by auto
  then have "\<not> P x \<Longrightarrow> filter P xs = [] \<and> filter (\<lambda>x. \<not> P x) xs = xs"
    by (auto simp: filter_empty_conv filter_id_conv)
  then show ?case using Cons by auto
qed simp

lemma sorted_list_of_ascending:
  "sorted_wrt (<) xs \<Longrightarrow> sorted_list_of_set (set xs) = xs" for xs :: "'a::linorder list"
  by (metis sorted_list_of_set.idem_if_sorted_distinct strict_sorted_iff)

section \<open>Popping from the ends of a sequence\<close>

text \<open>
  \<^verbatim>\<open>while (!q.empty() && P(q.back())) q.pop_back();\<close> and its \<^verbatim>\<open>pop_front\<close>
  counterpart, which is \<^const>\<open>dropWhile\<close>.
\<close>

definition pop_back_while :: "('a \<Rightarrow> bool) \<Rightarrow> 'a list \<Rightarrow> 'a list" where
  "pop_back_while P xs = rev (dropWhile P (rev xs))"

lemma pop_back_while_Nil [simp]: "pop_back_while P [] = []"
  by (simp add: pop_back_while_def)

lemma pop_back_while_snoc [simp]:
  "pop_back_while P (xs @ [x]) = (if P x then pop_back_while P xs else xs @ [x])"
  by (simp add: pop_back_while_def)

lemma pop_back_while_prefix: "\<exists>ys. xs = pop_back_while P xs @ ys \<and> (\<forall>y\<in>set ys. P y)"
proof (induction xs rule: rev_induct)
  case (snoc x xs)
  then obtain ys where "xs = pop_back_while P xs @ ys" "\<forall>y\<in>set ys. P y" by blast
  then show ?case
    by (cases "P x") (auto intro!: exI [of _ "ys @ [x]"])
qed simp

lemma set_pop_back_while: "set (pop_back_while P xs) \<subseteq> set xs"
  unfolding pop_back_while_def by (auto dest: set_dropWhileD)

lemma last_pop_back_while: "pop_back_while P xs \<noteq> [] \<Longrightarrow> \<not> P (last (pop_back_while P xs))"
  by (induction xs rule: rev_induct) auto

lemma sorted_wrt_pop_back_while:
  "sorted_wrt R xs \<Longrightarrow> sorted_wrt R (pop_back_while P xs)"
  using pop_back_while_prefix [of xs P] by (metis sorted_wrt_append)

lemma sorted_wrt_dropWhile: "sorted_wrt R xs \<Longrightarrow> sorted_wrt R (dropWhile P xs)"
  by (metis sorted_wrt_append takeWhile_dropWhile_id)

lemma sorted_less_distinct: "sorted_wrt (<) (xs :: 'a::linorder list) \<Longrightarrow> distinct xs"
  by (induction xs) auto

lemma pop_back_while_greater:
  fixes xs :: "'a::linorder list"
  assumes "sorted_wrt (<) xs"
  shows "pop_back_while (\<lambda>x. b < x) xs = filter (\<lambda>x. x \<le> b) xs"
  using assms
proof (induction xs rule: rev_induct)
  case (snoc x xs)
  then have s: "sorted_wrt (<) xs" "\<forall>y\<in>set xs. y < x" by (auto simp: sorted_wrt_append)
  show ?case
  proof (cases "b < x")
    case True
    then show ?thesis using snoc.IH s by simp
  next
    case False
    then have "\<forall>y\<in>set xs. y \<le> b" using s by force
    then show ?thesis using False by simp
  qed
qed simp

lemma dropWhile_le_filter:
  fixes xs :: "'a::linorder list"
  assumes "sorted_wrt (<) xs"
  shows "dropWhile (\<lambda>x. x \<le> b) xs = filter (\<lambda>x. b < x) xs"
  using assms
proof (induction xs)
  case (Cons x xs)
  show ?case
  proof (cases "x \<le> b")
    case False
    then have "\<forall>y\<in>set xs. b < y" using Cons.prems by force
    then show ?thesis using False by simp
  qed (use Cons in auto)
qed simp

lemma last_in_set_sorted:
  fixes xs :: "'a::linorder list"
  assumes "sorted_wrt (<) xs" "x \<in> set xs"
  shows "x \<le> last xs"
  using assms by (induction xs) (auto simp: less_imp_le)

lemma sorted_le_last:
  fixes xs :: "'a::linorder list"
  assumes "sorted xs" "x \<in> set xs"
  shows "x \<le> last xs"
  using assms by (induction xs) auto

section \<open>Association lists as maps\<close>

text \<open>
  \<^verbatim>\<open>std::map\<close> iterates in key order: \<open>omap_emplace\<close> and \<open>omap_set\<close> keep the keys
  ascending. \<^verbatim>\<open>std::unordered_map\<close> iterates in an unspecified order, for which the model
  takes the order of insertion.
\<close>

fun omap_emplace :: "'k::linorder \<Rightarrow> 'v \<Rightarrow> ('k \<times> 'v) list \<Rightarrow> ('k \<times> 'v) list" where
  "omap_emplace k v [] = [(k, v)]"
| "omap_emplace k v ((k', v') # m) =
     (if k < k' then (k, v) # (k', v') # m
      else if k = k' then (k', v') # m
      else (k', v') # omap_emplace k v m)"

fun omap_set :: "'k::linorder \<Rightarrow> 'v \<Rightarrow> ('k \<times> 'v) list \<Rightarrow> ('k \<times> 'v) list" where
  "omap_set k v [] = [(k, v)]"
| "omap_set k v ((k', v') # m) =
     (if k < k' then (k, v) # (k', v') # m
      else if k = k' then (k, v) # m
      else (k', v') # omap_set k v m)"

abbreviation omap_keys :: "('k \<times> 'v) list \<Rightarrow> 'k list" where
  "omap_keys m \<equiv> map fst m"

lemma set_omap_emplace_keys: "fst ` set (omap_emplace k v m) = insert k (fst ` set m)"
  by (induction k v m rule: omap_emplace.induct) auto

lemma set_omap_set_keys: "fst ` set (omap_set k v m) = insert k (fst ` set m)"
  by (induction k v m rule: omap_set.induct) auto

lemma sorted_omap_emplace:
  "sorted_wrt (<) (omap_keys m) \<Longrightarrow> sorted_wrt (<) (omap_keys (omap_emplace k v m))"
proof (induction k v m rule: omap_emplace.induct)
  case (2 k v k' v' m)
  from "2.prems" have s: "sorted_wrt (<) (omap_keys m)" "\<forall>x\<in>fst ` set m. k' < x" by auto
  consider "k < k'" | "k = k'" | "k' < k" by fastforce
  then show ?case
  proof cases
    case 1
    then have "\<forall>x\<in>fst ` set m. k < x" using s(2) by force
    then show ?thesis using 1 s by auto
  next
    case 2
    then show ?thesis using s by auto
  next
    case 3
    have "\<forall>x\<in>fst ` set (omap_emplace k v m). k' < x"
      using s(2) 3 by (simp add: set_omap_emplace_keys)
    then show ?thesis using 3 s "2.IH" by auto
  qed
qed simp

lemma sorted_omap_set:
  "sorted_wrt (<) (omap_keys m) \<Longrightarrow> sorted_wrt (<) (omap_keys (omap_set k v m))"
proof (induction k v m rule: omap_set.induct)
  case (2 k v k' v' m)
  from "2.prems" have s: "sorted_wrt (<) (omap_keys m)" "\<forall>x\<in>fst ` set m. k' < x" by auto
  consider "k < k'" | "k = k'" | "k' < k" by fastforce
  then show ?case
  proof cases
    case 3
    have "\<forall>x\<in>fst ` set (omap_set k v m). k' < x"
      using s(2) 3 by (simp add: set_omap_set_keys)
    then show ?thesis using 3 s "2.IH" by auto
  qed (use s in \<open>auto intro: less_trans\<close>)
qed simp

lemma map_of_omap_set: "map_of (omap_set k v m) k = Some v"
  by (induction k v m rule: omap_set.induct) auto

lemma map_of_omap_set_other: "k' \<noteq> k \<Longrightarrow> map_of (omap_set k v m) k' = map_of m k'"
  by (induction k v m rule: omap_set.induct) auto

lemma map_of_update [simp]: "map_of (AList.update k v m) = (map_of m)(k \<mapsto> v)"
  by (rule update_conv')

lemma keys_update_present:
  "k \<in> fst ` set m \<Longrightarrow> map fst (AList.update k v m) = map fst m"
  by (induction m) auto

end
