(* ===== verification/View_History.thy ===== *)
theory View_History
  imports CCF_Prelude
begin

text \<open>
  \<^verbatim>\<open>aft::ViewHistory\<close> of \<^verbatim>\<open>src/consensus/aft/impl/state.h\<close>: the map from sequence
  numbers to views that every node keeps. Entry \<open>i\<close> of the vector is the first version in view
  \<open>i + 1\<close>; a view that contains no transaction has the same entry as the next one.
\<close>

type_synonym index = nat
type_synonym view = nat
type_synonym view_history = "index list"

section \<open>Operations\<close>

definition VIEW_UNKNOWN :: view where
  "VIEW_UNKNOWN = 0"

text \<open>\<open>None\<close> is the \<^verbatim>\<open>std::logic_error\<close> "version must not move backwards".\<close>

definition vh_update :: "index \<Rightarrow> view \<Rightarrow> view_history \<Rightarrow> view_history option" where
  "vh_update idx v views =
     (if views \<noteq> [] \<and> idx < last views then None
      else Some (views @ replicate (v - length views) idx))"

fun vh_initialise_from :: "nat \<Rightarrow> index list \<Rightarrow> view_history \<Rightarrow> view_history option" where
  "vh_initialise_from i [] views = Some views"
| "vh_initialise_from i (t # ts) views =
     (case vh_update t (i + 1) views of
        None \<Rightarrow> None
      | Some views' \<Rightarrow> vh_initialise_from (i + 1) ts views')"

definition vh_initialise :: "index list \<Rightarrow> view_history option" where
  "vh_initialise terms = vh_initialise_from 0 terms []"

definition view_at :: "view_history \<Rightarrow> index \<Rightarrow> view" where
  "view_at views idx =
     (let it = upper_bound views idx in if it = 0 then VIEW_UNKNOWN else it)"

definition start_of_view :: "view_history \<Rightarrow> view \<Rightarrow> index" where
  "start_of_view views v =
     (if v > length views \<or> v = VIEW_UNKNOWN then NoVersion
      else let tentative = views ! (v - 1)
           in if v + 1 \<le> length views \<and> views ! v = tentative then NoVersion else tentative)"

definition end_of_view :: "view_history \<Rightarrow> view \<Rightarrow> index" where
  "end_of_view views v =
     (if start_of_view views v = NoVersion then NoVersion
      else if v \<ge> length views \<or> v = VIEW_UNKNOWN then NoVersion
      else sub64 (views ! v) 1)"

definition get_history_until :: "view_history \<Rightarrow> index \<Rightarrow> index list" where
  "get_history_until views idx = take (upper_bound views idx) views"

text \<open>
  \<^verbatim>\<open>views.begin() + view - 1\<close> is before the first element when \<open>view\<close> is zero:
  \<open>None\<close> is that undefined iterator.
\<close>

definition get_history_since :: "view_history \<Rightarrow> view \<Rightarrow> index list option" where
  "get_history_since views v =
     (if v > length views then Some []
      else if v = 0 then None
      else Some (drop (v - 1) views))"

definition vh_rollback :: "view_history \<Rightarrow> index \<Rightarrow> view_history" where
  "vh_rollback views idx = take (upper_bound views idx) views"

section \<open>Well-formed histories\<close>

definition vh_ok :: "index \<Rightarrow> view_history \<Rightarrow> bool" where
  "vh_ok bound views \<longleftrightarrow> sorted views \<and> (\<forall>v\<in>set views. 1 \<le> v \<and> v \<le> bound)"

lemma vh_ok_Nil [simp]: "vh_ok b []"
  by (simp add: vh_ok_def)

lemma vh_ok_mono: "vh_ok b views \<Longrightarrow> b \<le> b' \<Longrightarrow> vh_ok b' views"
  by (force simp: vh_ok_def)

lemma vh_ok_sorted: "vh_ok b views \<Longrightarrow> sorted views"
  by (simp add: vh_ok_def)

lemma vh_update_SomeD:
  "vh_update idx v views = Some views' \<Longrightarrow>
     views' = views @ replicate (v - length views) idx \<and> (views = [] \<or> last views \<le> idx)"
  by (auto simp: vh_update_def split: if_splits)

lemma sorted_append_replicate:
  assumes "sorted xs" "xs = [] \<or> last xs \<le> a"
  shows "sorted (xs @ replicate n a)"
proof -
  have "\<forall>x\<in>set xs. x \<le> a" using assms sorted_le_last [of xs] by fastforce
  then show ?thesis using assms(1) by (auto simp: sorted_append)
qed

lemma vh_ok_update:
  assumes "vh_ok b views" "1 \<le> idx" "idx \<le> b" "vh_update idx v views = Some views'"
  shows "vh_ok b views'"
  using assms vh_update_SomeD [OF assms(4)] sorted_append_replicate [of views idx]
  by (auto simp: vh_ok_def)

lemma vh_ok_rollback: "vh_ok b views \<Longrightarrow> vh_ok idx (vh_rollback views idx)"
  by (auto simp: vh_ok_def vh_rollback_def take_upper_bound sorted_wrt_takeWhile
      dest: set_takeWhileD)

lemma length_vh_update:
  "vh_update idx v views = Some views' \<Longrightarrow> length views' = max (length views) v"
  by (auto dest!: vh_update_SomeD)

lemma length_vh_rollback: "length (vh_rollback views idx) \<le> length views"
  by (simp add: vh_rollback_def)

lemma view_at_eq: "view_at views idx = upper_bound views idx"
  by (simp add: view_at_def VIEW_UNKNOWN_def Let_def)

lemma view_at_le_length: "view_at views idx \<le> length views"
  by (simp add: view_at_eq upper_bound_le_length)

lemma view_at_zero: "vh_ok b views \<Longrightarrow> view_at views 0 = 0"
  by (cases views) (auto simp: view_at_eq upper_bound_def vh_ok_def)

lemma view_at_mono: "i \<le> j \<Longrightarrow> view_at views i \<le> view_at views j"
  by (simp add: view_at_eq upper_bound_mono)

section \<open>What the history answers\<close>

lemma view_at_update_before:
  assumes "vh_update idx v views = Some views'" "i < idx"
  shows "view_at views' i = view_at views i"
  using vh_update_SomeD [OF assms(1)] assms(2)
  by (auto simp: view_at_eq upper_bound_append upper_bound_replicate upper_bound_all)

lemma view_at_ge_last:
  assumes "sorted views" "views = [] \<or> last views \<le> i"
  shows "view_at views i = length views"
proof -
  have "\<forall>x\<in>set views. x \<le> i" using assms sorted_le_last [of views] by fastforce
  then show ?thesis by (simp add: view_at_eq upper_bound_all)
qed

lemma view_at_update_after:
  assumes "sorted views" "vh_update idx v views = Some views'" "idx \<le> i"
  shows "view_at views' i = max (view_at views i) v"
proof -
  note u = vh_update_SomeD [OF assms(2)]
  have "sorted views'" using u sorted_append_replicate assms(1) by metis
  moreover have "views' = [] \<or> last views' \<le> i" using u assms(3) by (auto simp: last_append)
  ultimately have "view_at views' i = length views'" by (rule view_at_ge_last)
  moreover have "view_at views i = length views"
    using u assms(3) by (intro view_at_ge_last [OF assms(1)]) auto
  ultimately show ?thesis using length_vh_update [OF assms(2)] by simp
qed

lemma view_at_rollback: "sorted views \<Longrightarrow> view_at (vh_rollback views n) i = view_at views (min i n)"
proof (induction views)
  case (Cons a views)
  then show ?case
    by (auto simp: view_at_eq upper_bound_def vh_rollback_def min_def)
qed (simp add: view_at_eq vh_rollback_def)

lemma start_of_view_view_at:
  assumes "vh_ok b views" "view_at views i = v" "v \<noteq> VIEW_UNKNOWN"
  shows "start_of_view views v = views ! (v - 1)" "1 \<le> start_of_view views v"
    "start_of_view views v \<le> i"
proof -
  have v: "upper_bound views i = v" "0 < v" "v \<le> length views"
    using assms view_at_le_length [of views i] by (simp_all add: view_at_eq VIEW_UNKNOWN_def)
  have le: "views ! (v - 1) \<le> i" using v by (intro nth_before_upper_bound) simp
  have "v < length views \<Longrightarrow> i < views ! v" using nth_upper_bound [of views i] v by simp
  then show eq: "start_of_view views v = views ! (v - 1)"
    using v le by (auto simp: start_of_view_def VIEW_UNKNOWN_def Let_def)
  have "views ! (v - 1) \<in> set views" using v by simp
  then show "1 \<le> start_of_view views v" "start_of_view views v \<le> i"
    using assms(1) le unfolding eq by (auto simp: vh_ok_def)
qed

lemma end_of_view_view_at:
  assumes "vh_ok b views" "b \<le> max64" "view_at views i = v" "v \<noteq> VIEW_UNKNOWN"
  shows "end_of_view views v = (if v < length views then views ! v - 1 else NoVersion)"
    "v < length views \<Longrightarrow> i < views ! v"
proof -
  have s: "1 \<le> start_of_view views v" using start_of_view_view_at assms by blast
  have "v < length views \<Longrightarrow> 1 \<le> views ! v \<and> views ! v \<le> max64"
    using assms(1,2) by (auto simp: vh_ok_def dest!: nth_mem)
  then show "end_of_view views v = (if v < length views then views ! v - 1 else NoVersion)"
    using s assms(4) by (auto simp: end_of_view_def NoVersion_def u64_simps)
  show "v < length views \<Longrightarrow> i < views ! v"
    using nth_upper_bound [of views i] assms(3) by (simp add: view_at_eq)
qed

lemma view_at_before_start:
  assumes "vh_ok b views" "view_at views i = v" "v \<noteq> VIEW_UNKNOWN" "j < start_of_view views v"
  shows "view_at views j < v"
proof -
  have v: "0 < v" "v \<le> length views"
    using assms view_at_le_length [of views i] by (simp_all add: VIEW_UNKNOWN_def)
  have "j < views ! (v - 1)" using start_of_view_view_at(1) [OF assms(1-3)] assms(4) by simp
  then have "\<not> v - 1 < upper_bound views j"
    using upper_bound_sorted_iff [of views "v - 1" j] vh_ok_sorted [OF assms(1)] v by simp
  then show ?thesis using v by (simp add: view_at_eq)
qed

lemma vh_initialise_from_sorted:
  "sorted (views @ ts) \<Longrightarrow> vh_initialise_from (length views) ts views = Some (views @ ts)"
proof (induction ts arbitrary: views)
  case (Cons t ts)
  have "\<forall>x\<in>set views. x \<le> t" using Cons.prems by (simp add: sorted_append)
  then have "\<not> (views \<noteq> [] \<and> t < last views)" using leD last_in_set by blast
  then have "vh_update t (length views + 1) views = Some (views @ [t])"
    by (simp add: vh_update_def)
  moreover have "vh_initialise_from (length (views @ [t])) ts (views @ [t]) = Some ((views @ [t]) @ ts)"
    using Cons.prems by (intro Cons.IH) simp
  ultimately show ?case by simp
qed simp

lemma vh_initialise_sorted: "sorted views \<Longrightarrow> vh_initialise views = Some views"
  using vh_initialise_from_sorted [of "[]" views] by (simp add: vh_initialise_def)

section \<open>The interface that consensus relies on\<close>

text \<open>
  Consensus appends views, rolls them back with the ledger and asks for the view of an index. The
  laws are what its proofs use of a history; they say nothing about how it is stored.
\<close>

locale view_index =
  fixes at_idx :: "'h \<Rightarrow> nat \<Rightarrow> nat"
    and upd :: "nat \<Rightarrow> nat \<Rightarrow> 'h \<Rightarrow> 'h option"
    and rb :: "'h \<Rightarrow> nat \<Rightarrow> 'h"
    and ok :: "nat \<Rightarrow> 'h \<Rightarrow> bool"
  assumes at_mono: "ok b h \<Longrightarrow> i \<le> j \<Longrightarrow> at_idx h i \<le> at_idx h j"
    and at_zero: "ok b h \<Longrightarrow> at_idx h 0 = 0"
    and at_upd_before: "ok b h \<Longrightarrow> upd n v h = Some h' \<Longrightarrow> i < n \<Longrightarrow> at_idx h' i = at_idx h i"
    and at_upd_after: "ok b h \<Longrightarrow> upd n v h = Some h' \<Longrightarrow> n \<le> i \<Longrightarrow> at_idx h' i = max (at_idx h i) v"
    and at_rb: "ok b h \<Longrightarrow> at_idx (rb h n) i = at_idx h (min i n)"
    and ok_upd: "ok b h \<Longrightarrow> 1 \<le> n \<Longrightarrow> n \<le> b \<Longrightarrow> upd n v h = Some h' \<Longrightarrow> ok b h'"
    and ok_rb: "ok b h \<Longrightarrow> ok n (rb h n)"
    and ok_mono: "ok b h \<Longrightarrow> b \<le> b' \<Longrightarrow> ok b' h"
begin

lemma upd_rb_cancel:
  assumes "ok b h" "1 \<le> n" "n \<le> b" "upd n v h = Some h'" "m < n"
  shows "at_idx (rb h' m) i = at_idx (rb h m) i"
proof -
  have "ok b h'" by (rule ok_upd [OF assms(1-4)])
  then show ?thesis using assms by (simp add: at_rb at_upd_before)
qed

lemma rb_rb: "ok b h \<Longrightarrow> at_idx (rb (rb h m) n) i = at_idx (rb h (min m n)) i"
proof -
  assume ok: "ok b h"
  have "at_idx (rb (rb h m) n) i = at_idx (rb h m) (min i n)" by (rule at_rb [OF ok_rb [OF ok]])
  then show ?thesis using at_rb [OF ok] by (simp add: ac_simps)
qed

lemma upd_at_least: "ok b h \<Longrightarrow> upd n v h = Some h' \<Longrightarrow> n \<le> i \<Longrightarrow> v \<le> at_idx h' i"
  by (simp add: at_upd_after)

lemma upd_never_lowers: "ok b h \<Longrightarrow> upd n v h = Some h' \<Longrightarrow> at_idx h i \<le> at_idx h' i"
  by (cases "i < n") (auto simp: at_upd_before at_upd_after)

end

interpretation vh: view_index view_at vh_update vh_rollback vh_ok
proof unfold_locales
  fix b h n v h' and i :: nat
  assume ok: "vh_ok b h" and u: "vh_update n v h = Some h'"
  show "i < n \<Longrightarrow> view_at h' i = view_at h i" using u by (rule view_at_update_before)
  show "n \<le> i \<Longrightarrow> view_at h' i = max (view_at h i) v"
    using u ok by (intro view_at_update_after) (auto dest: vh_ok_sorted)
qed (auto simp: view_at_mono view_at_zero view_at_rollback vh_ok_sorted
  intro: vh_ok_update vh_ok_rollback vh_ok_mono)

section \<open>Properties\<close>

text \<open>
  C15. The bounds of a view delimit exactly the indices that the history assigns to it: if some index
  is in view \<open>v\<close>, then an index is in \<open>v\<close> if and only if it is not before the start of \<open>v\<close> and,
  where \<open>v\<close> is not the latest view, not after its end.
\<close>

theorem view_bounds_exact:
  assumes "vh_ok b views" "b \<le> max64" "view_at views i = v" "v \<noteq> VIEW_UNKNOWN"
  shows "view_at views j = v \<longleftrightarrow>
     start_of_view views v \<le> j \<and> (end_of_view views v \<noteq> NoVersion \<longrightarrow> j \<le> end_of_view views v)"
proof
  assume j: "view_at views j = v"
  show "start_of_view views v \<le> j \<and> (end_of_view views v \<noteq> NoVersion \<longrightarrow> j \<le> end_of_view views v)"
    using start_of_view_view_at(3) [OF assms(1) j assms(4)]
      end_of_view_view_at [OF assms(1,2) j assms(4)] by auto
next
  assume r: "start_of_view views v \<le> j \<and> (end_of_view views v \<noteq> NoVersion \<longrightarrow> j \<le> end_of_view views v)"
  have v: "0 < v" "v \<le> length views"
    using assms view_at_le_length [of views i] by (simp_all add: VIEW_UNKNOWN_def)
  have "views ! (v - 1) \<le> j" using r start_of_view_view_at(1) [OF assms(1,3,4)] by simp
  then have ge: "v \<le> view_at views j"
    using upper_bound_sorted_iff [of views "v - 1" j] vh_ok_sorted [OF assms(1)] v
    unfolding view_at_eq by linarith
  show "view_at views j = v"
  proof (cases "v < length views")
    case True
    note e = end_of_view_view_at [OF assms]
    have "1 \<le> start_of_view views v" "start_of_view views v \<le> i"
      using start_of_view_view_at [OF assms(1,3,4)] by blast+
    then have "end_of_view views v \<noteq> NoVersion" "j < views ! v"
      using e True r by (auto simp: NoVersion_def)
    then have "\<not> v < upper_bound views j"
      using upper_bound_sorted_iff [of views v j] vh_ok_sorted [OF assms(1)] True by simp
    then show ?thesis using ge by (simp add: view_at_eq)
  next
    case False
    then show ?thesis using ge v view_at_le_length [of views j] by simp
  qed
qed

theorem view_bounds_exact_witness:
  "vh_ok 10 [1, 1, 5] \<and> view_at [1, 1, 5] 3 = 2 \<and>
   view_at [1, 1, 5] 4 = 2 \<and> start_of_view [1, 1, 5] 2 = 1 \<and> end_of_view [1, 1, 5] 2 = 4"
proof -
  have h: "vh_ok 10 [1, 1, 5]" "view_at [1, 1, 5] 3 = 2" "(10::nat) \<le> max64"
    "(2::nat) \<noteq> VIEW_UNKNOWN"
    by (simp_all add: vh_ok_def view_at_eq upper_bound_def max64_def two64_def VIEW_UNKNOWN_def)
  have b: "start_of_view [1, 1, 5] 2 = 1" "end_of_view [1, 1, 5] 2 = 4" by code_simp+
  show ?thesis using h(1,2) b view_bounds_exact [OF h(1,3,2,4), of 4] by simp
qed

text \<open>
  C16. Rolling the ledger back to \<open>m\<close> undoes later view changes: an update at a version above \<open>m\<close>
  followed by a rollback to \<open>m\<close> answers every index like the rollback alone, and the history up to
  \<open>m\<close> is the history before.
\<close>

theorem rollback_undoes_update:
  assumes "vh_ok b views" "1 \<le> n" "n \<le> b" "vh_update n v views = Some views'" "m < n"
  shows "view_at (vh_rollback views' m) i = view_at (vh_rollback views m) i \<and>
    (i \<le> m \<longrightarrow> view_at (vh_rollback views' m) i = view_at views i)"
proof
  show eq: "view_at (vh_rollback views' m) i = view_at (vh_rollback views m) i"
    using assms by (rule vh.upd_rb_cancel)
  show "i \<le> m \<longrightarrow> view_at (vh_rollback views' m) i = view_at views i"
    unfolding eq using vh.at_rb [OF assms(1)] by simp
qed

theorem rollback_undoes_update_witness:
  "vh_update 7 4 [1, 1, 5] = Some [1, 1, 5, 7] \<and>
   view_at (vh_rollback [1, 1, 5, 7] 6) 5 = view_at (vh_rollback [1, 1, 5] 6) 5 \<and>
   view_at (vh_rollback [1, 1, 5, 7] 6) 5 = view_at [1, 1, 5] 5"
proof -
  have h: "vh_ok 10 [1, 1, 5]" "(1::nat) \<le> 7" "(7::nat) \<le> 10"
    "vh_update 7 4 [1, 1, 5] = Some [1, 1, 5, 7]" "(6::nat) < 7"
    by (simp_all add: vh_ok_def vh_update_def numeral_eq_Suc)
  show ?thesis using h(4) rollback_undoes_update [OF h, of 5] by simp
qed

end
