(* ===== verification/Tx_Status.thy ===== *)
theory Tx_Status
  imports View_History
begin

text \<open>
  Transaction identifiers (\<^verbatim>\<open>include/ccf/tx_id.h\<close>) with their textual form, and the
  status of a transaction as one node sees it (\<^verbatim>\<open>include/ccf/tx_status.h\<close>).
\<close>

section \<open>Transaction identifiers\<close>

record tx_id =
  tx_view :: view
  tx_seqno :: index

text \<open>\<^verbatim>\<open>std::to_string\<close> on an unsigned value, and \<^verbatim>\<open>std::from_chars\<close> into a
  \<^verbatim>\<open>uint64_t\<close>: the longest run of digits, an error when there is none or when the value does
  not fit, and the rest of the input.\<close>

definition digit_char :: "nat \<Rightarrow> char" where
  "digit_char d = char_of (48 + d)"

definition is_digit :: "char \<Rightarrow> bool" where
  "is_digit c \<longleftrightarrow> 48 \<le> (of_char c :: nat) \<and> (of_char c :: nat) \<le> 57"

definition char_digit :: "char \<Rightarrow> nat" where
  "char_digit c = of_char c - 48"

fun to_string :: "nat \<Rightarrow> string" where
  "to_string n =
     (if n < 10 then [digit_char n] else to_string (n div 10) @ [digit_char (n mod 10)])"

declare to_string.simps [simp del]

definition digits_value :: "string \<Rightarrow> nat" where
  "digits_value ds = foldl (\<lambda>acc c. acc * 10 + char_digit c) 0 ds"

definition from_chars :: "string \<Rightarrow> (nat \<times> string) option" where
  "from_chars s =
     (let ds = takeWhile is_digit s
      in if ds = [] \<or> digits_value ds > max64 then None
         else Some (digits_value ds, dropWhile is_digit s))"

definition to_str :: "tx_id \<Rightarrow> string" where
  "to_str tx = to_string (tx_view tx) @ ''.'' @ to_string (tx_seqno tx)"

definition from_str :: "string \<Rightarrow> tx_id option" where
  "from_str sv =
     (let view_sv = takeWhile (\<lambda>c. c \<noteq> CHR ''.'') sv
      in if view_sv = sv then None
         else case from_chars view_sv of
             None \<Rightarrow> None
           | Some (v, p) \<Rightarrow>
               if p \<noteq> [] \<or> v = VIEW_UNKNOWN then None
               else case from_chars (drop (length view_sv + 1) sv) of
                   None \<Rightarrow> None
                 | Some (n, p') \<Rightarrow>
                     if p' \<noteq> [] \<or> n = 0 then None
                     else Some \<lparr>tx_view = v, tx_seqno = n\<rparr>)"

lemma digit_char_facts:
  assumes "d < 10"
  shows "is_digit (digit_char d)" "char_digit (digit_char d) = d"
    "digit_char d \<noteq> CHR ''.''"
proof -
  have c: "(of_char (digit_char d) :: nat) = 48 + d"
    using assms by (simp add: digit_char_def)
  show "is_digit (digit_char d)" "char_digit (digit_char d) = d"
    using assms c by (simp_all add: is_digit_def char_digit_def)
  show "digit_char d \<noteq> CHR ''.''"
  proof
    assume "digit_char d = CHR ''.''"
    then have "48 + d = 46" using c by simp
    then show False by simp
  qed
qed

lemma to_string_digits: "c \<in> set (to_string n) \<Longrightarrow> is_digit c \<and> c \<noteq> CHR ''.''"
proof (induction n rule: to_string.induct)
  case (1 n)
  then show ?case
    by (subst (asm) to_string.simps) (auto simp: digit_char_facts split: if_splits)
qed

lemma to_string_nonempty: "to_string n \<noteq> []"
  by (subst to_string.simps) simp

lemma digits_value_snoc: "digits_value (ds @ [c]) = digits_value ds * 10 + char_digit c"
  by (simp add: digits_value_def)

lemma digits_value_to_string: "digits_value (to_string n) = n"
proof (induction n rule: to_string.induct)
  case (1 n)
  show ?case
  proof (cases "n < 10")
    case True
    then show ?thesis
      by (subst to_string.simps) (simp add: digits_value_def digit_char_facts)
  next
    case False
    then show ?thesis
      using 1 by (subst to_string.simps) (simp add: digits_value_snoc digit_char_facts)
  qed
qed

lemma from_chars_to_string: "n \<le> max64 \<Longrightarrow> from_chars (to_string n) = Some (n, [])"
proof -
  assume n: "n \<le> max64"
  have tw: "takeWhile is_digit (to_string n) = to_string n"
    by (simp add: takeWhile_eq_all_conv to_string_digits)
  have dw: "dropWhile is_digit (to_string n) = []"
    by (simp add: to_string_digits)
  show ?thesis
    unfolding from_chars_def Let_def tw dw
    using n by (simp add: digits_value_to_string to_string_nonempty)
qed

lemma from_chars_to_string_iff:
  "from_chars (to_string n) = (if n \<le> max64 then Some (n, []) else None)"
proof (cases "n \<le> max64")
  case False
  have "takeWhile is_digit (to_string n) = to_string n"
    by (simp add: takeWhile_eq_all_conv to_string_digits)
  then have "from_chars (to_string n) = None"
    unfolding from_chars_def Let_def using False by (simp only: digits_value_to_string) simp
  then show ?thesis using False by simp
qed (simp add: from_chars_to_string)

lemma takeWhile_dot_to_string:
  "takeWhile (\<lambda>c. c \<noteq> CHR ''.'') (to_string n @ CHR ''.'' # s) = to_string n"
  by (subst takeWhile_append2) (simp_all add: to_string_digits)

lemma from_str_bounds:
  assumes "from_str sv = Some tx"
  shows "1 \<le> tx_view tx \<and> tx_view tx \<le> max64 \<and> 1 \<le> tx_seqno tx \<and> tx_seqno tx \<le> max64"
  using assms
  by (auto simp: from_str_def from_chars_def Let_def VIEW_UNKNOWN_def
      split: if_splits option.splits prod.splits)

section \<open>Transaction status\<close>

datatype tx_status = Unknown | Pending | Committed | Invalid

datatype status_error = LocalViewUnknown

definition evaluate_tx_status ::
    "view \<Rightarrow> index \<Rightarrow> view \<Rightarrow> view \<Rightarrow> index \<Rightarrow> status_error + tx_status" where
  "evaluate_tx_status target_view target_seqno local_view committed_view committed_seqno =
     (let is_committed = committed_seqno \<ge> target_seqno;
          views_match = (local_view = target_view);
          view_known = (local_view \<noteq> VIEW_UNKNOWN)
      in if is_committed \<and> \<not> view_known then Inl LocalViewUnknown
         else if is_committed then Inr (if views_match then Committed else Invalid)
         else if views_match then Inr Pending
         else if committed_view > target_view then Inr Invalid
         else Inr Unknown)"

lemma evaluate_tx_status_committed:
  "target_seqno \<le> committed_seqno \<Longrightarrow> local_view \<noteq> VIEW_UNKNOWN \<Longrightarrow>
   evaluate_tx_status v target_seqno local_view cv committed_seqno =
     Inr (if local_view = v then Committed else Invalid)"
  by (simp add: evaluate_tx_status_def)

lemma evaluate_tx_status_not_committed:
  "committed_seqno < target_seqno \<Longrightarrow>
   \<exists>st. evaluate_tx_status v target_seqno local_view cv committed_seqno = Inr st \<and> st \<noteq> Committed"
  by (auto simp: evaluate_tx_status_def Let_def)

section \<open>Properties\<close>

text \<open>
  C19. A transaction id is parsed back from its text exactly if it can be the id of a transaction: for
  a view and a sequence number between 1 and the largest 64-bit number, reading the printed form
  gives the same id; an id with a zero or an overlong number is rejected.
\<close>

theorem tx_id_round_trip:
  "from_str (to_str tx) =
     (if 1 \<le> tx_view tx \<and> tx_view tx \<le> max64 \<and> 1 \<le> tx_seqno tx \<and> tx_seqno tx \<le> max64
      then Some tx else None)"
proof -
  have tw: "takeWhile (\<lambda>c. c \<noteq> CHR ''.'') (to_str tx) = to_string (tx_view tx)"
    by (simp add: to_str_def takeWhile_dot_to_string)
  have ne: "to_string (tx_view tx) \<noteq> to_str tx" by (simp add: to_str_def)
  have dr: "drop (length (to_string (tx_view tx)) + 1) (to_str tx) = to_string (tx_seqno tx)"
    by (simp add: to_str_def)
  show ?thesis
    unfolding from_str_def Let_def tw dr
    using ne by (auto simp: from_chars_to_string_iff VIEW_UNKNOWN_def Suc_le_eq)
qed

end
