(* ===== verification/Commit_Callbacks.thy ===== *)
theory Commit_Callbacks
  imports Tx_Status
begin

text \<open>
  \<^verbatim>\<open>CommitCallbackSubsystem\<close> of \<^verbatim>\<open>src/node/commit_callback_subsystem.h\<close>: callbacks that
  wait for a transaction to reach a final status. A callback is a value \<open>'c\<close>; running it
  appends the call to the list of executed callbacks.
\<close>

record 'c ccs =
  pending_callbacks :: "(index \<times> (tx_id \<times> 'c) list) list"
  known_commit :: "tx_id option"
  known_view_history :: view_history
  consensus_set :: bool
  executed :: "(tx_id \<times> tx_status \<times> 'c) list"

definition ccs_init :: "'c ccs" where
  "ccs_init = \<lparr>pending_callbacks = [], known_commit = None, known_view_history = [],
     consensus_set = False, executed = []\<rparr>"

definition set_consensus :: "'c ccs \<Rightarrow> 'c ccs" where
  "set_consensus s = s\<lparr>consensus_set := True\<rparr>"

datatype ccs_error = NoConsensus | NotTerminal | StatusError status_error

datatype 'c ccs_res = CcsOk "'c ccs" | CcsThrow ccs_error "'c ccs"

fun is_terminal :: "tx_status \<Rightarrow> bool" where
  "is_terminal Committed = True"
| "is_terminal Invalid = True"
| "is_terminal _ = False"

fun enqueue_callback ::
    "index \<Rightarrow> tx_id \<times> 'c \<Rightarrow> (index \<times> (tx_id \<times> 'c) list) list
       \<Rightarrow> (index \<times> (tx_id \<times> 'c) list) list" where
  "enqueue_callback n cb [] = [(n, [cb])]"
| "enqueue_callback n cb ((k, cbs) # m) =
     (if n < k then (n, [cb]) # (k, cbs) # m
      else if n = k then (k, cbs @ [cb]) # m
      else (k, cbs) # enqueue_callback n cb m)"

definition local_status :: "view_history \<Rightarrow> tx_id \<Rightarrow> tx_id \<Rightarrow> status_error + tx_status" where
  "local_status vh committed tx =
     evaluate_tx_status (tx_view tx) (tx_seqno tx) (view_at vh (tx_seqno tx))
       (tx_view committed) (tx_seqno committed)"

definition add_callback :: "tx_id \<Rightarrow> 'c \<Rightarrow> 'c ccs \<Rightarrow> 'c ccs_res" where
  "add_callback tx cb s =
     (let enqueue = CcsOk (s\<lparr>pending_callbacks :=
            enqueue_callback (tx_seqno tx) (tx, cb) (pending_callbacks s)\<rparr>)
      in case known_commit s of
           None \<Rightarrow> enqueue
         | Some committed \<Rightarrow>
             (case local_status (known_view_history s) committed tx of
                Inl e \<Rightarrow> CcsThrow (StatusError e) s
              | Inr st \<Rightarrow>
                  if is_terminal st then CcsOk (s\<lparr>executed := executed s @ [(tx, st, cb)]\<rparr>)
                  else enqueue))"

text \<open>The statuses of the callbacks of one sequence number, in order.\<close>

fun ready_callbacks ::
    "view_history \<Rightarrow> tx_id \<Rightarrow> (tx_id \<times> 'c) list \<Rightarrow> ccs_error + (tx_id \<times> tx_status \<times> 'c) list" where
  "ready_callbacks vh committed [] = Inr []"
| "ready_callbacks vh committed ((tx, cb) # cbs) =
     (case local_status vh committed tx of
        Inl e \<Rightarrow> Inl (StatusError e)
      | Inr st \<Rightarrow>
          if \<not> is_terminal st then Inl NotTerminal
          else (case ready_callbacks vh committed cbs of
                  Inl e \<Rightarrow> Inl e
                | Inr rs \<Rightarrow> Inr ((tx, st, cb) # rs)))"

text \<open>
  The loop over the ordered map: the entries up to the committed sequence number are erased one
  by one. The result is the map that is left, with the callbacks that are ready or the exception
  that ended the loop.
\<close>

fun collect_ready ::
    "view_history \<Rightarrow> tx_id \<Rightarrow> (index \<times> (tx_id \<times> 'c) list) list
       \<Rightarrow> (index \<times> (tx_id \<times> 'c) list) list \<times> (ccs_error + (tx_id \<times> tx_status \<times> 'c) list)" where
  "collect_ready vh committed [] = ([], Inr [])"
| "collect_ready vh committed ((n, cbs) # m) =
     (if n > tx_seqno committed then ((n, cbs) # m, Inr [])
      else case ready_callbacks vh committed cbs of
          Inl e \<Rightarrow> ((n, cbs) # m, Inl e)
        | Inr rs \<Rightarrow>
            (case collect_ready vh committed m of
               (m', Inl e) \<Rightarrow> (m', Inl e)
             | (m', Inr rs') \<Rightarrow> (m', Inr (rs @ rs'))))"

definition trigger_callbacks :: "tx_id \<Rightarrow> view_history \<Rightarrow> 'c ccs \<Rightarrow> 'c ccs_res" where
  "trigger_callbacks committed vh s =
     (if \<not> consensus_set s then CcsThrow NoConsensus s
      else
        let s1 = s\<lparr>known_commit := Some committed, known_view_history := vh\<rparr>
        in case collect_ready vh committed (pending_callbacks s1) of
             (m', Inl e) \<Rightarrow> CcsThrow e (s1\<lparr>pending_callbacks := m'\<rparr>)
           | (m', Inr rs) \<Rightarrow>
               CcsOk (s1\<lparr>pending_callbacks := m', executed := executed s1 @ rs\<rparr>))"

section \<open>The pending map\<close>

definition ccs_inv :: "'c ccs \<Rightarrow> bool" where
  "ccs_inv s \<longleftrightarrow> sorted_wrt (<) (omap_keys (pending_callbacks s)) \<and>
     (\<forall>(n, cbs)\<in>set (pending_callbacks s). \<forall>(tx, cb)\<in>set cbs. tx_seqno tx = n)"

lemma enqueue_callback_keys:
  "fst ` set (enqueue_callback n cb m) = insert n (fst ` set m)"
  by (induction n cb m rule: enqueue_callback.induct) auto

lemma sorted_enqueue_callback:
  "sorted_wrt (<) (omap_keys m) \<Longrightarrow> sorted_wrt (<) (omap_keys (enqueue_callback n cb m))"
proof (induction n cb m rule: enqueue_callback.induct)
  case (2 n cb k cbs m)
  from "2.prems" have s: "\<forall>x\<in>fst ` set m. k < x" by auto
  then have "k < n \<Longrightarrow> \<forall>x\<in>fst ` set (enqueue_callback n cb m). k < x"
    by (simp add: enqueue_callback_keys)
  then show ?case using 2 s by force
qed simp

lemma enqueue_callback_seqnos:
  "(\<forall>(k, cbs)\<in>set m. \<forall>(tx, c)\<in>set cbs. tx_seqno tx = k) \<Longrightarrow>
   (\<forall>(k, cbs)\<in>set (enqueue_callback (tx_seqno tx) (tx, cb) m). \<forall>(tx, c)\<in>set cbs. tx_seqno tx = k)"
  by (induction m) (fastforce split: if_splits)+

lemma ready_callbacks_ok:
  assumes "\<forall>(tx, cb)\<in>set cbs. tx_seqno tx = n" "n \<le> tx_seqno committed"
    "view_at vh n \<noteq> VIEW_UNKNOWN"
  shows "ready_callbacks vh committed cbs =
     Inr (map (\<lambda>(tx, cb). (tx, if view_at vh (tx_seqno tx) = tx_view tx then Committed else Invalid, cb)) cbs)"
  using assms(1)
proof (induction cbs)
  case (Cons a cbs)
  obtain tx cb where a: "a = (tx, cb)" by (cases a)
  have "local_status vh committed tx =
      Inr (if view_at vh (tx_seqno tx) = tx_view tx then Committed else Invalid)"
    unfolding local_status_def using Cons.prems assms a
    by (intro evaluate_tx_status_committed) auto
  then show ?case using Cons a by simp
qed simp

text \<open>All callbacks of a map, in the order of the map.\<close>

definition callbacks_of :: "(index \<times> (tx_id \<times> 'c) list) list \<Rightarrow> (tx_id \<times> 'c) list" where
  "callbacks_of m = concat (map snd m)"

definition final_status :: "view_history \<Rightarrow> tx_id \<Rightarrow> tx_status" where
  "final_status vh tx = (if view_at vh (tx_seqno tx) = tx_view tx then Committed else Invalid)"

lemma collect_ready_ok:
  assumes "sorted_wrt (<) (omap_keys m)"
    "\<forall>(n, cbs)\<in>set m. \<forall>(tx, cb)\<in>set cbs. tx_seqno tx = n"
    "\<forall>n\<in>set (omap_keys m). n \<le> tx_seqno committed \<longrightarrow> view_at vh n \<noteq> VIEW_UNKNOWN"
  shows "collect_ready vh committed m =
    (filter (\<lambda>(n, cbs). tx_seqno committed < n) m,
     Inr (map (\<lambda>(tx, cb). (tx, final_status vh tx, cb))
       (callbacks_of (filter (\<lambda>(n, cbs). n \<le> tx_seqno committed) m))))"
  using assms
proof (induction m)
  case (Cons a m)
  obtain n cbs where a: "a = (n, cbs)" by (cases a)
  show ?case
  proof (cases "n > tx_seqno committed")
    case True
    then have "\<forall>(k, c)\<in>set m. tx_seqno committed < k"
      using Cons.prems(1) a by fastforce
    then have "filter (\<lambda>(n, cbs). tx_seqno committed < n) m = m"
      "filter (\<lambda>(n, cbs). n \<le> tx_seqno committed) m = []"
      by (auto simp: filter_id_conv filter_empty_conv)
    then show ?thesis using True a by (simp add: callbacks_of_def)
  next
    case False
    have "ready_callbacks vh committed cbs =
        Inr (map (\<lambda>(tx, cb). (tx, final_status vh tx, cb)) cbs)"
      using ready_callbacks_ok [of cbs n committed vh] Cons.prems a False
      by (simp add: final_status_def)
    then show ?thesis
      using Cons False a by (simp add: callbacks_of_def)
  qed
qed (simp add: callbacks_of_def)

section \<open>Properties\<close>

text \<open>
  C13. A commit notification runs what is due, once: every pending callback whose sequence number is
  committed is executed exactly once, in the order of the sequence numbers and of registration, with
  status Committed if the history has its view at that number and Invalid otherwise; it is removed
  from the pending map, and all others stay pending.
\<close>

theorem trigger_runs_due_callbacks:
  assumes "ccs_inv s" "consensus_set s"
    and "\<forall>n\<in>set (omap_keys (pending_callbacks s)). n \<le> tx_seqno committed \<longrightarrow> view_at vh n \<noteq> VIEW_UNKNOWN"
  shows "\<exists>t. trigger_callbacks committed vh s = CcsOk t \<and> ccs_inv t \<and>
     pending_callbacks t = filter (\<lambda>(n, cbs). tx_seqno committed < n) (pending_callbacks s) \<and>
     executed t = executed s @ map (\<lambda>(tx, cb). (tx, final_status vh tx, cb))
       (callbacks_of (filter (\<lambda>(n, cbs). n \<le> tx_seqno committed) (pending_callbacks s)))"
proof -
  have "collect_ready vh committed (pending_callbacks s) =
    (filter (\<lambda>(n, cbs). tx_seqno committed < n) (pending_callbacks s),
     Inr (map (\<lambda>(tx, cb). (tx, final_status vh tx, cb))
       (callbacks_of (filter (\<lambda>(n, cbs). n \<le> tx_seqno committed) (pending_callbacks s)))))"
    using assms by (intro collect_ready_ok) (auto simp: ccs_inv_def)
  moreover have "ccs_inv (s\<lparr>pending_callbacks := filter P (pending_callbacks s), known_commit := k,
      known_view_history := h, executed := e\<rparr>)" for P k h e
    using assms(1) sorted_wrt_filter [of "\<lambda>a b. fst a < fst b" "pending_callbacks s" P]
    by (auto simp: ccs_inv_def sorted_wrt_map)
  ultimately show ?thesis using assms(2) by (auto simp: trigger_callbacks_def ccs_inv_def)
qed

definition sample_ccs :: "nat ccs" where
  "sample_ccs = \<lparr>pending_callbacks = [(2, [(\<lparr>tx_view = 1, tx_seqno = 2\<rparr>, 7), (\<lparr>tx_view = 2, tx_seqno = 2\<rparr>, 8)]),
       (5, [(\<lparr>tx_view = 2, tx_seqno = 5\<rparr>, 9)])],
     known_commit = None, known_view_history = [], consensus_set = True, executed = []\<rparr>"

theorem trigger_runs_due_callbacks_witness:
  "\<exists>t. trigger_callbacks \<lparr>tx_view = 2, tx_seqno = 4\<rparr> [1, 3] sample_ccs = CcsOk t \<and>
     executed t = [(\<lparr>tx_view = 1, tx_seqno = 2\<rparr>, Committed, 7), (\<lparr>tx_view = 2, tx_seqno = 2\<rparr>, Invalid, 8)]"
proof -
  have c: "ccs_inv sample_ccs" "consensus_set sample_ccs"
    "\<forall>n\<in>set (omap_keys (pending_callbacks sample_ccs)). n \<le> tx_seqno \<lparr>tx_view = 2, tx_seqno = 4\<rparr> \<longrightarrow>
       view_at [1, 3] n \<noteq> VIEW_UNKNOWN"
    "executed sample_ccs @ map (\<lambda>(tx, cb). (tx, final_status [1, 3] tx, cb))
       (callbacks_of (filter (\<lambda>(n, cbs). n \<le> tx_seqno \<lparr>tx_view = 2, tx_seqno = 4\<rparr>) (pending_callbacks sample_ccs))) =
     [(\<lparr>tx_view = 1, tx_seqno = 2\<rparr>, Committed, 7), (\<lparr>tx_view = 2, tx_seqno = 2\<rparr>, Invalid, 8)]"
    by code_simp+
  show ?thesis
    using trigger_runs_due_callbacks [OF c(1-3)] unfolding c(4) by blast
qed



end
