(* ===== verification/Serialized.thy ===== *)
theory Serialized
  imports CCF_Prelude
begin

text \<open>
  The cursor functions of \<^verbatim>\<open>src/ds/serialized.h\<close> on little-endian fixed-width values and
  blocks, the header of a ledger entry (\<^verbatim>\<open>src/kv/serialised_entry_format.h\<close>) and the entry
  cursor of \<^verbatim>\<open>src/consensus/ledger_enclave.h\<close>. A cursor \<^verbatim>\<open>(data, size)\<close> is the list of
  the bytes from \<^verbatim>\<open>data\<close> on; advancing it drops bytes.
\<close>

type_synonym byte = "8 word"
type_synonym bytes = "byte list"

datatype ser_error = InsufficientSpace | OutOfBoundsRead

section \<open>Little-endian values\<close>

fun le_bytes :: "nat \<Rightarrow> nat \<Rightarrow> bytes" where
  "le_bytes 0 n = []"
| "le_bytes (Suc k) n = of_nat (n mod 256) # le_bytes k (n div 256)"

fun le_value :: "bytes \<Rightarrow> nat" where
  "le_value [] = 0"
| "le_value (b # bs) = unat b + 256 * le_value bs"

lemma length_le_bytes [simp]: "length (le_bytes k n) = k"
  by (induction k n rule: le_bytes.induct) auto

lemma unat_of_nat_byte: "n < 256 \<Longrightarrow> unat (of_nat n :: byte) = n"
  by (simp add: unat_of_nat take_bit_eq_mod)

lemma le_value_le_bytes: "le_value (le_bytes k n) = n mod 256 ^ k"
proof (induction k n rule: le_bytes.induct)
  case (2 k n)
  have "unat (of_nat (n mod 256) :: byte) = n mod 256"
    by (rule unat_of_nat_byte) simp
  then show ?case using 2 by (simp add: mod_mult2_eq)
qed simp

lemma le_value_bound: "le_value bs < 256 ^ length bs"
proof (induction bs)
  case (Cons b bs)
  have "unat b < 256" using unsigned_less [of b, where ?'a = nat] by simp
  then have "unat b + 256 * le_value bs < 256 + 256 * le_value bs" by simp
  also have "\<dots> = 256 * (le_value bs + 1)" by simp
  also have "\<dots> \<le> 256 * 256 ^ length bs"
    by (rule mult_le_mono2) (use Cons in simp)
  finally show ?case by simp
qed simp

lemma le_bytes_le_value: "le_bytes (length bs) (le_value bs) = bs"
proof (induction bs)
  case (Cons b bs)
  have b: "unat b < 256" using unsigned_less [of b, where ?'a = nat] by simp
  then have "(unat b + 256 * le_value bs) mod 256 = unat b"
    "(unat b + 256 * le_value bs) div 256 = le_value bs" by simp_all
  then show ?case using Cons by simp
qed simp

lemma two64_bytes: "(256::nat) ^ 8 = two64"
  by (simp add: two64_def)

section \<open>Cursor functions\<close>

definition ser_peek :: "nat \<Rightarrow> bytes \<Rightarrow> ser_error + nat" where
  "ser_peek n data = (if length data < n then Inl InsufficientSpace else Inr (le_value (take n data)))"

definition ser_read :: "nat \<Rightarrow> bytes \<Rightarrow> ser_error + (nat \<times> bytes)" where
  "ser_read n data =
     (if length data < n then Inl InsufficientSpace
      else Inr (le_value (take n data), drop n data))"

definition ser_read_block :: "nat \<Rightarrow> bytes \<Rightarrow> ser_error + (bytes \<times> bytes)" where
  "ser_read_block n data =
     (if length data < n then Inl InsufficientSpace else Inr (take n data, drop n data))"

definition ser_read_string :: "bytes \<Rightarrow> ser_error + (bytes \<times> bytes)" where
  "ser_read_string data =
     (case ser_read 8 data of
        Inl e \<Rightarrow> Inl e
      | Inr (len, rest) \<Rightarrow>
          if length rest < len then Inl InsufficientSpace else Inr (take len rest, drop len rest))"

definition ser_skip :: "nat \<Rightarrow> bytes \<Rightarrow> ser_error + bytes" where
  "ser_skip n data = (if length data < n then Inl InsufficientSpace else Inr (drop n data))"

text \<open>
  The writers have a destination of a given size: the model is the bytes written and the room that
  is left.
\<close>

definition ser_write :: "nat \<Rightarrow> nat \<Rightarrow> nat \<Rightarrow> ser_error + (bytes \<times> nat)" where
  "ser_write room n v = (if room < n then Inl InsufficientSpace else Inr (le_bytes n v, room - n))"

definition ser_write_block :: "nat \<Rightarrow> bytes \<Rightarrow> ser_error + (bytes \<times> nat)" where
  "ser_write_block room block =
     (if room < length block then Inl InsufficientSpace else Inr (block, room - length block))"

definition ser_write_string :: "nat \<Rightarrow> bytes \<Rightarrow> ser_error + (bytes \<times> nat)" where
  "ser_write_string room v =
     (if room < 8 + length v then Inl InsufficientSpace
      else case ser_write room 8 (length v) of
          Inl e \<Rightarrow> Inl e
        | Inr (b1, room1) \<Rightarrow>
            (case ser_write_block room1 v of
               Inl e \<Rightarrow> Inl e
             | Inr (b2, room2) \<Rightarrow> Inr (b1 @ b2, room2)))"

lemma ser_read_le_bytes:
  "ser_read n (le_bytes n v @ rest) = Inr (v mod 256 ^ n, rest)"
  by (simp add: ser_read_def le_value_le_bytes)

lemma ser_read_le_bytes_small [simp]:
  "v < 256 ^ n \<Longrightarrow> ser_read n (le_bytes n v @ rest) = Inr (v, rest)"
  by (simp add: ser_read_le_bytes)

section \<open>Ledger entries\<close>

text \<open>
  The eight header bytes are the version, the flags and the 48-bit size. \<open>get_entry\<close> copies the
  entry out of the buffer before \<^verbatim>\<open>serialized::skip\<close> compares its length with the size of the
  buffer: \<open>OutOfBoundsRead\<close> is a copy that runs past the end.
\<close>

definition serialised_entry_header_size :: nat where
  "serialised_entry_header_size = 8"

record entry_header =
  eh_version :: nat
  eh_flags :: nat
  eh_size :: nat

definition encode_entry_header :: "entry_header \<Rightarrow> bytes" where
  "encode_entry_header h = le_bytes 1 (eh_version h) @ le_bytes 1 (eh_flags h) @ le_bytes 6 (eh_size h)"

definition decode_entry_header :: "bytes \<Rightarrow> entry_header" where
  "decode_entry_header bs =
     \<lparr>eh_version = le_value (take 1 bs), eh_flags = le_value (take 1 (drop 1 bs)),
      eh_size = le_value (take 6 (drop 2 bs))\<rparr>"

definition get_entry :: "bytes \<Rightarrow> ser_error + (bytes \<times> bytes)" where
  "get_entry data =
     (if length data < serialised_entry_header_size then Inl InsufficientSpace
      else
        let header = decode_entry_header (take serialised_entry_header_size data);
            entry_size = serialised_entry_header_size + eh_size header
        in if length data < entry_size then Inl OutOfBoundsRead
           else Inr (take entry_size data, drop entry_size data))"

definition skip_entry :: "bytes \<Rightarrow> ser_error + bytes" where
  "skip_entry data =
     (if length data < serialised_entry_header_size then Inl InsufficientSpace
      else
        let header = decode_entry_header (take serialised_entry_header_size data)
        in ser_skip (eh_size header) (drop serialised_entry_header_size data))"

lemma decode_encode_entry_header:
  assumes "eh_version h < 256" "eh_flags h < 256" "eh_size h < 2 ^ 48"
  shows "decode_entry_header (encode_entry_header h @ rest) = h"
proof -
  have s: "(256::nat) ^ 6 = 2 ^ 48" by simp
  have "le_value (le_bytes 6 (eh_size h)) = eh_size h"
    using assms(3) by (simp only: le_value_le_bytes s mod_less)
  moreover have "le_value (le_bytes 1 (eh_version h)) = eh_version h"
    "le_value (le_bytes 1 (eh_flags h)) = eh_flags h"
    using assms(1,2) by (simp_all only: le_value_le_bytes power_one_right mod_less)
  ultimately show ?thesis
    by (simp add: decode_entry_header_def encode_entry_header_def del: One_nat_def)
qed

lemma length_encode_entry_header [simp]: "length (encode_entry_header h) = 8"
  by (simp add: encode_entry_header_def)

lemma get_entry_consumes: "get_entry data = Inr (e, rest) \<Longrightarrow> length rest < length data"
  by (auto simp: get_entry_def Let_def serialised_entry_header_size_def split: if_splits)

lemma skip_entry_consumes: "skip_entry data = Inr rest \<Longrightarrow> length rest < length data"
  by (auto simp: skip_entry_def ser_skip_def Let_def serialised_entry_header_size_def
      split: if_splits)

lemma get_entry_encoded:
  assumes "eh_version h < 256" "eh_flags h < 256" "eh_size h < 2 ^ 48" "length body = eh_size h"
  shows "get_entry (encode_entry_header h @ body @ rest) = Inr (encode_entry_header h @ body, rest)"
proof -
  have "decode_entry_header (encode_entry_header h) = h"
    using decode_encode_entry_header [OF assms(1-3), of "[]"] by simp
  then show ?thesis
    using assms(4) by (simp add: get_entry_def serialised_entry_header_size_def)
qed

lemma skip_entry_encoded:
  assumes "eh_version h < 256" "eh_flags h < 256" "eh_size h < 2 ^ 48" "length body = eh_size h"
  shows "skip_entry (encode_entry_header h @ body @ rest) = Inr rest"
proof -
  have "decode_entry_header (encode_entry_header h) = h"
    using decode_encode_entry_header [OF assms(1-3), of "[]"] by simp
  then show ?thesis
    using assms(4) by (simp add: skip_entry_def ser_skip_def serialised_entry_header_size_def)
qed

section \<open>Properties\<close>

text \<open>
  C18. Reading an entry and skipping it agree on where it ends: skipping succeeds exactly if reading
  does, both leave the same bytes, and the entry that was read, followed by what is left, is the
  input. A follower that skips the entries it has stays aligned with the entries it reads.
\<close>

theorem entry_skip_agrees:
  "(\<exists>e. get_entry data = Inr (e, rest) \<and> data = e @ rest \<and> serialised_entry_header_size \<le> length e) \<longleftrightarrow>
     skip_entry data = Inr rest"
  by (auto simp: get_entry_def skip_entry_def ser_skip_def Let_def serialised_entry_header_size_def
      add.commute [of _ 8] split: if_splits)

end
