(* ===== verification/Raft_Messages.thy ===== *)
theory Raft_Messages
  imports Tx_Status Serialized
begin

text \<open>
  The messages of the consensus protocol (\<^verbatim>\<open>src/consensus/aft/raft_types.h\<close>,
  \<^verbatim>\<open>src/consensus/consensus_types.h\<close>) and their wire format: the structs are packed to one
  byte, so a message is the concatenation of its fields, little-endian.
\<close>

type_synonym node_id = string

section \<open>Message types and messages\<close>

datatype raft_msg_type =
    raft_append_entries
  | raft_append_entries_response
  | raft_append_entries_signed_response
  | raft_request_vote
  | raft_request_vote_response
  | raft_propose_request_vote
  | raft_request_pre_vote
  | raft_request_pre_vote_response

fun msg_type_value :: "raft_msg_type \<Rightarrow> nat" where
  "msg_type_value raft_append_entries = 0"
| "msg_type_value raft_append_entries_response = 1"
| "msg_type_value raft_append_entries_signed_response = 2"
| "msg_type_value raft_request_vote = 3"
| "msg_type_value raft_request_vote_response = 4"
| "msg_type_value raft_propose_request_vote = 5"
| "msg_type_value raft_request_pre_vote = 6"
| "msg_type_value raft_request_pre_vote_response = 7"

record append_entries =
  ae_idx :: index
  ae_prev_idx :: index
  ae_term :: view
  ae_prev_term :: view
  ae_leader_commit_idx :: index
  ae_term_of_idx :: view
  ae_contains_new_view :: bool

text \<open>The byte of the response is not checked on receipt: a value other than the two
  enumerators is kept as it is.\<close>

datatype ae_response_type = OK | FAIL | OtherResponse nat

record append_entries_response =
  aer_term :: view
  aer_last_log_idx :: index
  aer_success :: ae_response_type

datatype election_type = PreVote | RegularVote

record request_vote =
  rv_term :: view
  rv_last_committable_idx :: index
  rv_term_of_last_committable_idx :: view

record request_vote_response =
  rvr_term :: view
  rvr_vote_granted :: bool

record propose_request_vote =
  prv_term :: view

text \<open>
  \<^verbatim>\<open>RequestPreVote\<close> and \<^verbatim>\<open>RequestPreVoteResponse\<close> have the fields of
  \<^verbatim>\<open>RequestVote\<close> and \<^verbatim>\<open>RequestVoteResponse\<close>; only the message type differs.
\<close>

datatype raft_msg =
    AppendEntries append_entries
  | AppendEntriesResponse append_entries_response
  | RequestVote request_vote
  | RequestVoteResponse request_vote_response
  | ProposeRequestVote propose_request_vote
  | RequestPreVote request_vote
  | RequestPreVoteResponse request_vote_response

fun msg_type :: "raft_msg \<Rightarrow> raft_msg_type" where
  "msg_type (AppendEntries _) = raft_append_entries"
| "msg_type (AppendEntriesResponse _) = raft_append_entries_response"
| "msg_type (RequestVote _) = raft_request_vote"
| "msg_type (RequestVoteResponse _) = raft_request_vote_response"
| "msg_type (ProposeRequestVote _) = raft_propose_request_vote"
| "msg_type (RequestPreVote _) = raft_request_pre_vote"
| "msg_type (RequestPreVoteResponse _) = raft_request_pre_vote_response"

section \<open>Wire format\<close>

definition u64 :: "nat \<Rightarrow> bytes" where
  "u64 n = le_bytes 8 n"

definition u8 :: "nat \<Rightarrow> bytes" where
  "u8 n = le_bytes 1 n"

fun ae_response_value :: "ae_response_type \<Rightarrow> nat" where
  "ae_response_value OK = 0"
| "ae_response_value FAIL = 1"
| "ae_response_value (OtherResponse n) = n"

definition ae_response_of :: "nat \<Rightarrow> ae_response_type" where
  "ae_response_of n = (if n = 0 then OK else if n = 1 then FAIL else OtherResponse n)"

fun encode_body :: "raft_msg \<Rightarrow> bytes" where
  "encode_body (AppendEntries r) =
     u64 (ae_idx r) @ u64 (ae_prev_idx r) @ u64 (ae_term r) @ u64 (ae_prev_term r) @
     u64 (ae_leader_commit_idx r) @ u64 (ae_term_of_idx r) @
     u8 (if ae_contains_new_view r then 1 else 0)"
| "encode_body (AppendEntriesResponse r) =
     u64 (aer_term r) @ u64 (aer_last_log_idx r) @ u8 (ae_response_value (aer_success r))"
| "encode_body (RequestVote r) =
     u64 (rv_term r) @ u64 (rv_last_committable_idx r) @ u64 (rv_term_of_last_committable_idx r)"
| "encode_body (RequestVoteResponse r) =
     u64 (rvr_term r) @ u8 (if rvr_vote_granted r then 1 else 0)"
| "encode_body (ProposeRequestVote r) = u64 (prv_term r)"
| "encode_body (RequestPreVote r) =
     u64 (rv_term r) @ u64 (rv_last_committable_idx r) @ u64 (rv_term_of_last_committable_idx r)"
| "encode_body (RequestPreVoteResponse r) =
     u64 (rvr_term r) @ u8 (if rvr_vote_granted r then 1 else 0)"

definition encode_msg :: "raft_msg \<Rightarrow> bytes" where
  "encode_msg m = u64 (msg_type_value (msg_type m)) @ encode_body m"

text \<open>
  \<^verbatim>\<open>serialized::overlay\<close> reads a whole struct at the cursor. \<open>field n bs\<close> is the
  64-bit field that starts at byte \<open>8 * n\<close>, the message type being field zero.
\<close>

definition field :: "nat \<Rightarrow> bytes \<Rightarrow> nat" where
  "field n bs = le_value (take 8 (drop (8 * n) bs))"

definition byte_at :: "nat \<Rightarrow> bytes \<Rightarrow> nat" where
  "byte_at n bs = le_value (take 1 (drop n bs))"

definition overlay :: "nat \<Rightarrow> (bytes \<Rightarrow> 'a) \<Rightarrow> bytes \<Rightarrow> ser_error + ('a \<times> bytes)" where
  "overlay sz dec data =
     (if length data < sz then Inl InsufficientSpace else Inr (dec (take sz data), drop sz data))"

definition overlay_append_entries :: "bytes \<Rightarrow> ser_error + (append_entries \<times> bytes)" where
  "overlay_append_entries =
     overlay 57 (\<lambda>bs. \<lparr>ae_idx = field 1 bs, ae_prev_idx = field 2 bs, ae_term = field 3 bs,
       ae_prev_term = field 4 bs, ae_leader_commit_idx = field 5 bs, ae_term_of_idx = field 6 bs,
       ae_contains_new_view = (byte_at 56 bs \<noteq> 0)\<rparr>)"

definition overlay_append_entries_response ::
    "bytes \<Rightarrow> ser_error + (append_entries_response \<times> bytes)" where
  "overlay_append_entries_response =
     overlay 25 (\<lambda>bs. \<lparr>aer_term = field 1 bs, aer_last_log_idx = field 2 bs,
       aer_success = ae_response_of (byte_at 24 bs)\<rparr>)"

definition overlay_request_vote :: "bytes \<Rightarrow> ser_error + (request_vote \<times> bytes)" where
  "overlay_request_vote =
     overlay 32 (\<lambda>bs. \<lparr>rv_term = field 1 bs, rv_last_committable_idx = field 2 bs,
       rv_term_of_last_committable_idx = field 3 bs\<rparr>)"

definition overlay_request_vote_response ::
    "bytes \<Rightarrow> ser_error + (request_vote_response \<times> bytes)" where
  "overlay_request_vote_response =
     overlay 17 (\<lambda>bs. \<lparr>rvr_term = field 1 bs, rvr_vote_granted = (byte_at 16 bs \<noteq> 0)\<rparr>)"

definition overlay_propose_request_vote :: "bytes \<Rightarrow> ser_error + (propose_request_vote \<times> bytes)" where
  "overlay_propose_request_vote = overlay 16 (\<lambda>bs. \<lparr>prv_term = field 1 bs\<rparr>)"

section \<open>Round trip\<close>

lemma length_u64 [simp]: "length (u64 n) = 8"
  by (simp add: u64_def)

lemma length_u8 [simp]: "length (u8 n) = 1"
  by (simp add: u8_def)

lemma le_value_u64: "n < two64 \<Longrightarrow> le_value (u64 n) = n"
  by (simp only: u64_def le_value_le_bytes two64_bytes mod_less)

lemma le_value_u8: "n < 256 \<Longrightarrow> le_value (u8 n) = n"
  by (simp only: u8_def le_value_le_bytes power_one_right mod_less)

lemma field_u64:
  assumes "length pre = 8 * n" "v < two64"
  shows "field n (pre @ u64 v @ rest) = v"
  using assms by (simp add: field_def le_value_u64)

lemma byte_at_u8:
  assumes "length pre = n" "v < 256"
  shows "byte_at n (pre @ u8 v @ rest) = v"
  using assms le_value_u8 [of v] by (simp add: byte_at_def)

definition msg_in_range :: "raft_msg \<Rightarrow> bool" where
  "msg_in_range m = (case m of
       AppendEntries r \<Rightarrow>
         ae_idx r < two64 \<and> ae_prev_idx r < two64 \<and> ae_term r < two64 \<and> ae_prev_term r < two64 \<and>
         ae_leader_commit_idx r < two64 \<and> ae_term_of_idx r < two64
     | AppendEntriesResponse r \<Rightarrow> aer_term r < two64 \<and> aer_last_log_idx r < two64 \<and>
         (case aer_success r of OtherResponse n \<Rightarrow> 2 \<le> n \<and> n < 256 | _ \<Rightarrow> True)
     | RequestVote r \<Rightarrow> rv_term r < two64 \<and> rv_last_committable_idx r < two64 \<and>
         rv_term_of_last_committable_idx r < two64
     | RequestVoteResponse r \<Rightarrow> rvr_term r < two64
     | ProposeRequestVote r \<Rightarrow> prv_term r < two64
     | RequestPreVote r \<Rightarrow> rv_term r < two64 \<and> rv_last_committable_idx r < two64 \<and>
         rv_term_of_last_committable_idx r < two64
     | RequestPreVoteResponse r \<Rightarrow> rvr_term r < two64)"

lemma field_prefix: "8 * n + 8 \<le> length xs \<Longrightarrow> field n (xs @ ys) = field n xs"
  by (simp add: field_def)

lemma field_0_u64: "v < two64 \<Longrightarrow> field 0 (u64 v @ rest) = v"
  using field_u64 [of "[]" 0 v rest] by simp

lemma field_0_u64_last: "v < two64 \<Longrightarrow> field 0 (u64 v) = v"
  using field_0_u64 [of v "[]"] by simp

lemma field_skip: "0 < n \<Longrightarrow> field n (u64 v @ rest) = field (n - 1) rest"
  by (simp add: field_def right_diff_distrib')

lemma byte_at_skip: "8 \<le> n \<Longrightarrow> byte_at n (u64 v @ rest) = byte_at (n - 8) rest"
  by (simp add: byte_at_def)

lemma byte_at_0_u8: "v < 256 \<Longrightarrow> byte_at 0 (u8 v) = v"
  using byte_at_u8 [of "[]" 0 v "[]"] by simp

lemmas wire_simps = field_0_u64 field_0_u64_last field_skip byte_at_skip byte_at_0_u8 overlay_def encode_msg_def

lemma overlay_encoded:
  assumes "length bs = sz" "dec bs = m"
  shows "overlay sz dec (bs @ payload) = Inr (m, payload)"
  using assms by (simp add: overlay_def)

lemma ae_response_of_encoded:
  "(case a of OtherResponse n \<Rightarrow> 2 \<le> n \<and> n < 256 | _ \<Rightarrow> True) \<Longrightarrow>
     ae_response_value a < 256 \<and> ae_response_of (ae_response_value a) = a"
  by (cases a) (auto simp: ae_response_of_def)

text \<open>The struct at the start of the bytes is the message, and the payload follows it.\<close>

definition decodes_to :: "raft_msg \<Rightarrow> bytes \<Rightarrow> bytes \<Rightarrow> bool" where
  "decodes_to m bs payload = (case m of
       AppendEntries r \<Rightarrow> overlay_append_entries bs = Inr (r, payload)
     | AppendEntriesResponse r \<Rightarrow> overlay_append_entries_response bs = Inr (r, payload)
     | RequestVote r \<Rightarrow> overlay_request_vote bs = Inr (r, payload)
     | RequestVoteResponse r \<Rightarrow> overlay_request_vote_response bs = Inr (r, payload)
     | ProposeRequestVote r \<Rightarrow> overlay_propose_request_vote bs = Inr (r, payload)
     | RequestPreVote r \<Rightarrow> overlay_request_vote bs = Inr (r, payload)
     | RequestPreVoteResponse r \<Rightarrow> overlay_request_vote_response bs = Inr (r, payload))"

section \<open>Properties\<close>

text \<open>
  C17. A consensus message survives the wire: for every message whose numbers fit their fields, the
  receiver finds the type that the sender wrote, reads back the same message, and is left with
  exactly the payload that follows it.
\<close>

theorem msg_round_trip:
  assumes "msg_in_range m"
  shows "ser_peek 8 (encode_msg m @ payload) = Inr (msg_type_value (msg_type m)) \<and>
     decodes_to m (encode_msg m @ payload) payload"
proof
  have "msg_type_value (msg_type m) < two64" by (cases m) (simp_all add: two64_def)
  then show "ser_peek 8 (encode_msg m @ payload) = Inr (msg_type_value (msg_type m))"
    by (simp add: ser_peek_def encode_msg_def le_value_u64)
  show "decodes_to m (encode_msg m @ payload) payload"
    using assms
    by (cases m) (auto simp: decodes_to_def msg_in_range_def wire_simps overlay_append_entries_def
        overlay_append_entries_response_def overlay_request_vote_def overlay_request_vote_response_def
        overlay_propose_request_vote_def ae_response_of_encoded)
qed

theorem msg_round_trip_witness:
  "decodes_to (RequestVote \<lparr>rv_term = 3, rv_last_committable_idx = 300, rv_term_of_last_committable_idx = 2\<rparr>)
     (encode_msg (RequestVote \<lparr>rv_term = 3, rv_last_committable_idx = 300,
        rv_term_of_last_committable_idx = 2\<rparr>) @ [1, 2]) [1, 2]"
proof -
  have "msg_in_range (RequestVote \<lparr>rv_term = 3, rv_last_committable_idx = 300,
      rv_term_of_last_committable_idx = 2\<rparr>)" by code_simp
  then show ?thesis using msg_round_trip by blast
qed

end
