(* ===== verification/Raft_State.thy ===== *)
theory Raft_State
  imports Commit_Callbacks Raft_Messages
begin

text \<open>
  The state of one consensus node: \<^verbatim>\<open>aft::State\<close> of \<^verbatim>\<open>src/consensus/aft/impl/state.h\<close>,
  the members of \<^verbatim>\<open>aft::Aft\<close> of \<^verbatim>\<open>src/consensus/aft/raft.h\<close>, and the configuration
  types of \<^verbatim>\<open>src/kv/kv_types.h\<close>. The objects the node holds but does not implement (the store,
  the ledger proxy, the channels, the node client) appear as the list of the calls made on them, in
  order; what they answer is the environment record.
\<close>

section \<open>Configurations and roles\<close>

record node_info =
  hostname :: string
  port :: string

type_synonym nodes = "(node_id \<times> node_info) list"

record configuration =
  cfg_idx :: index
  cfg_nodes :: nodes
  cfg_rid :: nat

datatype leadership_state = NoLeadership | Leader | Follower | PreVoteCandidate | Candidate

datatype membership_state = Active | Retired

datatype retirement_phase = Ordered | Signed | Completed | RetiredCommitted

fun phase_value :: "retirement_phase \<Rightarrow> nat" where
  "phase_value Ordered = 1"
| "phase_value Signed = 2"
| "phase_value Completed = 3"
| "phase_value RetiredCommitted = 4"

text \<open>The phases are ordered by the values of the enumeration.\<close>

instantiation retirement_phase :: linorder
begin

definition less_eq_retirement_phase :: "retirement_phase \<Rightarrow> retirement_phase \<Rightarrow> bool" where
  "less_eq_retirement_phase a b \<longleftrightarrow> phase_value a \<le> phase_value b"

definition less_retirement_phase :: "retirement_phase \<Rightarrow> retirement_phase \<Rightarrow> bool" where
  "less_retirement_phase a b \<longleftrightarrow> phase_value a < phase_value b"

instance
proof
  fix a b :: retirement_phase
  assume "a \<le> b" "b \<le> a"
  then show "a = b" by (cases a; cases b) (simp_all add: less_eq_retirement_phase_def)
qed (auto simp: less_eq_retirement_phase_def less_retirement_phase_def)

end

section \<open>Hooks and execution wrappers\<close>

text \<open>
  A hook that a transaction runs on the consensus object is a \<^verbatim>\<open>ConfigurationChangeHook\<close>
  (\<^verbatim>\<open>src/node/hooks.h\<close>): the nodes that the transaction trusts (with their address) or retires.
\<close>

record hook =
  hook_version :: index
  cfg_delta :: "(node_id \<times> node_info option) list"

datatype apply_result =
    PASS
  | PASS_SIGNATURE
  | PASS_BACKUP_SIGNATURE
  | PASS_BACKUP_SIGNATURE_SEND_ACK
  | PASS_NONCES
  | PASS_NEW_VIEW
  | PASS_ENCRYPTED_PAST_LEDGER_SECRET
  | PASS_APPLY
  | APPLY_FAIL

text \<open>\<open>ew_apply = None\<close> is an exception out of \<^verbatim>\<open>apply\<close>.\<close>

record exec_wrapper =
  ew_apply :: "apply_result option"
  ew_hooks :: "hook list"
  ew_term :: view
  ew_index :: index
  ew_entry :: bytes

section \<open>The node\<close>

record node_state =
  ns_info :: node_info
  sent_idx :: index
  match_idx :: index
  last_ack_timeout :: int

record votes =
  voters :: "node_id list"
  quorum :: nat

datatype ext_call =
    SendAuthenticated node_id raft_msg
  | AssociateNodeAddress node_id string string
  | StoreCompact index
  | StoreRollback tx_id view
  | StoreInitialiseTerm view
  | LedgerInit index index
  | LedgerPutEntry bytes bool view index
  | LedgerTruncate index
  | LedgerCommit index
  | CleanupRetiredNodes

record raft_state =
  node_id :: node_id
  current_view :: view
  last_idx :: index
  commit_idx :: index
  view_history :: view_history
  committable_indices :: "index list"
  leadership_state :: leadership_state
  membership_state :: membership_state
  retirement_phase :: "retirement_phase option"
  retirement_idx :: "index option"
  retirement_committable_idx :: "index option"
  retired_committed_idx :: "index option"
  pre_vote_enabled :: bool

record aft = raft_state +
  voted_for :: "node_id option"
  leader_id :: "node_id option"
  votes_for_me :: "(index \<times> votes) list"
  timeout_elapsed :: int
  is_new_follower :: bool
  should_sign :: bool
  request_timeout :: int
  election_timeout :: int
  max_uncommitted_tx_count :: nat
  ticking :: bool
  configurations :: "configuration list"
  all_other_nodes :: "(node_id \<times> node_state) list"
  commit_callbacks :: "nat ccs option"
  entry_size_not_limited :: nat
  entry_count :: nat
  entries_batch_size :: index
  batch_window_sum :: int
  public_only :: bool
  ext_calls :: "ext_call list"
  rand_draws :: nat

text \<open>
  The constructors of \<^verbatim>\<open>aft::State\<close> and \<^verbatim>\<open>aft::Aft\<close>: identity, settings and whether
  a commit callback subsystem is attached.
\<close>

definition new_aft :: "node_id \<Rightarrow> bool \<Rightarrow> int \<Rightarrow> int \<Rightarrow> nat \<Rightarrow> nat ccs option \<Rightarrow> bool \<Rightarrow> aft" where
  "new_aft n pre_vote message_timeout timeout max_uncommitted subsystem only_public =
     \<lparr>node_id = n, current_view = 0, last_idx = 0, commit_idx = 0, view_history = [],
      committable_indices = [], leadership_state = NoLeadership, membership_state = Active,
      retirement_phase = None, retirement_idx = None, retirement_committable_idx = None,
      retired_committed_idx = None, pre_vote_enabled = pre_vote,
      voted_for = None, leader_id = None, votes_for_me = [], timeout_elapsed = 0,
      is_new_follower = False, should_sign = False, request_timeout = message_timeout,
      election_timeout = timeout, max_uncommitted_tx_count = max_uncommitted, ticking = False,
      configurations = [], all_other_nodes = [],
      commit_callbacks = map_option set_consensus subsystem, entry_size_not_limited = 0,
      entry_count = 0, entries_batch_size = 20, batch_window_sum = 0, public_only = only_public,
      ext_calls = [], rand_draws = 0\<rparr>"

text \<open>
  What the other objects answer during one call of the node: whether a send is accepted, whether a
  channel exists, the draws of the random engine, the deserialised form of an entry, the
  \<^verbatim>\<open>set_retired_committed\<close> calls that compacting the store makes, and the payload that the
  channel leaves after it has verified a received header.
\<close>

record raft_env =
  send_ok :: "node_id \<Rightarrow> raft_msg \<Rightarrow> bool"
  have_channel :: "node_id \<Rightarrow> bool"
  rand :: "nat \<Rightarrow> int"
  deserialize :: "bytes \<Rightarrow> bool \<Rightarrow> tx_id \<Rightarrow> exec_wrapper option"
  compact_hooks :: "index \<Rightarrow> (index \<times> node_id list) list"
  verify_header :: "node_id \<Rightarrow> bytes \<Rightarrow> bytes \<Rightarrow> bytes option"

section \<open>Results\<close>

text \<open>
  A call returns, throws with the state as it is at that point (nothing is undone), or does not
  return.
\<close>

datatype raft_error =
    LogicError string
  | OutOfRange
  | CallbackError ccs_error
  | ApplyError
  | SerError ser_error
  | DroppedMessage node_id

datatype aft_res = Ok aft | Throw raft_error aft | Diverge

fun bind_res :: "aft_res \<Rightarrow> (aft \<Rightarrow> aft_res) \<Rightarrow> aft_res" where
  "bind_res (Ok s) f = f s"
| "bind_res (Throw e s) f = Throw e s"
| "bind_res Diverge f = Diverge"

fun for_each :: "('a \<Rightarrow> aft \<Rightarrow> aft_res) \<Rightarrow> 'a list \<Rightarrow> aft \<Rightarrow> aft_res" where
  "for_each f [] s = Ok s"
| "for_each f (x # xs) s = bind_res (f x s) (for_each f xs)"

text \<open>\<open>res_all P r\<close>: the state in which the call leaves the node, if it returns or throws,
  satisfies \<open>P\<close>.\<close>

fun res_all :: "(aft \<Rightarrow> bool) \<Rightarrow> aft_res \<Rightarrow> bool" where
  "res_all P (Ok s) = P s"
| "res_all P (Throw e s) = P s"
| "res_all P Diverge = True"

fun returns :: "aft_res \<Rightarrow> bool" where
  "returns Diverge = False"
| "returns _ = True"

lemma bind_res_Ok_iff:
  "bind_res r f = Ok s' \<longleftrightarrow> (\<exists>s. r = Ok s \<and> f s = Ok s')"
  by (cases r) auto

lemma res_all_bind:
  assumes "res_all P r" "\<And>s. P s \<Longrightarrow> res_all P (f s)"
  shows "res_all P (bind_res r f)"
  using assms by (cases r) auto

lemma res_all_mono: "res_all P r \<Longrightarrow> (\<And>s. P s \<Longrightarrow> Q s) \<Longrightarrow> res_all Q r"
  by (cases r) auto

lemma res_all_conj: "res_all (\<lambda>s. P s \<and> Q s) r \<longleftrightarrow> res_all P r \<and> res_all Q r"
  by (cases r) auto

lemma res_all_bind2:
  assumes "res_all P r" "\<And>s. P s \<Longrightarrow> r = Ok s \<Longrightarrow> res_all Q (f s)" "\<And>s. P s \<Longrightarrow> Q s"
  shows "res_all Q (bind_res r f)"
  using assms by (cases r) auto

lemma res_all_for_each:
  assumes "P s" "\<And>x s. x \<in> set xs \<Longrightarrow> P s \<Longrightarrow> res_all P (f x s)"
  shows "res_all P (for_each f xs s)"
  using assms by (induction xs arbitrary: s) (auto intro: res_all_bind)

lemma returns_bind:
  assumes "returns r" "\<And>s. r = Ok s \<Longrightarrow> returns (f s)"
  shows "returns (bind_res r f)"
  using assms by (cases r) auto

lemma returns_iff: "returns r \<longleftrightarrow> r \<noteq> Diverge"
  by (cases r) auto

end
