(* ===== verification/Raft_Core.thy ===== *)
theory Raft_Core
  imports Raft_State "HOL-Library.Signed_Division"
begin

text \<open>
  \<^verbatim>\<open>aft::Aft\<close> of \<^verbatim>\<open>src/consensus/aft/raft.h\<close>, first part: what a node reports about
  itself, sending entries, configurations and retirement, committing and rolling back. One
  definition per method, with the calls that the method makes in their order. Logging and tracing
  are left out; \<^verbatim>\<open>CCF_ASSERT\<close> and \<^verbatim>\<open>assert\<close> are the no-ops of a release build.
\<close>

section \<open>What a node reports\<close>

definition is_primary :: "aft \<Rightarrow> bool" where
  "is_primary s \<longleftrightarrow> leadership_state s = Leader"

definition is_candidate :: "aft \<Rightarrow> bool" where
  "is_candidate s \<longleftrightarrow> leadership_state s = Candidate"

definition is_backup :: "aft \<Rightarrow> bool" where
  "is_backup s \<longleftrightarrow> leadership_state s = Follower"

definition is_retired :: "aft \<Rightarrow> bool" where
  "is_retired s \<longleftrightarrow> membership_state s = Retired"

definition is_retired_committed :: "aft \<Rightarrow> bool" where
  "is_retired_committed s \<longleftrightarrow>
     membership_state s = Retired \<and> retirement_phase s = Some RetiredCommitted"

definition is_retired_completed :: "aft \<Rightarrow> bool" where
  "is_retired_completed s \<longleftrightarrow>
     membership_state s = Retired \<and> retirement_phase s = Some Completed"

definition can_replicate :: "aft \<Rightarrow> bool" where
  "can_replicate s \<longleftrightarrow> leadership_state s = Leader \<and> \<not> is_retired_committed s"

definition can_sign :: "aft \<Rightarrow> bool" where
  "can_sign s \<longleftrightarrow> leadership_state s = Leader \<and> \<not> is_retired_committed s"

definition is_at_max_capacity :: "aft \<Rightarrow> bool" where
  "is_at_max_capacity s \<longleftrightarrow>
     (if max_uncommitted_tx_count s = 0 then False
      else leadership_state s = Leader \<and>
        sub64 (last_idx s) (commit_idx s) \<ge> max_uncommitted_tx_count s)"

datatype signature_disposition = CANT_REPLICATE | CAN_SIGN | SHOULD_SIGN

definition get_signature_disposition :: "aft \<Rightarrow> signature_disposition" where
  "get_signature_disposition s =
     (if can_sign s then (if should_sign s then SHOULD_SIGN else CAN_SIGN) else CANT_REPLICATE)"

definition last_committable_index :: "aft \<Rightarrow> index" where
  "last_committable_index s =
     (if committable_indices s = [] then commit_idx s else last (committable_indices s))"

text \<open>
  \<^verbatim>\<open>std::upper_bound\<close> over the reversed queue with the comparison \<^verbatim>\<open>>=\<close>: the first
  element from the back that is not greater than the given index.
\<close>

definition find_highest_possible_committable_index :: "aft \<Rightarrow> index \<Rightarrow> index option" where
  "find_highest_possible_committable_index s idx =
     find (\<lambda>e. idx \<ge> e) (rev (committable_indices s))"

definition compact_committable_indices :: "index \<Rightarrow> aft \<Rightarrow> aft" where
  "compact_committable_indices idx s =
     s\<lparr>committable_indices := dropWhile (\<lambda>i. i \<le> idx) (committable_indices s)\<rparr>"

definition get_term_internal :: "aft \<Rightarrow> index \<Rightarrow> view" where
  "get_term_internal s idx =
     (if idx > last_idx s then VIEW_UNKNOWN else view_at (view_history s) idx)"

definition get_committed_txid :: "aft \<Rightarrow> tx_id" where
  "get_committed_txid s = \<lparr>tx_view = get_term_internal s (commit_idx s), tx_seqno = commit_idx s\<rparr>"

definition tx_status_of :: "aft \<Rightarrow> view \<Rightarrow> index \<Rightarrow> status_error + tx_status" where
  "tx_status_of s target_view target_seqno =
     (let local_view = get_term_internal s target_seqno; c = get_committed_txid s
      in evaluate_tx_status target_view target_seqno local_view (tx_view c) (tx_seqno c))"

definition node_keys :: "nodes \<Rightarrow> node_id list" where
  "node_keys ns = map fst ns"

definition other_nodes_in_active_configs :: "aft \<Rightarrow> node_id list" where
  "other_nodes_in_active_configs s =
     sort (remdups (filter (\<lambda>n. n \<noteq> node_id s)
       (concat (map (\<lambda>c. node_keys (cfg_nodes c)) (configurations s)))))"

definition get_latest_configuration :: "aft \<Rightarrow> nodes" where
  "get_latest_configuration s =
     (if configurations s = [] then [] else cfg_nodes (last (configurations s)))"

definition is_self_in_latest_config :: "aft \<Rightarrow> bool" where
  "is_self_in_latest_config s \<longleftrightarrow>
     (if configurations s = [] then False
      else node_id s \<in> set (node_keys (cfg_nodes (last (configurations s)))))"

definition get_quorum :: "nat \<Rightarrow> nat" where
  "get_quorum n = n div 2 + 1"

text \<open>
  The loop follows the views backwards from the probe. It does not end on a history that claims
  index zero for a view, so it is a partial function.
\<close>

partial_function (option) match_loop ::
    "view_history \<Rightarrow> view \<Rightarrow> index \<Rightarrow> view \<Rightarrow> index option" where
  "match_loop vh v probe_index term_of_probe =
     (if term_of_probe > v then
        let p = start_of_view vh term_of_probe;
            p' = (if p > 0 then p - 1 else p)
        in match_loop vh v p' (view_at vh p')
      else Some probe_index)"

declare match_loop.simps [code]

definition find_highest_possible_match :: "aft \<Rightarrow> tx_id \<Rightarrow> index option" where
  "find_highest_possible_match s tx =
     (let probe_index = min (tx_seqno tx) (last_idx s)
      in match_loop (view_history s) (tx_view tx) probe_index
           (view_at (view_history s) probe_index))"

section \<open>Batch size\<close>

definition append_entries_size_limit :: nat where
  "append_entries_size_limit = 20000"

definition batch_window_size :: int where
  "batch_window_size = 100"

definition to_int32 :: "int \<Rightarrow> int" where
  "to_int32 z = signed_take_bit 31 z"

definition update_batch_size :: "aft \<Rightarrow> aft" where
  "update_batch_size s =
     (let avg_entry_size = (if entry_count s = 0 then append_entries_size_limit
            else entry_size_not_limited s div entry_count s);
          batch_size = (if avg_entry_size = 0 then append_entries_size_limit div 2
            else append_entries_size_limit div avg_entry_size);
          batch_avg = batch_window_sum s sdiv batch_window_size;
          sum = to_int32 (batch_window_sum s + (int batch_size - batch_avg))
      in s\<lparr>batch_window_sum := sum,
           entries_batch_size := nat (max (sum sdiv batch_window_size) 1)\<rparr>)"

section \<open>Sending entries\<close>

definition log_call :: "ext_call \<Rightarrow> aft \<Rightarrow> aft" where
  "log_call c s = s\<lparr>ext_calls := ext_calls s @ [c]\<rparr>"

definition set_node :: "node_id \<Rightarrow> node_state \<Rightarrow> aft \<Rightarrow> aft" where
  "set_node n ns s = s\<lparr>all_other_nodes := AList.update n ns (all_other_nodes s)\<rparr>"

definition calculate_end_index :: "aft \<Rightarrow> index \<Rightarrow> index" where
  "calculate_end_index s start =
     (let term_of_ae = view_at (view_history s) start;
          index_at_end_of_term = end_of_view (view_history s) term_of_ae;
          max_idx = (if index_at_end_of_term \<noteq> NoVersion then index_at_end_of_term else last_idx s)
      in min (sub64 (add64 start (entries_batch_size s)) 1) max_idx)"

definition make_append_entries :: "aft \<Rightarrow> index \<Rightarrow> index \<Rightarrow> append_entries" where
  "make_append_entries s start end =
     \<lparr>ae_idx = end, ae_prev_idx = sub64 start 1, ae_term = current_view s,
      ae_prev_term = get_term_internal s (sub64 start 1), ae_leader_commit_idx = commit_idx s,
      ae_term_of_idx = get_term_internal s end, ae_contains_new_view = False\<rparr>"

definition send_append_entries_range ::
    "raft_env \<Rightarrow> node_id \<Rightarrow> index \<Rightarrow> index \<Rightarrow> aft \<Rightarrow> aft_res" where
  "send_append_entries_range env to_node start end s =
     (if is_retired_committed s \<and> start \<ge> end then Ok s
      else
        let ae = AppendEntries (make_append_entries s start end)
        in case map_of (all_other_nodes s) to_node of
             None \<Rightarrow> Throw OutOfRange s
           | Some node \<Rightarrow>
               let s1 = log_call (SendAuthenticated to_node ae) s
               in if send_ok env to_node ae then Ok (set_node to_node (node\<lparr>sent_idx := end\<rparr>) s1)
                  else Ok s1)"

text \<open>The \<^verbatim>\<open>do ... while (end_idx != state->last_idx)\<close> loop.\<close>

partial_function (option) send_loop ::
    "raft_env \<Rightarrow> node_id \<Rightarrow> index \<Rightarrow> aft \<Rightarrow> aft_res option" where
  "send_loop env to_node start s =
     (let end = calculate_end_index s start
      in case send_append_entries_range env to_node start end s of
           Ok s1 \<Rightarrow>
             if end = last_idx s1 then Some (Ok s1)
             else send_loop env to_node (min (add64 end 1) (last_idx s1)) s1
         | Throw e s1 \<Rightarrow> Some (Throw e s1)
         | Diverge \<Rightarrow> None)"

declare send_loop.simps [code]

definition send_append_entries :: "raft_env \<Rightarrow> node_id \<Rightarrow> index \<Rightarrow> aft \<Rightarrow> aft_res" where
  "send_append_entries env to_node start s =
     (case send_loop env to_node start s of None \<Rightarrow> Diverge | Some r \<Rightarrow> r)"

text \<open>\<^verbatim>\<open>send_append_entries(node, node.sent_idx + 1)\<close> for every known node.\<close>

definition send_next_entries :: "raft_env \<Rightarrow> node_id \<Rightarrow> aft \<Rightarrow> aft_res" where
  "send_next_entries env n s =
     (case map_of (all_other_nodes s) n of
        None \<Rightarrow> Throw OutOfRange s
      | Some ns \<Rightarrow> send_append_entries env n (add64 (sent_idx ns) 1) s)"

section \<open>Timers\<close>

definition start_ticking :: "aft \<Rightarrow> aft" where
  "start_ticking s = s\<lparr>ticking := True, timeout_elapsed := 0\<rparr>"

definition start_ticking_if_necessary :: "aft \<Rightarrow> aft" where
  "start_ticking_if_necessary s =
     (if \<not> ticking s \<and> is_self_in_latest_config s then start_ticking s else s)"

definition reset_last_ack_timeouts :: "aft \<Rightarrow> aft" where
  "reset_last_ack_timeouts s =
     s\<lparr>all_other_nodes :=
         map (\<lambda>(n, ns). (n, ns\<lparr>last_ack_timeout := 0\<rparr>)) (all_other_nodes s)\<rparr>"

definition restart_election_timeout :: "raft_env \<Rightarrow> aft \<Rightarrow> aft" where
  "restart_election_timeout env s =
     s\<lparr>timeout_elapsed := rand env (rand_draws s), rand_draws := Suc (rand_draws s)\<rparr>"

section \<open>Node states and configurations\<close>

definition add_node_state :: "raft_env \<Rightarrow> node_id \<times> node_info \<Rightarrow> aft \<Rightarrow> aft_res" where
  "add_node_state env ni s =
     (let n = fst ni; info = snd ni
      in if n = node_id s then Ok s
         else if map_of (all_other_nodes s) n \<noteq> None then Ok s
         else
           let s1 = (if have_channel env n then s
                     else log_call (AssociateNodeAddress n (hostname info) (port info)) s);
               index = add64 (last_idx s) 1;
               s2 = s1\<lparr>all_other_nodes := all_other_nodes s1 @
                      [(n, \<lparr>ns_info = info, sent_idx = index, match_idx = 0,
                            last_ack_timeout = 0\<rparr>)]\<rparr>
           in if leadership_state s2 = Leader then send_append_entries env n index s2
              else Ok s2)"

definition active_nodes :: "aft \<Rightarrow> nodes" where
  "active_nodes s =
     fold (\<lambda>(n, i) m. omap_emplace n i m) (concat (map cfg_nodes (configurations s))) []"

definition create_and_remove_node_state :: "raft_env \<Rightarrow> aft \<Rightarrow> aft_res" where
  "create_and_remove_node_state env s = for_each (add_node_state env) (active_nodes s) s"

section \<open>Retirement\<close>

definition latest_reconf_id :: "aft \<Rightarrow> node_id \<Rightarrow> nat" where
  "latest_reconf_id s n =
     (case find (\<lambda>c. n \<in> set (node_keys (cfg_nodes c))) (rev (configurations s)) of
        None \<Rightarrow> 0
      | Some c \<Rightarrow> cfg_idx c)"

fun pick_successor ::
    "aft \<Rightarrow> (node_id \<times> node_state) list \<Rightarrow> node_id option \<Rightarrow> index \<Rightarrow> nat \<Rightarrow> node_id option" where
  "pick_successor s [] successor max_match reconf = successor"
| "pick_successor s ((n, ns) # rest) successor max_match reconf =
     (if match_idx ns \<ge> max_match then
        let latest = latest_reconf_id s n
        in if \<not> (match_idx ns = max_match \<and> latest < reconf)
           then pick_successor s rest (Some n) (match_idx ns) latest
           else pick_successor s rest successor max_match reconf
      else pick_successor s rest successor max_match reconf)"

definition send_propose_request_vote :: "aft \<Rightarrow> aft" where
  "send_propose_request_vote s =
     (case pick_successor s (all_other_nodes s) None 0 0 of
        None \<Rightarrow> s
      | Some n \<Rightarrow>
          log_call (SendAuthenticated n (ProposeRequestVote \<lparr>prv_term = current_view s\<rparr>)) s)"

definition become_retired :: "index \<Rightarrow> retirement_phase \<Rightarrow> aft \<Rightarrow> aft" where
  "become_retired idx phase s =
     (let s1 = (case phase of
            Ordered \<Rightarrow> s\<lparr>retirement_idx := Some idx\<rparr>
          | Signed \<Rightarrow> s\<lparr>retirement_committable_idx := Some idx\<rparr>
          | RetiredCommitted \<Rightarrow>
              (if leadership_state s = Leader then send_propose_request_vote s else s)
                \<lparr>leader_id := None, leadership_state := NoLeadership\<rparr>
          | Completed \<Rightarrow> s)
      in s1\<lparr>membership_state := Retired, retirement_phase := Some phase\<rparr>)"

fun set_retired_committed :: "index \<Rightarrow> node_id list \<Rightarrow> aft \<Rightarrow> aft" where
  "set_retired_committed seqno [] s = s"
| "set_retired_committed seqno (n # ns) s =
     set_retired_committed seqno ns
       (if node_id s = n
        then become_retired seqno RetiredCommitted (s\<lparr>retired_committed_idx := Some seqno\<rparr>)
        else s\<lparr>all_other_nodes := AList.delete n (all_other_nodes s)\<rparr>)"

definition add_configuration :: "raft_env \<Rightarrow> index \<Rightarrow> nodes \<Rightarrow> aft \<Rightarrow> aft_res" where
  "add_configuration env idx conf s =
     (let s1 = (if configurations s \<noteq> [] \<and>
                   node_id s \<in> set (node_keys (cfg_nodes (last (configurations s)))) \<and>
                   node_id s \<notin> set (node_keys conf)
                then become_retired idx Ordered s else s)
      in if configurations s1 = [] \<or> conf \<noteq> cfg_nodes (last (configurations s1))
         then create_and_remove_node_state env
                (s1\<lparr>configurations := configurations s1 @
                   [\<lparr>cfg_idx = idx, cfg_nodes = conf, cfg_rid = idx\<rparr>]\<rparr>)
         else Ok s1)"

text \<open>\<^verbatim>\<open>ConfigurationChangeHook::call\<close> of \<^verbatim>\<open>src/node/hooks.h\<close>.\<close>

fun apply_delta :: "(node_id \<times> node_info option) list \<Rightarrow> nodes \<Rightarrow> nodes" where
  "apply_delta [] conf = conf"
| "apply_delta ((n, Some ni) # d) conf = apply_delta d (omap_emplace n ni conf)"
| "apply_delta ((n, None) # d) conf = apply_delta d (AList.delete n conf)"

definition call_hook :: "raft_env \<Rightarrow> hook \<Rightarrow> aft \<Rightarrow> aft_res" where
  "call_hook env h s =
     (let configuration = apply_delta (cfg_delta h) (get_latest_configuration s)
      in if cfg_delta h \<noteq> [] then add_configuration env (hook_version h) configuration s else Ok s)"

section \<open>Rolling back\<close>

definition rollback_retirement :: "index \<Rightarrow> aft \<Rightarrow> aft" where
  "rollback_retirement idx s =
     (let s1 = (if membership_state s = Retired \<and> retirement_phase s = Some Signed then
                  (case retirement_committable_idx s of
                     Some r \<Rightarrow> if r > idx
                       then s\<lparr>retirement_committable_idx := None, retirement_phase := Some Ordered\<rparr>
                       else s
                   | None \<Rightarrow> s)
                else s)
      in if membership_state s1 = Retired \<and> retirement_phase s1 = Some Ordered then
           (case retirement_idx s1 of
              Some r \<Rightarrow> if r > idx
                then s1\<lparr>retirement_idx := None, retirement_phase := None,
                        membership_state := Active\<rparr>
                else s1
            | None \<Rightarrow> s1)
         else s1)"

definition rollback :: "raft_env \<Rightarrow> index \<Rightarrow> aft \<Rightarrow> aft_res" where
  "rollback env idx s =
     (if idx < commit_idx s then Ok s
      else
        let s1 = log_call (StoreRollback \<lparr>tx_view = get_term_internal s idx, tx_seqno = idx\<rparr>
                    (current_view s)) s;
            s2 = log_call (LedgerTruncate idx) s1;
            s3 = s2\<lparr>last_idx := idx, view_history := vh_rollback (view_history s2) idx,
                    committable_indices :=
                      pop_back_while (\<lambda>i. i > idx) (committable_indices s2)\<rparr>;
            s4 = rollback_retirement idx s3;
            configs = pop_back_while (\<lambda>c. cfg_idx c > idx) (configurations s4);
            changed = (length configs < length (configurations s4));
            s5 = s4\<lparr>configurations := configs\<rparr>
        in if changed then create_and_remove_node_state env s5 else Ok s5)"

section \<open>Committing\<close>

fun discard_committed_configs :: "index \<Rightarrow> configuration list \<Rightarrow> configuration list" where
  "discard_committed_configs idx (conf # nxt # rest) =
     (if idx < cfg_idx nxt then conf # nxt # rest
      else discard_committed_configs idx (nxt # rest))"
| "discard_committed_configs idx confs = confs"

definition store_compact :: "raft_env \<Rightarrow> index \<Rightarrow> aft \<Rightarrow> aft" where
  "store_compact env idx s =
     fold (\<lambda>(seqno, ns). set_retired_committed seqno ns) (compact_hooks env idx)
       (log_call (StoreCompact idx) s)"

definition run_commit_callbacks :: "index \<Rightarrow> aft \<Rightarrow> aft_res" where
  "run_commit_callbacks idx s =
     (case commit_callbacks s of
        None \<Rightarrow> Ok s
      | Some c \<Rightarrow>
          (case trigger_callbacks \<lparr>tx_view = get_term_internal s idx, tx_seqno = idx\<rparr>
                  (view_history s) c of
             CcsOk c' \<Rightarrow> Ok (s\<lparr>commit_callbacks := Some c'\<rparr>)
           | CcsThrow e c' \<Rightarrow> Throw (CallbackError e) (s\<lparr>commit_callbacks := Some c'\<rparr>)))"

definition compact_configurations :: "raft_env \<Rightarrow> index \<Rightarrow> aft \<Rightarrow> aft_res" where
  "compact_configurations env idx s =
     (let configs = discard_committed_configs idx (configurations s);
          changed = (length configs < length (configurations s));
          s1 = s\<lparr>configurations := configs\<rparr>
      in if changed then
           bind_res (create_and_remove_node_state env s1) (\<lambda>s2.
             if is_primary s2 then Ok (log_call CleanupRetiredNodes s2) else Ok s2)
         else Ok s1)"

definition retire_on_commit :: "index \<Rightarrow> aft \<Rightarrow> aft" where
  "retire_on_commit idx s =
     (if is_retired s \<and> retirement_phase s = Some Signed then
        (case retirement_committable_idx s of
           Some r \<Rightarrow> if idx \<ge> r then become_retired idx Completed s else s
         | None \<Rightarrow> s)
      else s)"

definition commit :: "raft_env \<Rightarrow> index \<Rightarrow> aft \<Rightarrow> aft_res" where
  "commit env idx s =
     (if idx > last_idx s then Throw (LogicError ''Tried to commit past last_idx'') s
      else if idx \<le> commit_idx s then Ok s
      else
        let s1 = (compact_committable_indices idx s)\<lparr>commit_idx := idx\<rparr>;
            s2 = retire_on_commit idx s1;
            s3 = store_compact env idx s2;
            s4 = log_call (LedgerCommit idx) s3
        in bind_res (run_commit_callbacks idx s4) (compact_configurations env idx))"

definition commit_if_possible :: "raft_env \<Rightarrow> index \<Rightarrow> aft \<Rightarrow> aft_res" where
  "commit_if_possible env idx s =
     (if idx > commit_idx s \<and> get_term_internal s idx \<le> current_view s then
        (case find_highest_possible_committable_index s idx of
           None \<Rightarrow> Ok s
         | Some h \<Rightarrow> commit env h s)
      else Ok s)"

text \<open>The match indices of one configuration; \<open>None\<close> is \<^verbatim>\<open>all_other_nodes.at\<close> throwing.\<close>

fun match_indices :: "aft \<Rightarrow> node_id list \<Rightarrow> index list option" where
  "match_indices s [] = Some []"
| "match_indices s (n # ns) =
     (case (if n = node_id s then Some (last_idx s)
            else map_option match_idx (map_of (all_other_nodes s) n)) of
        None \<Rightarrow> None
      | Some m \<Rightarrow> map_option (Cons m) (match_indices s ns))"

text \<open>\<^verbatim>\<open>match.at((match.size() - 1) / 2)\<close> of the sorted indices, with \<^verbatim>\<open>size_t\<close> arithmetic.\<close>

definition confirmed_index :: "index list \<Rightarrow> index option" where
  "confirmed_index matches =
     (let m = sort matches; i = sub64 (length m) 1 div 2
      in if i < length m then Some (m ! i) else None)"

fun agreement_index :: "aft \<Rightarrow> configuration list \<Rightarrow> index option \<Rightarrow> raft_error + index option" where
  "agreement_index s [] acc = Inr acc"
| "agreement_index s (c # cs) acc =
     (case match_indices s (node_keys (cfg_nodes c)) of
        None \<Rightarrow> Inl OutOfRange
      | Some matches \<Rightarrow>
          (case confirmed_index matches of
             None \<Rightarrow> Inl OutOfRange
           | Some confirmed \<Rightarrow>
               agreement_index s cs
                 (case acc of
                    None \<Rightarrow> Some confirmed
                  | Some a \<Rightarrow> if confirmed < a then Some confirmed else Some a)))"

definition update_commit :: "raft_env \<Rightarrow> aft \<Rightarrow> aft_res" where
  "update_commit env s =
     (if leadership_state s \<noteq> Leader
      then Throw (LogicError ''update_commit() must only be called while this node is leader'') s
      else case agreement_index s (configurations s) None of
          Inl e \<Rightarrow> Throw e s
        | Inr None \<Rightarrow> Ok s
        | Inr (Some new_agreement_index) \<Rightarrow>
            if new_agreement_index > last_idx s
            then Throw (LogicError ''Followers appear to have later match indices than leader'') s
            else case find_highest_possible_committable_index s new_agreement_index of
                None \<Rightarrow> Ok s
              | Some new_commit_idx \<Rightarrow>
                  if get_term_internal s new_commit_idx = current_view s
                  then commit env new_commit_idx s
                  else Ok s)"

end
