(* ===== verification/Raft.thy ===== *)
theory Raft
  imports Raft_Core
begin

text \<open>
  \<^verbatim>\<open>aft::Aft\<close> of \<^verbatim>\<open>src/consensus/aft/raft.h\<close>, second part: elections, replication,
  message handlers and the periodic tick, down to \<^verbatim>\<open>recv_message\<close>.
\<close>

lemma bind_res_cong [fundef_cong]:
  "r = r' \<Longrightarrow> (\<And>s. r' = Ok s \<Longrightarrow> f s = f' s) \<Longrightarrow> bind_res r f = bind_res r' f'"
  by (cases r') auto

section \<open>Changes of role\<close>

definition reset_votes_for_me :: "aft \<Rightarrow> aft" where
  "reset_votes_for_me s =
     s\<lparr>votes_for_me :=
         fold (\<lambda>c m. omap_set (cfg_idx c)
             \<lparr>voters = [], quorum = get_quorum (length (cfg_nodes c))\<rparr> m)
           (configurations s) []\<rparr>"

definition become_follower :: "raft_env \<Rightarrow> aft \<Rightarrow> aft" where
  "become_follower env s =
     (reset_last_ack_timeouts (restart_election_timeout env (s\<lparr>leader_id := None\<rparr>)))
       \<lparr>leadership_state := Follower\<rparr>"

definition become_aware_of_new_term :: "raft_env \<Rightarrow> view \<Rightarrow> aft \<Rightarrow> aft" where
  "become_aware_of_new_term env t s =
     (become_follower env (reset_votes_for_me (s\<lparr>current_view := t, voted_for := None\<rparr>)))
       \<lparr>is_new_follower := True\<rparr>"

definition become_leader_send :: "raft_env \<Rightarrow> index \<Rightarrow> node_id \<Rightarrow> aft \<Rightarrow> aft_res" where
  "become_leader_send env next_idx n s =
     (case map_of (all_other_nodes s) n of
        None \<Rightarrow> Throw OutOfRange s
      | Some ns \<Rightarrow>
          send_append_entries env n next_idx
            (set_node n (ns\<lparr>match_idx := 0, sent_idx := sub64 next_idx 1\<rparr>) s))"

definition become_leader :: "raft_env \<Rightarrow> aft \<Rightarrow> aft_res" where
  "become_leader env s =
     (if is_retired_committed s then Ok s
      else
        let election_index = last_committable_index s
        in bind_res
             (if commit_idx s > 0 then rollback env election_index s
              else Ok (log_call (StoreInitialiseTerm (current_view s)) s))
             (\<lambda>s1.
               let s2 = reset_last_ack_timeouts
                     (s1\<lparr>leadership_state := Leader, leader_id := Some (node_id s1),
                         should_sign := True, timeout_elapsed := 0\<rparr>)
               in bind_res
                    (if other_nodes_in_active_configs s2 = [] then update_commit env s2 else Ok s2)
                    (\<lambda>s3.
                      let next_idx = add64 (last_idx s3) 1
                      in bind_res
                           (for_each (become_leader_send env next_idx)
                              (map fst (all_other_nodes s3)) s3)
                           (\<lambda>s4. Ok (log_call CleanupRetiredNodes s4)))))"

definition make_request_vote :: "aft \<Rightarrow> request_vote" where
  "make_request_vote s =
     (let lci = last_committable_index s
      in \<lparr>rv_term = current_view s, rv_last_committable_idx = lci,
          rv_term_of_last_committable_idx = get_term_internal s lci\<rparr>)"

definition send_request_vote :: "node_id \<Rightarrow> aft \<Rightarrow> aft" where
  "send_request_vote to_node s =
     log_call (SendAuthenticated to_node (RequestVote (make_request_vote s))) s"

definition send_request_pre_vote :: "node_id \<Rightarrow> aft \<Rightarrow> aft" where
  "send_request_pre_vote to_node s =
     log_call (SendAuthenticated to_node (RequestPreVote (make_request_vote s))) s"

text \<open>\<^verbatim>\<open>votes_for_me[idx].votes.insert(from)\<close>: a missing entry is created with quorum zero.\<close>

definition insert_vote :: "node_id \<Rightarrow> configuration \<Rightarrow> (index \<times> votes) list \<Rightarrow> (index \<times> votes) list" where
  "insert_vote from c m =
     (if from \<notin> set (node_keys (cfg_nodes c)) then m
      else
        let v = (case map_of m (cfg_idx c) of
                   None \<Rightarrow> \<lparr>voters = [], quorum = 0\<rparr>
                 | Some v \<Rightarrow> v)
        in omap_set (cfg_idx c) (v\<lparr>voters := List.insert from (voters v)\<rparr>) m)"

definition record_vote :: "node_id \<Rightarrow> aft \<Rightarrow> aft" where
  "record_vote from s =
     s\<lparr>votes_for_me := fold (insert_vote from) (configurations s) (votes_for_me s)\<rparr>"

definition is_elected :: "aft \<Rightarrow> bool" where
  "is_elected s \<longleftrightarrow> (\<forall>(idx, v)\<in>set (votes_for_me s). \<not> length (voters v) < quorum v)"

text \<open>\<^verbatim>\<open>become_candidate\<close> up to its vote for itself.\<close>

definition start_candidacy :: "raft_env \<Rightarrow> aft \<Rightarrow> aft" where
  "start_candidacy env s =
     (let s1 = reset_votes_for_me
            (s\<lparr>leadership_state := Candidate, leader_id := None, voted_for := Some (node_id s)\<rparr>);
          s2 = s1\<lparr>current_view := add64 (current_view s1) 1\<rparr>
      in reset_last_ack_timeouts (restart_election_timeout env s2))"

text \<open>
  A node that collects its pre-votes becomes a candidate and votes again: the two methods call each
  other, at most once in each direction, because the role moves from pre-vote candidate to candidate
  to leader.
\<close>

function (sequential)
  add_vote_for_me :: "raft_env \<Rightarrow> node_id \<Rightarrow> aft \<Rightarrow> aft_res" and
  become_candidate :: "raft_env \<Rightarrow> aft \<Rightarrow> aft_res" where
  "add_vote_for_me env from s =
     (if configurations s = [] then Ok s
      else
        (if is_elected (record_vote from s) then
           (case leadership_state s of
              PreVoteCandidate \<Rightarrow> become_candidate env (record_vote from s)
            | Candidate \<Rightarrow> become_leader env (record_vote from s)
            | _ \<Rightarrow> Throw (LogicError ''add_vote_for_me() called while not a candidate'')
                     (record_vote from s))
         else Ok (record_vote from s)))"
| "become_candidate env s =
     (if configurations s = [] then Ok s
      else
        bind_res
          (add_vote_for_me env (node_id s) (start_candidacy env s))
          (\<lambda>s2. Ok (fold send_request_vote (other_nodes_in_active_configs s2) s2)))"
  by pat_completeness auto
termination
  by (relation "measure (\<lambda>x. case x of
        Inl (env, from, s) \<Rightarrow> (if leadership_state s = PreVoteCandidate then 2 else 0)
      | Inr (env, s) \<Rightarrow> 1)")
    (auto simp: start_candidacy_def reset_last_ack_timeouts_def restart_election_timeout_def
      reset_votes_for_me_def Let_def)

declare add_vote_for_me.simps [simp del] become_candidate.simps [simp del]

definition become_pre_vote_candidate :: "raft_env \<Rightarrow> aft \<Rightarrow> aft_res" where
  "become_pre_vote_candidate env s =
     (if configurations s = [] then Ok s
      else
        let s1 = restart_election_timeout env (reset_votes_for_me
              (s\<lparr>leadership_state := PreVoteCandidate, leader_id := None\<rparr>))
        in bind_res (add_vote_for_me env (node_id s1) s1)
             (\<lambda>s2. Ok (fold send_request_pre_vote (other_nodes_in_active_configs s2) s2)))"

section \<open>Forced changes of role\<close>

definition starting_view_change :: nat where
  "starting_view_change = 2"

definition update_view_history :: "index \<Rightarrow> view \<Rightarrow> aft \<Rightarrow> aft_res" where
  "update_view_history idx v s =
     (case vh_update idx v (view_history s) of
        None \<Rightarrow> Throw (LogicError ''version must not move backwards'') s
      | Some vh \<Rightarrow> Ok (s\<lparr>view_history := vh\<rparr>))"

definition force_become_primary :: "raft_env \<Rightarrow> aft \<Rightarrow> aft_res" where
  "force_become_primary env s =
     (if leader_id s \<noteq> None
      then Throw (LogicError ''Can't force leadership if there is already a leader'') s
      else become_leader env
             (s\<lparr>current_view := add64 (current_view s) starting_view_change\<rparr>))"

definition force_become_primary_at ::
    "raft_env \<Rightarrow> index \<Rightarrow> view \<Rightarrow> index list \<Rightarrow> index \<Rightarrow> aft \<Rightarrow> aft_res" where
  "force_become_primary_at env idx t terms commit_at s =
     (if leader_id s \<noteq> None
      then Throw (LogicError ''Can't force leadership if there is already a leader'') s
      else
        let s1 = s\<lparr>current_view := t, last_idx := idx, commit_idx := commit_at\<rparr>
        in case vh_initialise terms of
             None \<Rightarrow> Throw (LogicError ''version must not move backwards'') s1
           | Some vh \<Rightarrow>
               bind_res (update_view_history idx t (s1\<lparr>view_history := vh\<rparr>))
                 (\<lambda>s2. become_leader env
                    (s2\<lparr>current_view := add64 (current_view s2) starting_view_change\<rparr>)))"

definition init_as_backup ::
    "raft_env \<Rightarrow> index \<Rightarrow> view \<Rightarrow> index list \<Rightarrow> index \<Rightarrow> aft \<Rightarrow> aft_res" where
  "init_as_backup env idx t term_history recovery_start_index s =
     (let s1 = s\<lparr>last_idx := idx, commit_idx := idx\<rparr>
      in case vh_initialise term_history of
           None \<Rightarrow> Throw (LogicError ''version must not move backwards'') s1
         | Some vh \<Rightarrow>
             Ok (become_aware_of_new_term env t
                  (log_call (LedgerInit idx recovery_start_index) (s1\<lparr>view_history := vh\<rparr>))))"

definition enable_all_domains :: "aft \<Rightarrow> aft" where
  "enable_all_domains s = s\<lparr>public_only := False\<rparr>"

definition nominate_successor :: "aft \<Rightarrow> aft" where
  "nominate_successor s =
     (if leadership_state s \<noteq> Leader then s else send_propose_request_vote s)"

section \<open>Replication by the leader\<close>

record batch_entry =
  be_index :: index
  be_data :: bytes
  be_globally_committable :: bool
  be_hooks :: "hook list"

definition replicate_committable :: "index \<Rightarrow> aft \<Rightarrow> aft" where
  "replicate_committable idx s =
     (let s1 = (if membership_state s = Retired \<and> retirement_phase s = Some Ordered
                then become_retired idx Signed s else s);
          s2 = s1\<lparr>committable_indices := committable_indices s1 @ [idx]\<rparr>
      in (start_ticking_if_necessary s2)\<lparr>should_sign := False\<rparr>)"

definition put_entry :: "batch_entry \<Rightarrow> aft \<Rightarrow> aft" where
  "put_entry be s =
     (let s2 = (if be_globally_committable be then replicate_committable (be_index be) s else s)
      in log_call (LedgerPutEntry (be_data be) (be_globally_committable be)
                  (current_view s2) (be_index be)) (s2\<lparr>last_idx := be_index be\<rparr>))"

definition replicate_entry :: "raft_env \<Rightarrow> batch_entry \<Rightarrow> aft \<Rightarrow> aft_res" where
  "replicate_entry env be s =
     bind_res (for_each (call_hook env) (be_hooks be) s) (\<lambda>s1.
       let s3 = put_entry be s1;
           s4 = s3\<lparr>entry_size_not_limited := add64 (entry_size_not_limited s3) (length (be_data be)),
                   entry_count := add64 (entry_count s3) 1\<rparr>
       in bind_res (update_view_history (be_index be) (current_view s4) s4) (\<lambda>s5.
            if entry_size_not_limited s5 \<ge> append_entries_size_limit then
              let s6 = (update_batch_size s5)\<lparr>entry_count := 0, entry_size_not_limited := 0\<rparr>
              in for_each (send_next_entries env) (map fst (all_other_nodes s6)) s6
            else Ok s5))"

fun replicate_loop :: "raft_env \<Rightarrow> batch_entry list \<Rightarrow> aft \<Rightarrow> bool \<times> aft_res" where
  "replicate_loop env [] s =
     (True, if other_nodes_in_active_configs s = [] then update_commit env s else Ok s)"
| "replicate_loop env (be # bes) s =
     (if be_index be \<noteq> add64 (last_idx s) 1 then (False, Ok s)
      else case replicate_entry env be s of
          Ok s1 \<Rightarrow> replicate_loop env bes s1
        | Throw e s1 \<Rightarrow> (False, Throw e s1)
        | Diverge \<Rightarrow> (False, Diverge))"

text \<open>\<^verbatim>\<open>Aft::replicate\<close>; the Boolean is its result when it returns.\<close>

definition replicate_batch :: "raft_env \<Rightarrow> batch_entry list \<Rightarrow> view \<Rightarrow> aft \<Rightarrow> bool \<times> aft_res" where
  "replicate_batch env entries t s =
     (if leadership_state s \<noteq> Leader then (False, rollback env (last_idx s) s)
      else if t \<noteq> current_view s then (False, Ok s)
      else if is_retired_committed s then (False, rollback env (last_idx s) s)
      else replicate_loop env entries s)"

section \<open>AppendEntries at a follower\<close>

definition send_append_entries_response ::
    "node_id \<Rightarrow> ae_response_type \<Rightarrow> view \<Rightarrow> index \<Rightarrow> aft \<Rightarrow> aft" where
  "send_append_entries_response to_node answer t idx s =
     log_call (SendAuthenticated to_node (AppendEntriesResponse
       \<lparr>aer_term = t, aer_last_log_idx = idx, aer_success = answer\<rparr>)) s"

definition send_ae_response_ack :: "node_id \<Rightarrow> append_entries \<Rightarrow> aft \<Rightarrow> aft" where
  "send_ae_response_ack to_node ae s =
     send_append_entries_response to_node OK (current_view s) (ae_idx ae) s"

definition send_ae_response_nack :: "node_id \<Rightarrow> aft \<Rightarrow> aft" where
  "send_ae_response_nack to_node s =
     send_append_entries_response to_node FAIL (current_view s) (last_idx s) s"

definition send_ae_response_nack_tx :: "node_id \<Rightarrow> tx_id \<Rightarrow> aft \<Rightarrow> aft_res" where
  "send_ae_response_nack_tx to_node rejected s =
     (case find_highest_possible_match s rejected of
        None \<Rightarrow> Diverge
      | Some idx \<Rightarrow>
          Ok (send_append_entries_response to_node FAIL (get_term_internal s idx) idx s))"

definition execute_append_entries_finish ::
    "raft_env \<Rightarrow> append_entries \<Rightarrow> node_id \<Rightarrow> aft \<Rightarrow> aft_res" where
  "execute_append_entries_finish env r from s =
     bind_res (commit_if_possible env (ae_leader_commit_idx r) s) (\<lambda>s1.
       let lci = last_committable_index s1
       in bind_res
            (if ae_term_of_idx r = VIEW_UNKNOWN then update_view_history 1 (ae_term r) s1
             else if ae_idx r > lci then update_view_history (add64 lci 1) (ae_term_of_idx r) s1
             else Ok s1)
            (\<lambda>s2. Ok (send_ae_response_ack from r s2)))"

definition execute_signature :: "raft_env \<Rightarrow> append_entries \<Rightarrow> exec_wrapper \<Rightarrow> index \<Rightarrow> aft \<Rightarrow> aft_res" where
  "execute_signature env r ds i s =
     (let s1 = (if membership_state s = Retired \<and> retirement_phase s = Some Ordered
                then become_retired i Signed s else s);
          s2 = s1\<lparr>committable_indices := committable_indices s1 @ [i]\<rparr>
      in if ew_term ds \<noteq> 0 then
           bind_res
             (if ae_term_of_idx r = VIEW_UNKNOWN then update_view_history 1 (ae_term r) s2
              else update_view_history (add64 (ae_prev_idx r) 1) (ew_term ds) s2)
             (commit_if_possible env (ae_leader_commit_idx r))
         else Ok s2)"

definition execute_append_entry ::
    "raft_env \<Rightarrow> append_entries \<Rightarrow> exec_wrapper \<Rightarrow> apply_result \<Rightarrow> index \<Rightarrow> aft \<Rightarrow> aft_res" where
  "execute_append_entry env r ds res i s =
     bind_res (for_each (call_hook env) (ew_hooks ds) (s\<lparr>last_idx := i\<rparr>)) (\<lambda>s1.
       let globally_committable = (res = PASS_SIGNATURE);
           s2 = (if globally_committable then start_ticking_if_necessary s1 else s1);
           s3 = log_call (LedgerPutEntry (ew_entry ds) globally_committable (ew_term ds)
                  (ew_index ds)) s2
       in if res = PASS_SIGNATURE then execute_signature env r ds i s3
          else if res = PASS \<or> res = PASS_ENCRYPTED_PAST_LEDGER_SECRET then Ok s3
          else Throw (LogicError ''Unknown ApplyResult value'') s3)"

fun execute_append_entries_sync ::
    "raft_env \<Rightarrow> (exec_wrapper \<times> index) list \<Rightarrow> node_id \<Rightarrow> append_entries \<Rightarrow> aft \<Rightarrow> aft_res" where
  "execute_append_entries_sync env [] from r s = execute_append_entries_finish env r from s"
| "execute_append_entries_sync env ((ds, i) # rest) from r s =
     (case ew_apply ds of
        None \<Rightarrow> Throw ApplyError s
      | Some res \<Rightarrow>
          if res = APPLY_FAIL
          then Ok (send_ae_response_nack from (log_call (LedgerTruncate (sub64 i 1)) s))
          else bind_res (execute_append_entry env r ds res i s)
                 (execute_append_entries_sync env rest from r))"

text \<open>What the loop does with entry \<open>i\<close> of the batch, from the state it finds.\<close>

datatype entry_action = EntrySkip | EntryIgnore | EntryRollback | EntryFetch

definition entry_action :: "append_entries \<Rightarrow> index \<Rightarrow> aft \<Rightarrow> entry_action" where
  "entry_action r i s =
     (if i \<le> last_idx s then
        (if ae_term_of_idx r \<noteq> view_at (view_history s) i
         then (if is_new_follower s then EntryRollback else EntryIgnore)
         else EntrySkip)
      else EntryFetch)"

definition prepare_entry :: "raft_env \<Rightarrow> append_entries \<Rightarrow> index \<Rightarrow> aft \<Rightarrow> aft_res" where
  "prepare_entry env r i s =
     (if entry_action r i s = EntryRollback
      then bind_res (rollback env (sub64 i 1) s) (\<lambda>s1. Ok (s1\<lparr>is_new_follower := False\<rparr>))
      else Ok s)"

text \<open>
  The loop over the batch consumes at least a header from the payload in every round, so it ends
  whatever indices the message claims. An exception out of \<^verbatim>\<open>get_entry\<close> is not a
  \<^verbatim>\<open>std::logic_error\<close> and leaves the handler.
\<close>

function deserialise_entries ::
    "raft_env \<Rightarrow> node_id \<Rightarrow> append_entries \<Rightarrow> index \<Rightarrow> bytes \<Rightarrow> (exec_wrapper \<times> index) list
       \<Rightarrow> aft \<Rightarrow> aft_res" where
  "deserialise_entries env from r i data acc s =
     (if i \<le> ae_idx r then
        (case entry_action r i s of
           EntryIgnore \<Rightarrow> Ok s
         | EntrySkip \<Rightarrow>
             (case skip_entry data of
                Inl e \<Rightarrow> Throw (SerError e) s
              | Inr rest \<Rightarrow> deserialise_entries env from r (add64 i 1) rest acc s)
         | _ \<Rightarrow>
             bind_res (prepare_entry env r i s) (\<lambda>s1.
               case get_entry data of
                 Inl e \<Rightarrow> Throw (SerError e) s1
               | Inr (entry, rest) \<Rightarrow>
                   (case deserialize env entry (public_only s1)
                           \<lparr>tx_view = ae_term_of_idx r, tx_seqno = i\<rparr> of
                      None \<Rightarrow> Ok (send_ae_response_nack from s1)
                    | Some ds \<Rightarrow>
                        deserialise_entries env from r (add64 i 1) rest (acc @ [(ds, i)]) s1)))
      else execute_append_entries_sync env acc from r s)"
  by pat_completeness auto
termination
  by (relation "measure (\<lambda>(env, from, r, i, data, acc, s). length data)")
    (auto dest: skip_entry_consumes get_entry_consumes)

declare deserialise_entries.simps [simp del]

definition recv_append_entries ::
    "raft_env \<Rightarrow> node_id \<Rightarrow> append_entries \<Rightarrow> bytes \<Rightarrow> aft \<Rightarrow> aft_res" where
  "recv_append_entries env from r data s =
     (if current_view s > ae_term r then Ok (send_ae_response_nack from s)
      else
        let s1 = (if current_view s = ae_term r \<and>
                     (leadership_state s = Candidate \<or> leadership_state s = PreVoteCandidate) \<or>
                     current_view s < ae_term r
                  then become_aware_of_new_term env (ae_term r) s else s);
            prev_term = get_term_internal s1 (ae_prev_idx r)
        in if prev_term \<noteq> ae_prev_term r then
             (if prev_term = VIEW_UNKNOWN then Ok (send_ae_response_nack from s1)
              else send_ae_response_nack_tx from
                     \<lparr>tx_view = ae_prev_term r, tx_seqno = ae_prev_idx r\<rparr> s1)
           else
             let s2 = restart_election_timeout env s1;
                 s3 = (if leader_id s2 \<noteq> Some from then s2\<lparr>leader_id := Some from\<rparr> else s2)
             in if ae_prev_idx r < commit_idx s3 then Ok s3
                else if ae_prev_idx r > last_idx s3 then Ok s3
                else deserialise_entries env from r (add64 (ae_prev_idx r) 1) data [] s3)"

section \<open>The other handlers\<close>

definition recv_append_entries_response ::
    "raft_env \<Rightarrow> node_id \<Rightarrow> append_entries_response \<Rightarrow> aft \<Rightarrow> aft_res" where
  "recv_append_entries_response env from r s =
     (case map_of (all_other_nodes s) from of
        None \<Rightarrow> Ok s
      | Some node \<Rightarrow>
          if leadership_state s \<noteq> Leader then Ok s
          else
            let node1 = node\<lparr>last_ack_timeout := 0\<rparr>;
                s1 = set_node from node1 s
            in if current_view s1 < aer_term r then Ok (become_aware_of_new_term env (aer_term r) s1)
               else if current_view s1 \<noteq> aer_term r \<and> aer_success r = OK then Ok s1
               else if current_view s1 = aer_term r \<and> aer_last_log_idx r < match_idx node1 \<and>
                       aer_success r = OK then Ok s1
               else if aer_success r = FAIL then
                 (case find_highest_possible_match s1
                         \<lparr>tx_view = aer_term r, tx_seqno = aer_last_log_idx r\<rparr> of
                    None \<Rightarrow> Diverge
                  | Some this_match \<Rightarrow>
                      Ok (set_node from (node1\<lparr>sent_idx :=
                            max (min this_match (sent_idx node1)) (match_idx node1)\<rparr>) s1))
               else
                 update_commit env
                   (set_node from (node1\<lparr>match_idx :=
                      max (match_idx node1) (aer_last_log_idx r)\<rparr>) s1))"

definition send_request_vote_response :: "node_id \<Rightarrow> bool \<Rightarrow> election_type \<Rightarrow> aft \<Rightarrow> aft" where
  "send_request_vote_response to_node answer et s =
     (let response = \<lparr>rvr_term = current_view s, rvr_vote_granted = answer\<rparr>
      in log_call (SendAuthenticated to_node
           (if et = RegularVote then RequestVoteResponse response
            else RequestPreVoteResponse response)) s)"

definition log_up_to_date :: "aft \<Rightarrow> request_vote \<Rightarrow> bool" where
  "log_up_to_date s r \<longleftrightarrow>
     (let lci = last_committable_index s; t = get_term_internal s lci
      in rv_term_of_last_committable_idx r > t \<or>
         (rv_term_of_last_committable_idx r = t \<and> rv_last_committable_idx r \<ge> lci))"

definition recv_request_vote_unsafe ::
    "raft_env \<Rightarrow> node_id \<Rightarrow> request_vote \<Rightarrow> election_type \<Rightarrow> aft \<Rightarrow> aft" where
  "recv_request_vote_unsafe env from r et s =
     (if current_view s > rv_term r then send_request_vote_response from False et s
      else
        let s1 = (if current_view s < rv_term r
                  then become_aware_of_new_term env (rv_term r) s else s);
            voted_for_other = (case voted_for s1 of None \<Rightarrow> False | Some n \<Rightarrow> n \<noteq> from);
            grant_vote =
              (\<not> (et = RegularVote \<and> leader_id s1 \<noteq> None) \<and>
               \<not> (et = RegularVote \<and> voted_for_other) \<and>
               log_up_to_date s1 r);
            s2 = (if grant_vote \<and> et = RegularVote
                  then (restart_election_timeout env s1)
                         \<lparr>leader_id := None, voted_for := Some from\<rparr>
                  else s1)
        in send_request_vote_response from grant_vote et s2)"

definition recv_request_vote :: "raft_env \<Rightarrow> node_id \<Rightarrow> request_vote \<Rightarrow> aft \<Rightarrow> aft" where
  "recv_request_vote env from r s = recv_request_vote_unsafe env from r RegularVote s"

definition recv_request_pre_vote :: "raft_env \<Rightarrow> node_id \<Rightarrow> request_vote \<Rightarrow> aft \<Rightarrow> aft" where
  "recv_request_pre_vote env from r s = recv_request_vote_unsafe env from r PreVote s"

definition recv_vote_response ::
    "raft_env \<Rightarrow> node_id \<Rightarrow> request_vote_response \<Rightarrow> election_type \<Rightarrow> aft \<Rightarrow> aft_res" where
  "recv_vote_response env from r et s =
     (if map_of (all_other_nodes s) from = None then Ok s
      else if current_view s < rvr_term r then Ok (become_aware_of_new_term env (rvr_term r) s)
      else if current_view s \<noteq> rvr_term r then Ok s
      else if leadership_state s \<noteq> PreVoteCandidate \<and> leadership_state s \<noteq> Candidate then Ok s
      else if et = RegularVote \<and> leadership_state s \<noteq> Candidate then Ok s
      else if et = PreVote \<and> leadership_state s \<noteq> PreVoteCandidate then Ok s
      else if \<not> rvr_vote_granted r then Ok s
      else add_vote_for_me env from s)"

definition recv_request_vote_response ::
    "raft_env \<Rightarrow> node_id \<Rightarrow> request_vote_response \<Rightarrow> aft \<Rightarrow> aft_res" where
  "recv_request_vote_response env from r s = recv_vote_response env from r RegularVote s"

definition recv_request_pre_vote_response ::
    "raft_env \<Rightarrow> node_id \<Rightarrow> request_vote_response \<Rightarrow> aft \<Rightarrow> aft_res" where
  "recv_request_pre_vote_response env from r s = recv_vote_response env from r PreVote s"

definition recv_propose_request_vote ::
    "raft_env \<Rightarrow> node_id \<Rightarrow> propose_request_vote \<Rightarrow> aft \<Rightarrow> aft_res" where
  "recv_propose_request_vote env from r s =
     (if \<not> is_retired_committed s \<and> ticking s \<and> prv_term r = current_view s
      then become_candidate env s else Ok s)"

section \<open>The periodic tick\<close>

definition live_in_config :: "aft \<Rightarrow> configuration \<Rightarrow> nat" where
  "live_in_config s c =
     length (filter (\<lambda>n. case map_of (all_other_nodes s) n of
           None \<Rightarrow> True
         | Some ns \<Rightarrow> last_ack_timeout ns < election_timeout s) (node_keys (cfg_nodes c)))"

definition every_active_config_has_a_quorum :: "aft \<Rightarrow> bool" where
  "every_active_config_has_a_quorum s \<longleftrightarrow>
     (\<forall>c\<in>set (configurations s). live_in_config s c \<ge> get_quorum (length (cfg_nodes c)))"

definition add_ack_timeouts :: "int \<Rightarrow> aft \<Rightarrow> aft" where
  "add_ack_timeouts elapsed s =
     s\<lparr>all_other_nodes := map (\<lambda>(n, ns).
         (n, ns\<lparr>last_ack_timeout := last_ack_timeout ns + elapsed\<rparr>)) (all_other_nodes s)\<rparr>"

definition periodic :: "raft_env \<Rightarrow> int \<Rightarrow> aft \<Rightarrow> aft_res" where
  "periodic env elapsed s =
     (let s1 = s\<lparr>timeout_elapsed := timeout_elapsed s + elapsed\<rparr>
      in if leadership_state s1 = Leader then
           bind_res
             (if timeout_elapsed s1 \<ge> request_timeout s1 then
                let s2 = update_batch_size (s1\<lparr>timeout_elapsed := 0\<rparr>)
                in for_each (send_next_entries env) (map fst (all_other_nodes s2)) s2
              else Ok s1)
             (\<lambda>s3.
               let s4 = add_ack_timeouts elapsed s3
               in if \<not> every_active_config_has_a_quorum s4 then Ok (become_follower env s4)
                  else Ok s4)
         else if \<not> is_retired_committed s1 \<and> ticking s1 \<and>
                 timeout_elapsed s1 \<ge> election_timeout s1 then
           (if pre_vote_enabled s1 then become_pre_vote_candidate env s1
            else become_candidate env s1)
         else Ok s1)"

section \<open>Dispatch\<close>

text \<open>
  \<^verbatim>\<open>NodeToNode::recv_authenticated<T>\<close> of \<^verbatim>\<open>src/node/node_to_node.h\<close>: the struct is read
  over the received bytes, then the channel verifies it and leaves the payload.
\<close>

definition recv_authenticated ::
    "raft_env \<Rightarrow> (bytes \<Rightarrow> ser_error + ('m \<times> bytes)) \<Rightarrow> node_id \<Rightarrow> bytes \<Rightarrow> raft_error + ('m \<times> bytes)" where
  "recv_authenticated env ov from data =
     (case ov data of
        Inl e \<Rightarrow> Inl (SerError e)
      | Inr (m, rest) \<Rightarrow>
          (case verify_header env from (take (length data - length rest) data) rest of
             None \<Rightarrow> Inl (DroppedMessage from)
           | Some payload \<Rightarrow> Inr (m, payload)))"

definition with_msg ::
    "raft_error + ('m \<times> bytes) \<Rightarrow> ('m \<Rightarrow> bytes \<Rightarrow> aft \<Rightarrow> aft_res) \<Rightarrow> aft \<Rightarrow> aft_res" where
  "with_msg r f s = (case r of Inl e \<Rightarrow> Throw e s | Inr (m, payload) \<Rightarrow> f m payload s)"

definition dispatch :: "raft_env \<Rightarrow> nat \<Rightarrow> node_id \<Rightarrow> bytes \<Rightarrow> aft \<Rightarrow> aft_res" where
  "dispatch env t from data s =
     (if t = msg_type_value raft_append_entries then
        with_msg (recv_authenticated env overlay_append_entries from data)
          (\<lambda>r payload. recv_append_entries env from r payload) s
      else if t = msg_type_value raft_append_entries_response then
        with_msg (recv_authenticated env overlay_append_entries_response from data)
          (\<lambda>r payload. recv_append_entries_response env from r) s
      else if t = msg_type_value raft_request_pre_vote then
        with_msg (recv_authenticated env overlay_request_vote from data)
          (\<lambda>r payload s. Ok (recv_request_pre_vote env from r s)) s
      else if t = msg_type_value raft_request_vote then
        with_msg (recv_authenticated env overlay_request_vote from data)
          (\<lambda>r payload s. Ok (recv_request_vote env from r s)) s
      else if t = msg_type_value raft_request_pre_vote_response then
        with_msg (recv_authenticated env overlay_request_vote_response from data)
          (\<lambda>r payload. recv_request_pre_vote_response env from r) s
      else if t = msg_type_value raft_request_vote_response then
        with_msg (recv_authenticated env overlay_request_vote_response from data)
          (\<lambda>r payload. recv_request_vote_response env from r) s
      else if t = msg_type_value raft_propose_request_vote then
        with_msg (recv_authenticated env overlay_propose_request_vote from data)
          (\<lambda>r payload. recv_propose_request_vote env from r) s
      else Ok s)"

text \<open>Every exception of a handler is caught and logged; the state stays as the handler left it.\<close>

fun catch_all :: "aft_res \<Rightarrow> aft_res" where
  "catch_all (Throw e s) = Ok s"
| "catch_all r = r"

definition recv_message :: "raft_env \<Rightarrow> node_id \<Rightarrow> bytes \<Rightarrow> aft \<Rightarrow> aft_res" where
  "recv_message env from data s =
     (case ser_peek 8 data of
        Inl e \<Rightarrow> Throw (SerError e) s
      | Inr t \<Rightarrow> catch_all (dispatch env t from data s))"

end
