(* ===== verification/Raft_Frames.thy ===== *)
theory Raft_Frames
  imports Raft
begin

text \<open>
  Relations between the state before and after a call. A relation that is reflexive and transitive
  passes through sequencing and loops: the locale below proves that once, and each relation of
  interest is an interpretation of it.
\<close>

section \<open>Relations that compose\<close>

locale step_rel =
  fixes rel :: "aft \<Rightarrow> aft \<Rightarrow> bool"
  assumes rel_refl: "rel s s"
    and rel_trans: "rel s t \<Longrightarrow> rel t u \<Longrightarrow> rel s u"
begin

lemma bind:
  assumes "res_all (rel s) r" "\<And>t. rel s t \<Longrightarrow> r = Ok t \<Longrightarrow> res_all (rel t) (f t)"
  shows "res_all (rel s) (bind_res r f)"
proof (cases r)
  case (Ok t)
  then have "res_all (rel t) (f t)" "rel s t" using assms by auto
  then show ?thesis using Ok by (auto intro: res_all_mono rel_trans)
qed (use assms in auto)

lemma each:
  assumes "\<And>x t. x \<in> set xs \<Longrightarrow> rel s t \<Longrightarrow> res_all (rel t) (f x t)"
  shows "res_all (rel s) (for_each f xs s)"
  using assms
proof (induction xs arbitrary: s)
  case (Cons x xs)
  have "res_all (rel s) (bind_res (f x s) (for_each f xs))"
  proof (rule bind)
    show "res_all (rel s) (f x s)" using Cons.prems rel_refl by simp
  next
    fix t assume "rel s t"
    then show "res_all (rel t) (for_each f xs t)"
      by (intro Cons.IH Cons.prems) (auto intro: rel_trans)
  qed
  then show ?case by simp
qed (simp add: rel_refl)

lemma fold_rel:
  assumes "\<And>x t. x \<in> set xs \<Longrightarrow> rel s t \<Longrightarrow> rel t (f x t)"
  shows "rel s (fold f xs s)"
  using assms
proof (induction xs arbitrary: s)
  case (Cons x xs)
  have "rel s (f x s)" using Cons.prems rel_refl by simp
  moreover have "rel (f x s) (fold f xs (f x s))"
    using Cons.prems calculation by (intro Cons.IH) (auto intro: rel_trans)
  ultimately show ?case by (auto intro: rel_trans)
qed (simp add: rel_refl)

lemma then_rel: "rel s t \<Longrightarrow> res_all (rel t) r \<Longrightarrow> res_all (rel s) r"
  by (cases r) (auto intro: rel_trans)

lemma bind_then:
  assumes "res_all (rel s) r" "\<And>t. rel s t \<Longrightarrow> r = Ok t \<Longrightarrow> res_all (rel s) (f t)"
  shows "res_all (rel s) (bind_res r f)"
  using assms by (cases r) auto

end

section \<open>Calls that leave the log, the view and the vote alone\<close>

definition removes :: "ext_call \<Rightarrow> bool" where
  "removes c = (case c of LedgerTruncate _ \<Rightarrow> True | StoreRollback _ _ \<Rightarrow> True
     | LedgerCommit _ \<Rightarrow> True | StoreCompact _ \<Rightarrow> True | _ \<Rightarrow> False)"

definition frame_log :: "aft \<Rightarrow> aft \<Rightarrow> bool" where
  "frame_log s t \<longleftrightarrow>
     node_id t = node_id s \<and> current_view t = current_view s \<and> last_idx t = last_idx s \<and>
     commit_idx t = commit_idx s \<and> view_history t = view_history s \<and>
     committable_indices t = committable_indices s \<and> voted_for t = voted_for s \<and>
     entries_batch_size t = entries_batch_size s \<and> batch_window_sum t = batch_window_sum s \<and>
     is_new_follower t = is_new_follower s \<and> public_only t = public_only s \<and>
     (\<exists>cs. ext_calls t = ext_calls s @ cs \<and> (\<forall>c\<in>set cs. \<not> removes c))"

lemma frame_log_refl: "frame_log s s"
  by (simp add: frame_log_def)

lemma frame_log_trans: "frame_log s t \<Longrightarrow> frame_log t u \<Longrightarrow> frame_log s u"
  by (fastforce simp: frame_log_def)

interpretation fl: step_rel frame_log
  by unfold_locales (auto intro: frame_log_refl frame_log_trans)

lemma frame_log_fields [simp]:
  "frame_log s (t\<lparr>all_other_nodes := x\<rparr>) = frame_log s t"
  "frame_log s (t\<lparr>configurations := c\<rparr>) = frame_log s t"
  "frame_log s (t\<lparr>leadership_state := l\<rparr>) = frame_log s t"
  "frame_log s (t\<lparr>leader_id := n\<rparr>) = frame_log s t"
  "frame_log s (t\<lparr>should_sign := b\<rparr>) = frame_log s t"
  "frame_log s (t\<lparr>timeout_elapsed := z\<rparr>) = frame_log s t"
  "frame_log s (t\<lparr>retired_committed_idx := i\<rparr>) = frame_log s t"
  "frame_log (s\<lparr>all_other_nodes := x\<rparr>) t = frame_log s t"
  "frame_log (s\<lparr>configurations := c\<rparr>) t = frame_log s t"
  "frame_log (s\<lparr>leadership_state := l\<rparr>) t = frame_log s t"
  "frame_log (s\<lparr>leader_id := n\<rparr>) t = frame_log s t"
  "frame_log (s\<lparr>should_sign := b\<rparr>) t = frame_log s t"
  "frame_log (s\<lparr>timeout_elapsed := z\<rparr>) t = frame_log s t"
  "frame_log (s\<lparr>retired_committed_idx := i\<rparr>) t = frame_log s t"
  by (simp_all add: frame_log_def)

lemma frame_log_call [frame_simps]: "\<not> removes c \<Longrightarrow> frame_log s (log_call c s)"
  by (simp add: frame_log_def log_call_def)

lemma frame_set_node [frame_simps]: "frame_log s (set_node n ns s)"
  by (simp add: frame_log_def set_node_def)

lemma not_removes [simp]:
  "\<not> removes (SendAuthenticated n m)" "\<not> removes (AssociateNodeAddress n h p)"
  "\<not> removes (StoreInitialiseTerm v)" "\<not> removes CleanupRetiredNodes"
  "\<not> removes (LedgerPutEntry d g v i)" "\<not> removes (LedgerInit i j)"
  by (simp_all add: removes_def)

lemma frame_range: "res_all (frame_log s) (send_append_entries_range env n a b s)"
  by (auto simp: send_append_entries_range_def Let_def frame_log_def log_call_def set_node_def
      split: option.splits)

lemma frame_send_loop:
  assumes "send_loop env n start s = Some r"
  shows "res_all (frame_log s) r"
proof (rule send_loop.raw_induct [where P = "\<lambda>env n start s r. res_all (frame_log s) r", OF _ assms])
  fix loop env n start s r
  assume IH: "\<And>env n start s r. loop env n start s = Some r \<Longrightarrow> res_all (frame_log s) r"
    and eq: "(let end = calculate_end_index s start
      in case send_append_entries_range env n start end s of
           Ok s1 \<Rightarrow> if end = last_idx s1 then Some (Ok s1)
                     else loop env n (min (add64 end 1) (last_idx s1)) s1
         | Throw e s1 \<Rightarrow> Some (Throw e s1)
         | Diverge \<Rightarrow> None) = Some r"
  let ?r = "send_append_entries_range env n start (calculate_end_index s start) s"
  have f: "res_all (frame_log s) ?r" by (rule frame_range)
  show "res_all (frame_log s) r"
  proof (cases ?r)
    case (Ok s1)
    then have s1: "frame_log s s1" using f by simp
    show ?thesis
    proof (cases "calculate_end_index s start = last_idx s1")
      case True
      then have "r = Ok s1" using eq Ok by (simp add: Let_def)
      then show ?thesis using s1 by simp
    next
      case False
      then have "res_all (frame_log s1) r" using eq Ok by (auto simp: Let_def dest: IH)
      then show ?thesis by (rule fl.then_rel [OF s1])
    qed
  qed (use eq f in \<open>auto simp: Let_def\<close>)
qed

lemma frame_send_append_entries: "res_all (frame_log s) (send_append_entries env n start s)"
  by (auto simp: send_append_entries_def split: option.splits dest: frame_send_loop)

lemma frame_send_next: "res_all (frame_log s) (send_next_entries env n s)"
  by (auto simp: send_next_entries_def frame_log_refl intro: frame_send_append_entries
      split: option.splits)

lemma frame_start_ticking [frame_simps]: "frame_log s (start_ticking_if_necessary s)"
  by (simp add: frame_log_def start_ticking_if_necessary_def start_ticking_def)

lemma frame_reset_ack [frame_simps]: "frame_log s (reset_last_ack_timeouts s)"
  by (simp add: frame_log_def reset_last_ack_timeouts_def)

lemma frame_restart_timeout [frame_simps]: "frame_log s (restart_election_timeout env s)"
  by (simp add: frame_log_def restart_election_timeout_def)

lemma frame_add_node: "res_all (frame_log s) (add_node_state env ni s)"
  unfolding add_node_state_def Let_def
  by (auto intro!: frame_log_refl frame_log_call fl.then_rel [OF _ frame_send_append_entries])

lemma frame_create: "res_all (frame_log s) (create_and_remove_node_state env s)"
  unfolding create_and_remove_node_state_def by (rule fl.each) (rule frame_add_node)

lemma frame_propose [frame_simps]: "frame_log s (send_propose_request_vote s)"
  by (auto simp: send_propose_request_vote_def frame_log_refl intro: frame_log_call
      split: option.splits)

lemma frame_become_retired [frame_simps]: "frame_log s (become_retired idx phase s)"
proof -
  have "frame_log s (send_propose_request_vote s)" by (rule frame_propose)
  then show ?thesis
    by (cases phase) (auto simp: become_retired_def frame_log_def)
qed

lemma frame_set_retired_committed: "frame_log s (set_retired_committed seqno ns s)"
proof (induction seqno ns s rule: set_retired_committed.induct)
  case (2 seqno n ns s)
  have "frame_log s (become_retired seqno RetiredCommitted (s\<lparr>retired_committed_idx := Some seqno\<rparr>))"
    using frame_become_retired [of "s\<lparr>retired_committed_idx := Some seqno\<rparr>" seqno RetiredCommitted]
    by simp
  then show ?case using 2 by (cases "node_id s = n") (auto elim: frame_log_trans)
qed (simp add: frame_log_refl)

lemma frame_add_configuration: "res_all (frame_log s) (add_configuration env idx conf s)"
  unfolding add_configuration_def Let_def
  by (auto intro!: frame_log_refl frame_become_retired fl.then_rel [OF _ frame_create])

lemma frame_call_hook: "res_all (frame_log s) (call_hook env h s)"
  by (auto simp: call_hook_def Let_def frame_log_refl intro: frame_add_configuration)

lemma frame_hooks: "res_all (frame_log s) (for_each (call_hook env) hs s)"
  by (rule fl.each) (rule frame_call_hook)

lemma frame_reset_votes [frame_simps]: "frame_log s (reset_votes_for_me s)"
  by (simp add: frame_log_def reset_votes_for_me_def)

lemma frame_become_follower [frame_simps]: "frame_log s (become_follower env s)"
  by (simp add: frame_log_def become_follower_def reset_last_ack_timeouts_def
      restart_election_timeout_def)

lemma frame_record_vote [frame_simps]: "frame_log s (record_vote n s)"
  by (simp add: frame_log_def record_vote_def)

lemma frame_callbacks: "res_all (frame_log s) (run_commit_callbacks idx s)"
  by (auto simp: run_commit_callbacks_def frame_log_def split: option.splits ccs_res.splits)

lemma frame_request_vote [frame_simps]: "frame_log s (send_request_vote n s)"
  by (simp add: send_request_vote_def frame_log_call)

lemma frame_request_pre_vote [frame_simps]: "frame_log s (send_request_pre_vote n s)"
  by (simp add: send_request_pre_vote_def frame_log_call)

lemma frame_become_leader_send: "res_all (frame_log s) (become_leader_send env i n s)"
  by (auto simp: become_leader_send_def frame_log_refl split: option.splits
      intro: fl.then_rel [OF frame_set_node frame_send_append_entries])

lemma frame_response [frame_simps]: "frame_log s (send_append_entries_response n a t i s)"
  by (simp add: send_append_entries_response_def frame_log_call)

lemma frame_ack [frame_simps]: "frame_log s (send_ae_response_ack n ae s)"
  by (simp add: send_ae_response_ack_def frame_response)

lemma frame_nack [frame_simps]: "frame_log s (send_ae_response_nack n s)"
  by (simp add: send_ae_response_nack_def frame_response)

lemma frame_nack_tx: "res_all (frame_log s) (send_ae_response_nack_tx n tx s)"
  by (auto simp: send_ae_response_nack_tx_def frame_response split: option.splits)

lemma frame_vote_response [frame_simps]: "frame_log s (send_request_vote_response n a et s)"
  by (simp add: send_request_vote_response_def Let_def frame_log_call)

end
