(* ===== verification/Raft_Samples.thy ===== *)
theory Raft_Samples
  imports Raft
begin

text \<open>
  Concrete nodes, environments and messages on which the theorems about \<^verbatim>\<open>aft::Aft\<close> are
  applied. Every definition of the model computes on them.
\<close>

definition sample_env :: raft_env where
  "sample_env = \<lparr>send_ok = (\<lambda>_ _. True), have_channel = (\<lambda>_. True), rand = (\<lambda>_. 0),
     deserialize = (\<lambda>e po tx. Some \<lparr>ew_apply = Some PASS_SIGNATURE, ew_hooks = [],
       ew_term = tx_view tx, ew_index = tx_seqno tx, ew_entry = e\<rparr>),
     compact_hooks = (\<lambda>_. []), verify_header = (\<lambda>_ _ p. Some p)\<rparr>"

text \<open>A node that has joined a network of itself and \<open>others\<close>, with an empty log.\<close>

definition sample_node :: "node_id \<Rightarrow> node_id list \<Rightarrow> aft" where
  "sample_node n others =
     (new_aft n True 10 100 50 None False)
       \<lparr>configurations := [\<lparr>cfg_idx = 0,
          cfg_nodes = map (\<lambda>m. (m, \<lparr>hostname = m, port = ''80''\<rparr>)) (sort (n # others)), cfg_rid = 0\<rparr>],
        all_other_nodes := map (\<lambda>m. (m, \<lparr>ns_info = \<lparr>hostname = m, port = ''80''\<rparr>, sent_idx = 0,
          match_idx = 0, last_ack_timeout = 0\<rparr>)) (sort others),
        leadership_state := Follower, ticking := True\<rparr>"

text \<open>A follower with one committed and one signed uncommitted entry, and a batch for it.\<close>

definition sample_follower :: aft where
  "sample_follower = (sample_node ''B'' [''A'', ''C''])
     \<lparr>current_view := 1, last_idx := 2, commit_idx := 1, view_history := [1], committable_indices := [2]\<rparr>"

definition sample_ae :: append_entries where
  "sample_ae = \<lparr>ae_idx = 3, ae_prev_idx = 2, ae_term = 1, ae_prev_term = 1,
     ae_leader_commit_idx = 3, ae_term_of_idx = 1, ae_contains_new_view = False\<rparr>"

definition sample_data :: bytes where
  "sample_data = encode_msg (AppendEntries sample_ae) @
     encode_entry_header \<lparr>eh_version = 1, eh_flags = 0, eh_size = 2\<rparr> @ [7, 8]"

fun res_check :: "(aft \<Rightarrow> bool) \<Rightarrow> aft_res \<Rightarrow> bool" where
  "res_check P (Ok s) = P s"
| "res_check P _ = False"

lemma res_checkE: "res_check P r \<Longrightarrow> (\<And>s. r = Ok s \<Longrightarrow> P s \<Longrightarrow> thesis) \<Longrightarrow> thesis"
  by (cases r) auto

lemma sample_received:
  "res_check (\<lambda>t. commit_idx t = 3 \<and> LedgerCommit 3 \<in> set (ext_calls t))
     (recv_message sample_env ''A'' sample_data sample_follower)"
  by code_simp

end
