(* ===== verification/Raft_Safety.thy ===== *)
theory Raft_Safety
  imports Raft_Frames Raft_Samples
begin

text \<open>
  The invariant of a node's log and what every handler of \<^verbatim>\<open>src/consensus/aft/raft.h\<close> keeps
  of the committed prefix: the commit index does not move back, nothing up to it is truncated from
  the ledger or rolled back in the store, and the views of its entries do not change.
\<close>

section \<open>Invariant and safe steps\<close>

definition raft_inv :: "aft \<Rightarrow> bool" where
  "raft_inv s \<longleftrightarrow>
     commit_idx s \<le> last_idx s \<and> last_idx s < max64 \<and>
     sorted_wrt (<) (committable_indices s) \<and>
     (\<forall>i\<in>set (committable_indices s). commit_idx s < i \<and> i \<le> last_idx s) \<and>
     vh_ok (last_idx s + 1) (view_history s)"

definition call_safe :: "index \<Rightarrow> index \<Rightarrow> ext_call \<Rightarrow> bool" where
  "call_safe lo hi c = (case c of
       LedgerTruncate k \<Rightarrow> lo \<le> k
     | StoreRollback tx _ \<Rightarrow> lo \<le> tx_seqno tx
     | LedgerCommit k \<Rightarrow> lo \<le> k \<and> k \<le> hi
     | StoreCompact k \<Rightarrow> lo \<le> k \<and> k \<le> hi
     | _ \<Rightarrow> True)"

definition safe_step :: "aft \<Rightarrow> aft \<Rightarrow> bool" where
  "safe_step s t \<longleftrightarrow>
     commit_idx s \<le> commit_idx t \<and>
     (\<forall>i\<le>commit_idx s. view_at (view_history t) i = view_at (view_history s) i) \<and>
     (\<exists>cs. ext_calls t = ext_calls s @ cs \<and> (\<forall>c\<in>set cs. call_safe (commit_idx s) (commit_idx t) c))"

definition keeps :: "aft \<Rightarrow> aft \<Rightarrow> bool" where
  "keeps s t \<longleftrightarrow> (raft_inv s \<longrightarrow> raft_inv t \<and> safe_step s t)"

lemma call_safe_mono:
  "call_safe lo hi c \<Longrightarrow> lo' \<le> lo \<Longrightarrow> hi \<le> hi' \<Longrightarrow> call_safe lo' hi' c"
  by (auto simp: call_safe_def split: ext_call.splits)

lemma safe_step_refl: "safe_step s s"
  by (simp add: safe_step_def)

lemma safe_step_trans:
  assumes "safe_step s t" "safe_step t u"
  shows "safe_step s u"
proof -
  obtain cs cs' where "ext_calls t = ext_calls s @ cs" "ext_calls u = ext_calls t @ cs'"
    "\<forall>c\<in>set cs. call_safe (commit_idx s) (commit_idx t) c"
    "\<forall>c\<in>set cs'. call_safe (commit_idx t) (commit_idx u) c"
    using assms by (auto simp: safe_step_def)
  moreover have "commit_idx s \<le> commit_idx t" "commit_idx t \<le> commit_idx u"
    using assms by (auto simp: safe_step_def)
  ultimately have "\<exists>cs. ext_calls u = ext_calls s @ cs \<and>
      (\<forall>c\<in>set cs. call_safe (commit_idx s) (commit_idx u) c)"
    by (intro exI [of _ "cs @ cs'"]) (auto intro: call_safe_mono)
  then show ?thesis using assms by (auto simp: safe_step_def)
qed

interpretation kp: step_rel keeps
  by unfold_locales (auto simp: keeps_def intro: safe_step_refl safe_step_trans)

lemmas keeps_trans [trans] = kp.rel_trans

lemma not_removes_safe: "\<not> removes c \<Longrightarrow> call_safe lo hi c"
  by (cases c) (auto simp: removes_def call_safe_def)

lemma frame_keeps: "frame_log s t \<Longrightarrow> keeps s t"
  by (force simp: frame_log_def keeps_def raft_inv_def safe_step_def intro: not_removes_safe)

lemma frame_res_keeps: "res_all (frame_log s) r \<Longrightarrow> res_all (keeps s) r"
  using frame_keeps by (cases r) auto

lemma raft_inv_lci:
  assumes "raft_inv s"
  shows "commit_idx s \<le> last_committable_index s" "last_committable_index s \<le> last_idx s"
  using assms last_in_set [of "committable_indices s"]
  by (auto simp: raft_inv_def last_committable_index_def less_imp_le)

lemma find_committable_SomeD:
  "find_highest_possible_committable_index s idx = Some h \<Longrightarrow>
     h \<in> set (committable_indices s) \<and> h \<le> idx"
  by (auto simp: find_highest_possible_committable_index_def find_Some_iff)
    (metis nth_mem set_rev length_rev)

section \<open>Rollback and commit\<close>

lemma frame_rollback_retirement: "frame_log s (rollback_retirement idx s)"
  by (auto simp: rollback_retirement_def frame_log_def Let_def split: option.splits)

lemma rollback_log_part:
  assumes "raft_inv s" "commit_idx s \<le> idx" "idx \<le> last_idx s"
    and "t = s\<lparr>ext_calls := ext_calls s @ [StoreRollback tx v, LedgerTruncate idx],
           last_idx := idx, view_history := vh_rollback (view_history s) idx,
           committable_indices := pop_back_while (\<lambda>i. i > idx) (committable_indices s)\<rparr>"
    and "tx_seqno tx = idx"
  shows "raft_inv t \<and> safe_step s t"
proof -
  have sorted: "sorted_wrt (<) (committable_indices s)" using assms(1) by (simp add: raft_inv_def)
  have ok: "vh_ok (last_idx s + 1) (view_history s)" using assms(1) by (simp add: raft_inv_def)
  have "vh_ok (idx + 1) (vh_rollback (view_history s) idx)"
    using vh_ok_mono [OF vh_ok_rollback [OF ok]] by simp
  then have "raft_inv t"
    using assms sorted by (auto simp: raft_inv_def pop_back_while_greater sorted_wrt_filter)
  moreover have "view_at (vh_rollback (view_history s) idx) i = view_at (view_history s) i"
    if "i \<le> commit_idx s" for i
    using vh.at_rb [OF ok, of idx i] that assms(2) by simp
  then have "safe_step s t" using assms by (auto simp: safe_step_def call_safe_def)
  ultimately show ?thesis by simp
qed

lemma keeps_rollback:
  assumes "idx \<le> last_idx s"
  shows "res_all (keeps s) (rollback env idx s)"
proof (cases "raft_inv s \<and> commit_idx s \<le> idx")
  case True
  let ?tx = "\<lparr>tx_view = get_term_internal s idx, tx_seqno = idx\<rparr>"
  let ?t = "s\<lparr>ext_calls := ext_calls s @ [StoreRollback ?tx (current_view s), LedgerTruncate idx],
           last_idx := idx, view_history := vh_rollback (view_history s) idx,
           committable_indices := pop_back_while (\<lambda>i. i > idx) (committable_indices s)\<rparr>"
  have t: "raft_inv ?t \<and> safe_step s ?t"
    using True assms by (intro rollback_log_part [where tx = ?tx]) auto
  then have kt: "keeps s ?t" by (simp add: keeps_def)
  let ?u = "rollback_retirement idx ?t"
  have "keeps s ?u" using kp.rel_trans [OF kt frame_keeps [OF frame_rollback_retirement]] .
  moreover have "frame_log ?u (?u\<lparr>configurations := c\<rparr>)" for c by (simp add: frame_log_refl)
  ultimately have ku: "keeps s (?u\<lparr>configurations := c\<rparr>)" for c
    using frame_keeps kp.rel_trans by blast
  then have "res_all (keeps s) (create_and_remove_node_state env (?u\<lparr>configurations := c\<rparr>))" for c
    by (rule kp.then_rel) (rule frame_res_keeps [OF frame_create])
  then show ?thesis
    using True ku by (simp add: rollback_def log_call_def Let_def)
next
  case False
  then show ?thesis
  proof (cases "raft_inv s")
    case True
    then show ?thesis using False by (simp add: rollback_def kp.rel_refl)
  next
    case False
    then show ?thesis by (cases "rollback env idx s") (auto simp: keeps_def)
  qed
qed

lemma keeps_commit_log_part:
  assumes "idx \<le> last_idx s" "commit_idx s < idx"
  shows "keeps s ((compact_committable_indices idx s)\<lparr>commit_idx := idx\<rparr>)"
  using assms
  by (auto simp: keeps_def raft_inv_def safe_step_def compact_committable_indices_def
      dropWhile_le_filter sorted_wrt_filter)

lemma keeps_commit_call:
  assumes "commit_idx s = idx"
  shows "keeps s (log_call (StoreCompact idx) s)" "keeps s (log_call (LedgerCommit idx) s)"
  using assms
  by (auto simp: keeps_def log_call_def raft_inv_def safe_step_def call_safe_def)

lemma frame_compact_hooks:
  "frame_log s (fold (\<lambda>(seqno, ns). set_retired_committed seqno ns) hs s)"
  by (rule fl.fold_rel) (auto intro: frame_set_retired_committed)

lemma keeps_configurations: "keeps s (s\<lparr>configurations := c\<rparr>)"
  by (intro frame_keeps) (simp add: frame_log_refl)

lemma keeps_compact_configurations: "res_all (keeps s) (compact_configurations env idx s)"
proof -
  have "res_all (keeps s) (bind_res (create_and_remove_node_state env (s\<lparr>configurations := c\<rparr>))
      (\<lambda>t. if is_primary t then Ok (log_call CleanupRetiredNodes t) else Ok t))" for c
    by (rule kp.then_rel [OF keeps_configurations kp.bind [OF frame_res_keeps [OF frame_create]]])
      (auto intro!: frame_keeps frame_log_call frame_log_refl)
  then show ?thesis by (simp add: compact_configurations_def keeps_configurations Let_def)
qed

lemma frame_retire_on_commit: "frame_log s (retire_on_commit idx s)"
  by (auto simp: retire_on_commit_def frame_log_refl frame_become_retired split: option.splits)

lemma frame_store_compact: "frame_log (log_call (StoreCompact idx) s) (store_compact env idx s)"
  by (simp add: store_compact_def frame_compact_hooks)

lemma commit_idx_frame: "frame_log s t \<Longrightarrow> commit_idx t = commit_idx s"
  by (simp add: frame_log_def)

lemma keeps_commit: "res_all (keeps s) (commit env idx s)"
proof (cases "idx \<le> last_idx s \<and> commit_idx s < idx")
  case True
  define s1 where "s1 = (compact_committable_indices idx s)\<lparr>commit_idx := idx\<rparr>"
  define s2 where "s2 = retire_on_commit idx s1"
  define s3 where "s3 = store_compact env idx s2"
  define s4 where "s4 = log_call (LedgerCommit idx) s3"
  have f2: "frame_log s1 s2" by (simp add: s2_def frame_retire_on_commit)
  then have c2: "commit_idx s2 = idx" by (simp add: commit_idx_frame s1_def)
  have f3: "frame_log (log_call (StoreCompact idx) s2) s3" by (simp add: s3_def frame_store_compact)
  then have c3: "commit_idx s3 = idx" using c2 by (simp add: commit_idx_frame log_call_def)
  have "keeps s s1" using True keeps_commit_log_part by (simp add: s1_def)
  also have "keeps s1 s2" by (rule frame_keeps [OF f2])
  also have "keeps s2 (log_call (StoreCompact idx) s2)" by (rule keeps_commit_call [OF c2])
  also have "keeps \<dots> s3" by (rule frame_keeps [OF f3])
  also have "keeps s3 s4" unfolding s4_def by (rule keeps_commit_call [OF c3])
  finally have "keeps s s4" .
  then have "res_all (keeps s) (bind_res (run_commit_callbacks idx s4) (compact_configurations env idx))"
    by (rule kp.then_rel) (rule kp.bind [OF frame_res_keeps [OF frame_callbacks] keeps_compact_configurations])
  then show ?thesis
    using True by (simp add: commit_def Let_def s1_def s2_def s3_def s4_def)
qed (auto simp: commit_def kp.rel_refl)

lemma keeps_commit_if_possible: "res_all (keeps s) (commit_if_possible env idx s)"
  by (auto simp: commit_if_possible_def kp.rel_refl intro: keeps_commit split: option.splits)

lemma keeps_update_commit: "res_all (keeps s) (update_commit env s)"
  by (auto simp: update_commit_def kp.rel_refl intro: keeps_commit
      split: option.splits sum.splits)

lemma res_keepsI: "(raft_inv s \<Longrightarrow> res_all (keeps s) r) \<Longrightarrow> res_all (keeps s) r"
  by (cases "raft_inv s"; cases r) (auto simp: keeps_def)

lemma keeps_fields [simp]:
  "keeps s (t\<lparr>current_view := v\<rparr>) = keeps s t" "keeps s (t\<lparr>voted_for := n\<rparr>) = keeps s t"
  "keeps s (t\<lparr>is_new_follower := b\<rparr>) = keeps s t" "keeps s (t\<lparr>votes_for_me := m\<rparr>) = keeps s t"
  "keeps s (t\<lparr>leadership_state := l\<rparr>) = keeps s t" "keeps s (t\<lparr>leader_id := n\<rparr>) = keeps s t"
  "keeps s (t\<lparr>timeout_elapsed := e\<rparr>) = keeps s t" "keeps s (t\<lparr>election_timeout := e\<rparr>) = keeps s t"
  "keeps s (t\<lparr>all_other_nodes := a\<rparr>) = keeps s t" "keeps s (t\<lparr>should_sign := b\<rparr>) = keeps s t"
  "keeps s (t\<lparr>entry_count := c\<rparr>) = keeps s t" "keeps s (t\<lparr>entry_size_not_limited := c\<rparr>) = keeps s t"
  "keeps s (t\<lparr>rand_draws := d\<rparr>) = keeps s t"
  "keeps s (t\<lparr>entries_batch_size := c\<rparr>) = keeps s t" "keeps s (t\<lparr>batch_window_sum := z\<rparr>) = keeps s t"
  "keeps (s\<lparr>timeout_elapsed := e\<rparr>) t = keeps s t"
  by (simp_all add: keeps_def raft_inv_def safe_step_def)

section \<open>Elections\<close>

text \<open>
  What a relation between states must say of the pieces of an election to hold of the mutually
  recursive \<^verbatim>\<open>add_vote_for_me\<close> and \<^verbatim>\<open>become_candidate\<close>.
\<close>

locale role_rel = step_rel +
  assumes rel_record_vote: "rel s (record_vote n s)"
    and rel_start_candidacy: "rel s (start_candidacy env s)"
    and rel_start_pre_vote: "rel s (restart_election_timeout env (reset_votes_for_me
          (s\<lparr>leadership_state := PreVoteCandidate, leader_id := None\<rparr>)))"
    and rel_become_leader: "res_all (rel s) (become_leader env s)"
    and rel_request_vote: "rel s (send_request_vote n s)"
    and rel_request_pre_vote: "rel s (send_request_pre_vote n s)"
begin

lemma add_vote_become_candidate:
  "res_all (rel s) (add_vote_for_me env n s)"
  "res_all (rel s') (become_candidate env s')"
proof (induction env n s and env s' rule: add_vote_for_me_become_candidate.induct)
  case (1 env n s)
  then show ?case
    by (subst add_vote_for_me.simps)
      (auto intro: rel_refl rel_record_vote then_rel rel_become_leader split: leadership_state.splits)
next
  case (2 env s)
  show ?case
  proof (cases "configurations s = []")
    case False
    then have "res_all (rel (start_candidacy env s)) (add_vote_for_me env (node_id s) (start_candidacy env s))"
      by (rule 2)
    then have "res_all (rel s) (bind_res (add_vote_for_me env (node_id s) (start_candidacy env s))
        (\<lambda>s2. Ok (fold send_request_vote (other_nodes_in_active_configs s2) s2)))"
      by (rule bind [OF then_rel [OF rel_start_candidacy]]) (auto intro: fold_rel rel_request_vote)
    then show ?thesis by (subst become_candidate.simps) (simp add: rel_refl)
  qed (subst become_candidate.simps, simp add: rel_refl)
qed

lemma become_pre_vote: "res_all (rel s) (become_pre_vote_candidate env s)"
proof (cases "configurations s = []")
  case False
  let ?s1 = "restart_election_timeout env (reset_votes_for_me
              (s\<lparr>leadership_state := PreVoteCandidate, leader_id := None\<rparr>))"
  have "res_all (rel s) (add_vote_for_me env (node_id ?s1) ?s1)"
    by (rule then_rel [OF rel_start_pre_vote add_vote_become_candidate(1)])
  then have "res_all (rel s) (bind_res (add_vote_for_me env (node_id ?s1) ?s1)
      (\<lambda>s2. Ok (fold send_request_pre_vote (other_nodes_in_active_configs s2) s2)))"
    by (rule bind) (auto intro: fold_rel rel_request_pre_vote)
  then show ?thesis using False by (simp add: become_pre_vote_candidate_def Let_def)
qed (simp add: become_pre_vote_candidate_def rel_refl)

end

lemma keeps_start_candidacy: "keeps s (start_candidacy env s)"
  by (simp add: start_candidacy_def reset_votes_for_me_def restart_election_timeout_def
      reset_last_ack_timeouts_def Let_def kp.rel_refl)

lemma keeps_start_pre_vote: "keeps s (restart_election_timeout env (reset_votes_for_me
    (s\<lparr>leadership_state := PreVoteCandidate, leader_id := None\<rparr>)))"
  by (simp add: reset_votes_for_me_def restart_election_timeout_def kp.rel_refl)

lemma keeps_become_aware: "keeps s (become_aware_of_new_term env t s)"
  by (simp add: become_aware_of_new_term_def become_follower_def reset_votes_for_me_def
      restart_election_timeout_def reset_last_ack_timeouts_def kp.rel_refl)

lemma frame_leader_fields: "frame_log s (reset_last_ack_timeouts
    (s\<lparr>leadership_state := Leader, leader_id := l, should_sign := True, timeout_elapsed := 0\<rparr>))"
  by (simp add: reset_last_ack_timeouts_def frame_log_refl)

lemma keeps_become_leader: "res_all (keeps s) (become_leader env s)"
proof (rule res_keepsI)
  assume inv: "raft_inv s"
  have "res_all (keeps s) (rollback env (last_committable_index s) s)"
    by (rule keeps_rollback) (rule raft_inv_lci [OF inv])
  then have r: "res_all (keeps s) (if commit_idx s > 0 then rollback env (last_committable_index s) s
      else Ok (log_call (StoreInitialiseTerm (current_view s)) s))"
    by (auto intro!: frame_keeps frame_log_call simp: removes_def)
  have u: "res_all (keeps t) (if other_nodes_in_active_configs t = [] then update_commit env t else Ok t)" for t
    by (simp add: keeps_update_commit kp.rel_refl)
  have f: "res_all (keeps t) (bind_res (for_each (become_leader_send env i) ns t)
      (\<lambda>s4. Ok (log_call CleanupRetiredNodes s4)))" for t i ns
    by (rule kp.bind [OF frame_res_keeps [OF fl.each]])
      (auto simp: removes_def intro!: frame_keeps frame_log_call frame_become_leader_send)
  have g: "res_all (keeps t) (bind_res
      (if other_nodes_in_active_configs t = [] then update_commit env t else Ok t)
      (\<lambda>s3. bind_res (for_each (become_leader_send env (add64 (last_idx s3) 1))
          (map fst (all_other_nodes s3)) s3) (\<lambda>s4. Ok (log_call CleanupRetiredNodes s4))))" for t
    by (rule kp.bind [OF u f])
  show "res_all (keeps s) (become_leader env s)"
    unfolding become_leader_def Let_def
    by (cases "is_retired_committed s"; simp only: if_True if_False res_all.simps kp.rel_refl)
      (rule kp.bind [OF r kp.then_rel [OF frame_keeps [OF frame_leader_fields] g]])
qed

interpretation kr: role_rel keeps
  by unfold_locales
    (auto intro: frame_keeps frame_record_vote keeps_start_candidacy keeps_start_pre_vote
      keeps_become_leader frame_request_vote frame_request_pre_vote)

section \<open>Replication by the leader\<close>

lemma keeps_extend:
  assumes "committable_indices u \<in> {committable_indices s, committable_indices s @ [last_idx s + 1]}"
    and "last_idx u = last_idx s + 1" "commit_idx u = commit_idx s" "view_history u = view_history s"
    and "ext_calls u = ext_calls s @ cs" "\<forall>c\<in>set cs. \<not> removes c" "last_idx s + 1 < max64"
  shows "keeps s u"
proof -
  have "raft_inv u" if "raft_inv s"
    using assms that vh_ok_mono [of "last_idx s + 1" "view_history s" "last_idx u + 1"]
    by (auto simp: raft_inv_def sorted_wrt_append less_Suc_eq_le intro: le_SucI)
  moreover have "safe_step s u"
    using assms by (auto simp: safe_step_def intro: not_removes_safe)
  ultimately show ?thesis by (simp add: keeps_def)
qed

lemma keeps_update_view_history:
  assumes "commit_idx s < idx" "idx \<le> last_idx s + 1"
  shows "res_all (keeps s) (update_view_history idx v s)"
proof (cases "vh_update idx v (view_history s)")
  case (Some h)
  have "raft_inv (s\<lparr>view_history := h\<rparr>)" if "raft_inv s"
    using that vh_ok_update [OF _ _ _ Some, of "last_idx s + 1"] assms by (simp add: raft_inv_def)
  moreover have "safe_step s (s\<lparr>view_history := h\<rparr>)"
    using view_at_update_before [OF Some] assms by (simp add: safe_step_def)
  ultimately show ?thesis using Some by (simp add: update_view_history_def keeps_def)
qed (simp add: update_view_history_def kp.rel_refl)

lemma frame_committable:
  "frame_log s t \<Longrightarrow> frame_log (s\<lparr>committable_indices := c\<rparr>) (t\<lparr>committable_indices := c\<rparr>)"
  by (simp add: frame_log_def)

lemma frame_replicate_committable:
  "frame_log (s\<lparr>committable_indices := committable_indices s @ [idx]\<rparr>) (replicate_committable idx s)"
proof -
  define s1 where "s1 = (if membership_state s = Retired \<and> retirement_phase s = Some Ordered
                then become_retired idx Signed s else s)"
  have f: "frame_log s s1" by (simp add: s1_def frame_log_refl frame_become_retired)
  then have "committable_indices s1 = committable_indices s" by (simp add: frame_log_def)
  then have "frame_log (s\<lparr>committable_indices := committable_indices s @ [idx]\<rparr>)
      (s1\<lparr>committable_indices := committable_indices s1 @ [idx]\<rparr>)"
    using frame_committable [OF f] by simp
  then show ?thesis
    using frame_log_trans [OF _ frame_start_ticking]
    unfolding replicate_committable_def Let_def s1_def [symmetric] by simp
qed

lemma keeps_batch_size: "keeps s (update_batch_size s)"
  by (simp add: update_batch_size_def Let_def kp.rel_refl)

lemma keeps_send_all: "res_all (keeps s) (for_each (send_next_entries env) ns s)"
  by (rule frame_res_keeps [OF fl.each]) (rule frame_send_next)

lemma keeps_put_entry:
  assumes "be_index be = last_idx s + 1" "last_idx s + 1 < max64"
  shows "keeps s (put_entry be s)" "last_idx (put_entry be s) = last_idx s + 1"
    "commit_idx (put_entry be s) = commit_idx s"
proof -
  define s2 where "s2 = (if be_globally_committable be then replicate_committable (be_index be) s else s)"
  have f: "frame_log (if be_globally_committable be
      then s\<lparr>committable_indices := committable_indices s @ [be_index be]\<rparr> else s) s2"
    by (simp add: s2_def frame_log_refl frame_replicate_committable)
  then obtain cs where cs: "ext_calls s2 = ext_calls s @ cs" "\<forall>c\<in>set cs. \<not> removes c"
    by (auto simp: frame_log_def split: if_splits)
  show "last_idx (put_entry be s) = last_idx s + 1" "commit_idx (put_entry be s) = commit_idx s"
    using f assms(1) by (auto simp: put_entry_def Let_def s2_def [symmetric] log_call_def frame_log_def
        split: if_splits)
  show "keeps s (put_entry be s)"
    using f assms cs
    by (intro keeps_extend [where cs = "cs @ [LedgerPutEntry (be_data be)
          (be_globally_committable be) (current_view s2) (be_index be)]"])
      (auto simp: put_entry_def Let_def s2_def [symmetric] log_call_def frame_log_def split: if_splits)
qed

lemma keeps_replicate_entry:
  assumes "be_index be = last_idx s + 1" "last_idx s + 1 < max64"
  shows "res_all (keeps s) (replicate_entry env be s)"
proof -
  have u: "res_all (keeps t) (bind_res (update_view_history (be_index be) v t) (\<lambda>s5.
        if entry_size_not_limited s5 \<ge> append_entries_size_limit then
          let s6 = (update_batch_size s5)\<lparr>entry_count := 0, entry_size_not_limited := 0\<rparr>
          in for_each (send_next_entries env) (map fst (all_other_nodes s6)) s6
        else Ok s5))" if "commit_idx t < be_index be" "be_index be \<le> last_idx t + 1" for t v
    unfolding Let_def
    by (rule kp.bind [OF keeps_update_view_history [OF that]])
      (auto intro!: kp.rel_refl kp.then_rel [OF _ keeps_send_all] simp: keeps_batch_size)
  show ?thesis
    unfolding replicate_entry_def
  proof (rule kp.bind_then [OF frame_res_keeps [OF frame_hooks]])
    fix t assume k: "keeps s t" and h: "for_each (call_hook env) (be_hooks be) s = Ok t"
    have f: "frame_log s t" using frame_hooks [of s env "be_hooks be"] h by simp
    let ?p = "put_entry be t"
    let ?s4 = "?p\<lparr>entry_size_not_limited := add64 (entry_size_not_limited ?p) (length (be_data be)),
                   entry_count := add64 (entry_count ?p) 1\<rparr>"
    have idx: "be_index be = last_idx t + 1" "last_idx t + 1 < max64" "commit_idx t = commit_idx s"
      using assms f by (simp_all add: frame_log_def)
    have k4: "keeps s ?s4" using kp.rel_trans [OF k keeps_put_entry(1) [OF idx(1,2)]] by simp
    show "res_all (keeps s) (let s3 = put_entry be t;
           s4 = s3\<lparr>entry_size_not_limited := add64 (entry_size_not_limited s3) (length (be_data be)),
                   entry_count := add64 (entry_count s3) 1\<rparr>
       in bind_res (update_view_history (be_index be) (current_view s4) s4) (\<lambda>s5.
            if entry_size_not_limited s5 \<ge> append_entries_size_limit then
              let s6 = (update_batch_size s5)\<lparr>entry_count := 0, entry_size_not_limited := 0\<rparr>
              in for_each (send_next_entries env) (map fst (all_other_nodes s6)) s6
            else Ok s5))"
    proof (rule res_keepsI)
      assume "raft_inv s"
      then have "commit_idx t \<le> last_idx t" using k by (simp add: keeps_def raft_inv_def)
      then show ?thesis
        unfolding Let_def [of "put_entry be t"] Let_def [of ?s4]
        using idx keeps_put_entry(2,3) [OF idx(1,2)] by (intro kp.then_rel [OF k4 u]) simp_all
    qed
  qed
qed

lemma keeps_replicate_loop:
  "\<forall>be\<in>set entries. be_index be < max64 \<Longrightarrow> res_all (keeps s) (snd (replicate_loop env entries s))"
proof (induction entries arbitrary: s)
  case (Cons be bes)
  show ?case
  proof (rule res_keepsI)
    assume inv: "raft_inv s"
    show "res_all (keeps s) (snd (replicate_loop env (be # bes) s))"
    proof (cases "be_index be = add64 (last_idx s) 1")
      case True
      have "be_index be = last_idx s + 1"
        using True inv by (simp add: raft_inv_def add64_no_wrap)
      then have "res_all (keeps s) (replicate_entry env be s)"
        using Cons.prems by (intro keeps_replicate_entry) auto
      then show ?thesis
        using True Cons by (auto split: aft_res.splits intro: kp.then_rel)
    qed (simp add: kp.rel_refl)
  qed
qed (simp add: keeps_update_commit kp.rel_refl)

lemma keeps_replicate_batch:
  assumes "\<forall>be\<in>set entries. be_index be < max64"
  shows "res_all (keeps s) (snd (replicate_batch env entries v s))"
  using keeps_replicate_loop [OF assms] keeps_rollback [of "last_idx s" s env]
  by (simp add: replicate_batch_def kp.rel_refl)

section \<open>AppendEntries at a follower\<close>

text \<open>Calls that leave the fields of the log, the view and the vote as they are.\<close>

definition same_log :: "aft \<Rightarrow> aft \<Rightarrow> bool" where
  "same_log s t \<longleftrightarrow> node_id t = node_id s \<and> last_idx t = last_idx s \<and> commit_idx t = commit_idx s \<and>
     committable_indices t = committable_indices s \<and> view_history t = view_history s \<and>
     current_view t = current_view s \<and> voted_for t = voted_for s"

interpretation sl: step_rel same_log
  by unfold_locales (auto simp: same_log_def)

lemma frame_same: "frame_log s t \<Longrightarrow> same_log s t"
  by (simp add: same_log_def frame_log_def)

lemma frame_res_same: "res_all (frame_log s) r \<Longrightarrow> res_all (same_log s) r"
  using frame_same by (cases r) auto

lemma same_log_call: "same_log s (log_call c s)"
  by (simp add: same_log_def log_call_def)

lemma same_compact_configurations: "res_all (same_log s) (compact_configurations env idx s)"
proof -
  have c: "same_log s (s\<lparr>configurations := c\<rparr>)" for c by (simp add: same_log_def)
  have "res_all (same_log s) (bind_res (create_and_remove_node_state env (s\<lparr>configurations := c\<rparr>))
      (\<lambda>t. if is_primary t then Ok (log_call CleanupRetiredNodes t) else Ok t))" for c
    by (rule sl.then_rel [OF c sl.bind [OF frame_res_same [OF frame_create]]])
      (simp add: same_log_call sl.rel_refl)
  then show ?thesis by (simp add: compact_configurations_def c Let_def)
qed

lemma commit_effect:
  assumes "idx \<le> last_idx s" "commit_idx s < idx"
  shows "res_all (same_log ((compact_committable_indices idx s)\<lparr>commit_idx := idx\<rparr>)) (commit env idx s)"
proof -
  define s1 where "s1 = (compact_committable_indices idx s)\<lparr>commit_idx := idx\<rparr>"
  define s2 where "s2 = retire_on_commit idx s1"
  define s3 where "s3 = store_compact env idx s2"
  define s4 where "s4 = log_call (LedgerCommit idx) s3"
  have "same_log s1 s2" by (simp add: s2_def frame_same frame_retire_on_commit)
  moreover have "same_log s2 s3"
    using sl.rel_trans [OF same_log_call frame_same [OF frame_store_compact]] by (simp add: s3_def)
  moreover have "same_log s3 s4" by (simp add: s4_def same_log_call)
  ultimately have "same_log s1 s4" by (meson sl.rel_trans)
  then have "res_all (same_log s1) (bind_res (run_commit_callbacks idx s4) (compact_configurations env idx))"
    by (rule sl.then_rel) (rule sl.bind [OF frame_res_same [OF frame_callbacks] same_compact_configurations])
  then show ?thesis
    using assms by (simp add: commit_def Let_def s1_def s2_def s3_def s4_def)
qed

text \<open>Committing changes the commit index and the committable indices only.\<close>

definition same_entries :: "aft \<Rightarrow> aft \<Rightarrow> bool" where
  "same_entries s t \<longleftrightarrow> node_id t = node_id s \<and> last_idx t = last_idx s \<and>
     view_history t = view_history s \<and> current_view t = current_view s \<and> voted_for t = voted_for s"

interpretation se: step_rel same_entries
  by unfold_locales (auto simp: same_entries_def)

lemma same_log_entries: "same_log s t \<Longrightarrow> same_entries s t"
  by (simp add: same_entries_def same_log_def)

lemma commit_cases:
  "res_all (\<lambda>t. t = s \<or> idx \<le> last_idx s \<and> commit_idx s < idx \<and>
     same_log ((compact_committable_indices idx s)\<lparr>commit_idx := idx\<rparr>) t) (commit env idx s)"
proof (cases "idx \<le> last_idx s \<and> commit_idx s < idx")
  case True
  then show ?thesis using commit_effect by (auto intro: res_all_mono)
qed (auto simp: commit_def)

lemma same_commit: "res_all (same_entries s) (commit env idx s)"
  by (rule res_all_mono [OF commit_cases])
    (auto simp: same_entries_def same_log_def compact_committable_indices_def)

lemma same_commit_if_possible: "res_all (same_entries s) (commit_if_possible env idx s)"
  by (auto simp: commit_if_possible_def se.rel_refl intro: same_commit split: option.splits)

lemma same_update_commit: "res_all (same_entries s) (update_commit env s)"
  by (auto simp: update_commit_def se.rel_refl intro: same_commit split: option.splits sum.splits)

lemma rollback_last_idx: "rollback env idx s = Ok t \<Longrightarrow> commit_idx s \<le> idx \<Longrightarrow> last_idx t = idx \<and> commit_idx t = commit_idx s"
proof -
  assume ok: "rollback env idx s = Ok t" and "commit_idx s \<le> idx"
  have f: "frame_log u v" if "create_and_remove_node_state env u = Ok v" for u v
    using frame_create [of u env] that by simp
  have "last_idx (rollback_retirement idx u) = last_idx u"
    "commit_idx (rollback_retirement idx u) = commit_idx u" for u
    using frame_rollback_retirement [of u idx] by (simp_all add: frame_log_def)
  then show ?thesis
    using ok \<open>commit_idx s \<le> idx\<close>
    by (auto simp: rollback_def Let_def log_call_def frame_log_def split: if_splits dest!: f)
qed

text \<open>
  A well-formed AppendEntries names an index that is not the last of its type, and no view for its
  last entry only when it is the heartbeat of a leader whose log is empty.
\<close>

definition ae_wf :: "append_entries \<Rightarrow> bool" where
  "ae_wf r \<longleftrightarrow> ae_idx r < max64 \<and>
     (ae_term_of_idx r = VIEW_UNKNOWN \<longrightarrow>
        ae_prev_idx r = 0 \<and> ae_idx r = 0 \<and> ae_leader_commit_idx r = 0)"

text \<open>
  What \<^verbatim>\<open>CFTExecutionWrapper::apply\<close> (\<^verbatim>\<open>src/kv/deserialise.h\<close>) promises: an entry that
  applies has the view and the index that consensus expected.
\<close>

definition env_ok :: "raft_env \<Rightarrow> bool" where
  "env_ok env \<longleftrightarrow> (\<forall>entry po tx ds res.
     deserialize env entry po tx = Some ds \<longrightarrow> ew_apply ds = Some res \<longrightarrow> res \<noteq> APPLY_FAIL \<longrightarrow>
     ew_term ds = tx_view tx \<and> ew_index ds = tx_seqno tx)"

definition ds_ok :: "append_entries \<Rightarrow> exec_wrapper \<Rightarrow> bool" where
  "ds_ok r ds \<longleftrightarrow> (\<forall>res. ew_apply ds = Some res \<longrightarrow> res \<noteq> APPLY_FAIL \<longrightarrow> ew_term ds = ae_term_of_idx r)"

text \<open>
  While a batch executes, either nothing after its previous index is committed or its view is already
  in the history, so that recording the view again changes nothing.
\<close>

definition batch_ok :: "append_entries \<Rightarrow> aft \<Rightarrow> bool" where
  "batch_ok r s \<longleftrightarrow> ae_prev_idx r \<le> last_idx s \<and>
     (if ae_term_of_idx r = VIEW_UNKNOWN then commit_idx s = 0
      else commit_idx s \<le> ae_prev_idx r \<or> ae_term_of_idx r \<le> length (view_history s))"

lemma keeps_record_again:
  assumes "v \<le> length (view_history s)"
  shows "res_all (keeps s) (update_view_history idx v s)"
proof (cases "vh_update idx v (view_history s)")
  case (Some h)
  then show ?thesis
    using vh_update_SomeD [OF Some] assms kp.rel_refl [of s] by (simp add: update_view_history_def)
qed (simp add: update_view_history_def kp.rel_refl)

lemma update_view_history_OkD:
  "update_view_history idx v s = Ok t \<Longrightarrow>
     last_idx t = last_idx s \<and> v \<le> length (view_history t) \<and> commit_idx t = commit_idx s"
  by (auto simp: update_view_history_def length_vh_update split: option.splits)

lemma keeps_record_batch_view:
  assumes "batch_ok r s" "last_idx s < max64" "ae_term_of_idx r \<noteq> VIEW_UNKNOWN"
  shows "res_all (keeps s) (update_view_history (add64 (ae_prev_idx r) 1) (ae_term_of_idx r) s)"
proof (cases "ae_term_of_idx r \<le> length (view_history s)")
  case False
  have "add64 (ae_prev_idx r) 1 = ae_prev_idx r + 1"
    using assms(1,2) by (simp add: batch_ok_def add64_no_wrap)
  then show ?thesis
    using False assms(1,3) by (intro keeps_update_view_history) (auto simp: batch_ok_def)
qed (rule keeps_record_again)

lemma keeps_finish:
  assumes "batch_ok r s" "ae_wf r"
  shows "res_all (keeps s) (execute_append_entries_finish env r from s)"
  unfolding execute_append_entries_finish_def Let_def
proof (rule kp.bind_then [OF keeps_commit_if_possible])
  fix t assume k: "keeps s t" and c: "commit_if_possible env (ae_leader_commit_idx r) s = Ok t"
  have ack: "res_all (keeps u) (Ok (send_ae_response_ack from r u))" for u
    by (simp add: frame_keeps frame_ack)
  have "res_all (keeps t)
      (if ae_term_of_idx r = VIEW_UNKNOWN then update_view_history 1 (ae_term r) t
       else if ae_idx r > last_committable_index t
         then update_view_history (add64 (last_committable_index t) 1) (ae_term_of_idx r) t
       else Ok t)"
  proof (rule res_keepsI)
    assume inv: "raft_inv t"
    then have l: "commit_idx t \<le> last_committable_index t" "last_committable_index t \<le> last_idx t"
      "last_idx t < max64" using raft_inv_lci by (auto simp: raft_inv_def)
    have "ae_term_of_idx r = VIEW_UNKNOWN \<Longrightarrow> commit_idx t = 0"
      using c assms by (simp add: ae_wf_def batch_ok_def commit_if_possible_def)
    then show ?thesis
      using l by (auto intro!: keeps_update_view_history kp.rel_refl simp: add64_no_wrap)
  qed
  then show "res_all (keeps s) (bind_res
      (if ae_term_of_idx r = VIEW_UNKNOWN then update_view_history 1 (ae_term r) t
       else if ae_idx r > last_committable_index t
         then update_view_history (add64 (last_committable_index t) 1) (ae_term_of_idx r) t
       else Ok t) (\<lambda>s2. Ok (send_ae_response_ack from r s2)))"
    by (intro kp.then_rel [OF k] kp.bind) (auto simp: frame_keeps frame_ack)
qed

lemma execute_signature_ok:
  assumes "batch_ok r s" "ae_wf r" "ae_term_of_idx r \<noteq> VIEW_UNKNOWN" "ew_term ds = ae_term_of_idx r"
    and "last_idx s + 1 < max64"
    and "frame_log (s\<lparr>last_idx := last_idx s + 1\<rparr>) t"
  shows "res_all (keeps s) (execute_signature env r ds (last_idx s + 1) t)"
    "execute_signature env r ds (last_idx s + 1) t = Ok u \<Longrightarrow>
       batch_ok r u \<and> last_idx u = last_idx s + 1"
proof -
  define t1 where "t1 = (if membership_state t = Retired \<and> retirement_phase t = Some Ordered
                then become_retired (last_idx s + 1) Signed t else t)"
  define t2 where "t2 = t1\<lparr>committable_indices := committable_indices t1 @ [last_idx s + 1]\<rparr>"
  have f1: "frame_log (s\<lparr>last_idx := last_idx s + 1\<rparr>) t1"
    unfolding t1_def using assms(6) frame_log_trans [OF assms(6) frame_become_retired] by simp
  then obtain cs where cs: "ext_calls t1 = ext_calls s @ cs" "\<forall>c\<in>set cs. \<not> removes c"
    by (auto simp: frame_log_def)
  have k: "keeps s t2"
    using f1 cs assms(5) by (intro keeps_extend [where cs = cs]) (auto simp: t2_def frame_log_def)
  have b: "batch_ok r t2" "last_idx t2 < max64"
    using f1 assms(1,5) by (simp_all add: t2_def frame_log_def batch_ok_def)
  have e: "execute_signature env r ds (last_idx s + 1) t =
      bind_res (update_view_history (add64 (ae_prev_idx r) 1) (ae_term_of_idx r) t2)
        (commit_if_possible env (ae_leader_commit_idx r))"
    using assms(3,4)
    by (auto simp: execute_signature_def Let_def t1_def t2_def VIEW_UNKNOWN_def)
  show "res_all (keeps s) (execute_signature env r ds (last_idx s + 1) t)"
    unfolding e by (rule kp.then_rel [OF k])
      (rule kp.bind [OF keeps_record_batch_view [OF b assms(3)] keeps_commit_if_possible])
  assume "execute_signature env r ds (last_idx s + 1) t = Ok u"
  then obtain v where v: "update_view_history (add64 (ae_prev_idx r) 1) (ae_term_of_idx r) t2 = Ok v"
    "commit_if_possible env (ae_leader_commit_idx r) v = Ok u"
    unfolding e by (auto simp: bind_res_Ok_iff)
  have "same_entries v u" using same_commit_if_possible [of v env "ae_leader_commit_idx r"] v(2) by simp
  then have "last_idx u = last_idx t2" "ae_term_of_idx r \<le> length (view_history u)"
    using update_view_history_OkD [OF v(1)] by (auto simp: same_entries_def)
  moreover have "last_idx t2 = last_idx s + 1" using f1 by (simp add: t2_def frame_log_def)
  ultimately show "batch_ok r u \<and> last_idx u = last_idx s + 1"
    using assms(1,3) by (simp add: batch_ok_def)
qed

lemma execute_append_entry_ok:
  assumes "batch_ok r s" "ae_wf r" "ae_term_of_idx r \<noteq> VIEW_UNKNOWN" "ew_term ds = ae_term_of_idx r"
    and "last_idx s + 1 < max64"
  shows "res_all (keeps s) (execute_append_entry env r ds res (last_idx s + 1) s)"
    "execute_append_entry env r ds res (last_idx s + 1) s = Ok u \<Longrightarrow>
       batch_ok r u \<and> last_idx u = last_idx s + 1"
proof -
  let ?i = "last_idx s + 1" let ?s0 = "s\<lparr>last_idx := last_idx s + 1\<rparr>"
  define s3 where "s3 = (\<lambda>s1. log_call (LedgerPutEntry (ew_entry ds) (res = PASS_SIGNATURE) (ew_term ds)
      (ew_index ds)) (if res = PASS_SIGNATURE then start_ticking_if_necessary s1 else s1))"
  have e: "execute_append_entry env r ds res ?i s =
      bind_res (for_each (call_hook env) (ew_hooks ds) ?s0) (\<lambda>s1.
        if res = PASS_SIGNATURE then execute_signature env r ds ?i (s3 s1)
        else if res = PASS \<or> res = PASS_ENCRYPTED_PAST_LEDGER_SECRET then Ok (s3 s1)
        else Throw (LogicError ''Unknown ApplyResult value'') (s3 s1))"
    unfolding execute_append_entry_def Let_def s3_def by (rule refl)
  have h: "res_all (frame_log ?s0) (for_each (call_hook env) (ew_hooks ds) ?s0)" by (rule frame_hooks)
  have f3: "frame_log ?s0 (s3 t)" if "frame_log ?s0 t" for t
    using frame_log_trans [OF that frame_start_ticking] that
    by (auto simp: s3_def elim: frame_log_trans intro!: frame_log_trans [OF _ frame_log_call])
  have k: "keeps s t" if "frame_log ?s0 t" for t
    using that assms(5) by (auto simp: frame_log_def intro: keeps_extend)
  show "res_all (keeps s) (execute_append_entry env r ds res ?i s)"
    unfolding e
  proof (rule res_all_bind2 [OF h])
    fix t assume "frame_log ?s0 t"
    then show "res_all (keeps s) (if res = PASS_SIGNATURE then execute_signature env r ds ?i (s3 t)
        else if res = PASS \<or> res = PASS_ENCRYPTED_PAST_LEDGER_SECRET then Ok (s3 t)
        else Throw (LogicError ''Unknown ApplyResult value'') (s3 t))"
      using f3 k execute_signature_ok(1) [OF assms f3] by simp
  qed (rule k)
  assume "execute_append_entry env r ds res ?i s = Ok u"
  then obtain t where t: "for_each (call_hook env) (ew_hooks ds) ?s0 = Ok t"
    "(if res = PASS_SIGNATURE then execute_signature env r ds ?i (s3 t)
      else if res = PASS \<or> res = PASS_ENCRYPTED_PAST_LEDGER_SECRET then Ok (s3 t)
      else Throw (LogicError ''Unknown ApplyResult value'') (s3 t)) = Ok u"
    unfolding e by (auto simp: bind_res_Ok_iff)
  have f: "frame_log ?s0 (s3 t)" using h t(1) by (intro f3) simp
  then have "batch_ok r (s3 t) \<and> last_idx (s3 t) = ?i"
    using assms(1) by (simp add: frame_log_def batch_ok_def)
  then show "batch_ok r u \<and> last_idx u = ?i"
    using t(2) execute_signature_ok(2) [OF assms f] by (auto split: if_splits)
qed

lemma keeps_apply_failed:
  "i = last_idx s + 1 \<Longrightarrow> i < max64 \<Longrightarrow>
     keeps s (send_ae_response_nack from (log_call (LedgerTruncate (sub64 i 1)) s))"
proof -
  assume "i = last_idx s + 1" "i < max64"
  then have "sub64 i 1 = last_idx s" by (simp add: sub64_no_wrap)
  then have "keeps s (log_call (LedgerTruncate (sub64 i 1)) s)"
    by (simp add: keeps_def raft_inv_def safe_step_def call_safe_def log_call_def)
  then show ?thesis by (rule keeps_trans) (rule frame_keeps [OF frame_nack])
qed

lemma keeps_execute_sync:
  assumes "batch_ok r s" "ae_wf r" "acc \<noteq> [] \<Longrightarrow> ae_term_of_idx r \<noteq> VIEW_UNKNOWN"
    and "\<forall>(ds, i)\<in>set acc. ds_ok r ds" "map snd acc = [last_idx s + 1..<last_idx s + 1 + length acc]"
    and "last_idx s + length acc < max64"
  shows "res_all (keeps s) (execute_append_entries_sync env acc from r s)"
  using assms
proof (induction acc arbitrary: s)
  case Nil
  then show ?case by (simp add: keeps_finish)
next
  case (Cons a acc)
  obtain ds i where a: "a = (ds, i)" by fastforce
  have i: "i = last_idx s + 1" and tl: "map snd acc = [last_idx s + 2..<last_idx s + 2 + length acc]"
    using Cons.prems(5) a by (auto simp: upt_rec)
  have lt: "last_idx s + 1 < max64" using Cons.prems(6) by simp
  show ?case
  proof (cases "ew_apply ds")
    case (Some res)
    show ?thesis
    proof (cases "res = APPLY_FAIL")
      case False
      then have "ew_term ds = ae_term_of_idx r" using Cons.prems(4) a Some by (simp add: ds_ok_def)
      note ok = execute_append_entry_ok [OF Cons.prems(1,2) Cons.prems(3) [OF list.simps(3)] this lt,
          folded i]
      have "res_all (keeps u) (execute_append_entries_sync env acc from r u)"
        if "execute_append_entry env r ds res i s = Ok u" for u
        using ok(2) [OF that] i Cons.prems tl a by (intro Cons.IH) auto
      then show ?thesis using a Some False by (simp add: kp.bind [OF ok(1)])
    qed (use a Some i lt keeps_apply_failed in simp)
  qed (use a kp.rel_refl in simp)
qed

text \<open>The state of the loop over the entries of a message: \<open>acc\<close> holds what follows the log.\<close>

definition loop_ok :: "append_entries \<Rightarrow> index \<Rightarrow> (exec_wrapper \<times> index) list \<Rightarrow> aft \<Rightarrow> bool" where
  "loop_ok r i acc s \<longleftrightarrow>
     commit_idx s \<le> ae_prev_idx r \<and> ae_prev_idx r \<le> last_idx s \<and> ae_prev_idx r < i \<and>
     i \<le> max64 \<and> (acc \<noteq> [] \<longrightarrow> i \<le> ae_idx r + 1) \<and> (\<forall>(ds, j)\<in>set acc. ds_ok r ds) \<and>
     map snd acc = [last_idx s + 1..<last_idx s + 1 + length acc] \<and>
     (if acc = [] then i \<le> last_idx s + 1 else i = last_idx s + 1 + length acc)"

lemma loop_ok_execute:
  assumes "loop_ok r i acc s" "ae_wf r" "raft_inv s"
  shows "res_all (keeps s) (execute_append_entries_sync env acc from r s)"
proof (rule keeps_execute_sync)
  show "batch_ok r s" using assms by (auto simp: loop_ok_def batch_ok_def ae_wf_def)
  show "ae_term_of_idx r \<noteq> VIEW_UNKNOWN" if "acc \<noteq> []"
    using that assms by (auto simp: loop_ok_def ae_wf_def)
  show "last_idx s + length acc < max64"
    using assms by (cases "acc = []") (auto simp: loop_ok_def ae_wf_def raft_inv_def)
qed (use assms in \<open>auto simp: loop_ok_def\<close>)

lemma loop_ok_skip:
  assumes "loop_ok r i acc s" "ae_wf r" "i \<le> ae_idx r" "entry_action r i s = EntrySkip"
  shows "loop_ok r (add64 i 1) acc s"
  using assms by (auto simp: loop_ok_def ae_wf_def entry_action_def add64_no_wrap split: if_splits)

lemma prepare_entry_ok:
  assumes "loop_ok r i acc s" "ae_wf r" "i \<le> ae_idx r"
    and "entry_action r i s = EntryRollback \<or> entry_action r i s = EntryFetch"
  shows "res_all (keeps s) (prepare_entry env r i s)"
    "prepare_entry env r i s = Ok t \<Longrightarrow> commit_idx t \<le> ae_prev_idx r \<and>
       ae_prev_idx r \<le> last_idx t \<and> map snd acc = [last_idx t + 1..<last_idx t + 1 + length acc] \<and>
       i = last_idx t + 1 + length acc"
proof -
  have i: "1 \<le> i" "sub64 i 1 = i - 1"
    using assms(1-3) by (auto simp: loop_ok_def ae_wf_def sub64_no_wrap)
  have roll: "acc = [] \<and> i \<le> last_idx s" if "entry_action r i s = EntryRollback"
    using that assms(1) by (auto simp: entry_action_def loop_ok_def split: if_splits)
  have fetch: "i = last_idx s + 1 + length acc" if "entry_action r i s = EntryFetch"
    using that assms(1) by (auto simp: entry_action_def loop_ok_def split: if_splits)
  have b: "res_all (keeps s) (bind_res (rollback env (i - 1) s) (\<lambda>s1. Ok (s1\<lparr>is_new_follower := False\<rparr>)))"
    if "i \<le> last_idx s"
    using that by (intro kp.bind keeps_rollback) (simp_all add: kp.rel_refl)
  then show "res_all (keeps s) (prepare_entry env r i s)"
    using roll i by (simp add: prepare_entry_def kp.rel_refl)
  have c: "commit_idx s \<le> i - 1" "ae_prev_idx r \<le> i - 1" using assms(1) by (auto simp: loop_ok_def)
  assume "prepare_entry env r i s = Ok t"
  then show "commit_idx t \<le> ae_prev_idx r \<and> ae_prev_idx r \<le> last_idx t \<and>
      map snd acc = [last_idx t + 1..<last_idx t + 1 + length acc] \<and> i = last_idx t + 1 + length acc"
    using assms(1,4) roll fetch i c rollback_last_idx [OF _ c(1), of env]
    by (auto simp: prepare_entry_def bind_res_Ok_iff loop_ok_def split: if_splits)
qed

lemma loop_ok_fetch:
  assumes "loop_ok r i acc s" "ae_wf r" "i \<le> ae_idx r" "ds_ok r ds"
    and "entry_action r i s = EntryRollback \<or> entry_action r i s = EntryFetch"
    and "prepare_entry env r i s = Ok t"
  shows "loop_ok r (add64 i 1) (acc @ [(ds, i)]) t"
  using assms(1-4) prepare_entry_ok(2) [OF assms(1-3,5,6)]
  by (auto simp: loop_ok_def ae_wf_def add64_no_wrap)

lemma env_ok_ds_ok:
  "env_ok env \<Longrightarrow> deserialize env entry po \<lparr>tx_view = ae_term_of_idx r, tx_seqno = i\<rparr> = Some ds \<Longrightarrow> ds_ok r ds"
  by (fastforce simp: env_ok_def ds_ok_def)

lemma keeps_deserialise:
  assumes "env_ok env" "ae_wf r" "loop_ok r i acc s"
  shows "res_all (keeps s) (deserialise_entries env from r i data acc s)"
  using assms
proof (induction env "from" r i data acc s rule: deserialise_entries.induct)
  case (1 env n r i data acc s)
  show ?case
  proof (rule res_keepsI)
    assume inv: "raft_inv s"
    have skip: "res_all (keeps s) (deserialise_entries env n r (add64 i 1) rest acc s)"
      if "i \<le> ae_idx r" "entry_action r i s = EntrySkip" "skip_entry data = Inr rest" for rest
      by (rule 1(1) [OF that 1(4,5) loop_ok_skip [OF 1(6,5) that(1,2)]])
    have fetch: "res_all (keeps s) (bind_res (prepare_entry env r i s) (\<lambda>s1.
               case get_entry data of
                 Inl e \<Rightarrow> Throw (SerError e) s1
               | Inr (entry, rest) \<Rightarrow>
                   (case deserialize env entry (public_only s1)
                           \<lparr>tx_view = ae_term_of_idx r, tx_seqno = i\<rparr> of
                      None \<Rightarrow> Ok (send_ae_response_nack n s1)
                    | Some ds \<Rightarrow>
                        deserialise_entries env n r (add64 i 1) rest (acc @ [(ds, i)]) s1)))"
      if c: "i \<le> ae_idx r" and a: "entry_action r i s = EntryRollback \<or> entry_action r i s = EntryFetch"
    proof (rule kp.bind [OF prepare_entry_ok(1) [OF 1(6,5) c a]])
      fix t assume t: "prepare_entry env r i s = Ok t"
      have "res_all (keeps t) (deserialise_entries env n r (add64 i 1) rest (acc @ [(ds, i)]) t)"
        if g: "get_entry data = Inr (entry, rest)"
          "deserialize env entry (public_only t) \<lparr>tx_view = ae_term_of_idx r, tx_seqno = i\<rparr> = Some ds"
        for entry rest ds
        using a 1(2) [OF c _ t g(1) refl g(2) 1(4,5)] 1(3) [OF c _ t g(1) refl g(2) 1(4,5)]
          loop_ok_fetch [OF 1(6,5) c env_ok_ds_ok [OF 1(4) g(2)] a t] by blast
      then show "res_all (keeps t) (case get_entry data of
                 Inl e \<Rightarrow> Throw (SerError e) t
               | Inr (entry, rest) \<Rightarrow>
                   (case deserialize env entry (public_only t)
                           \<lparr>tx_view = ae_term_of_idx r, tx_seqno = i\<rparr> of
                      None \<Rightarrow> Ok (send_ae_response_nack n t)
                    | Some ds \<Rightarrow>
                        deserialise_entries env n r (add64 i 1) rest (acc @ [(ds, i)]) t))"
        by (auto simp: kp.rel_refl frame_keeps frame_nack split: sum.splits option.splits)
    qed
    show "res_all (keeps s) (deserialise_entries env n r i data acc s)"
      using skip fetch loop_ok_execute [OF 1(6,5) inv]
      by (subst deserialise_entries.simps)
        (auto simp: kp.rel_refl split: entry_action.splits sum.splits)
  qed
qed

section \<open>Handlers\<close>

lemma keeps_recv_append_entries:
  assumes "env_ok env" "ae_wf r"
  shows "res_all (keeps s) (recv_append_entries env from r data s)"
proof (cases "current_view s > ae_term r")
  case False
  define s1 where "s1 = (if current_view s = ae_term r \<and>
                     (leadership_state s = Candidate \<or> leadership_state s = PreVoteCandidate) \<or>
                     current_view s < ae_term r
                  then become_aware_of_new_term env (ae_term r) s else s)"
  define s2 where "s2 = restart_election_timeout env s1"
  define s3 where "s3 = (if leader_id s2 \<noteq> Some from then s2\<lparr>leader_id := Some from\<rparr> else s2)"
  have k1: "keeps s s1" by (simp add: s1_def keeps_become_aware kp.rel_refl)
  have k2: "keeps s s2" unfolding s2_def by (rule keeps_trans [OF k1 frame_keeps [OF frame_restart_timeout]])
  then have k3: "keeps s s3" by (simp add: s3_def)
  have d: "res_all (keeps s3) (deserialise_entries env from r (add64 (ae_prev_idx r) 1) data [] s3)"
    if "commit_idx s3 \<le> ae_prev_idx r" "ae_prev_idx r \<le> last_idx s3"
  proof (rule res_keepsI)
    assume "raft_inv s3"
    then show ?thesis
      using that assms
      by (intro keeps_deserialise) (auto simp: loop_ok_def raft_inv_def add64_no_wrap)
  qed
  have n: "res_all (keeps s) (Ok (send_ae_response_nack from s1))"
    "res_all (keeps s) (send_ae_response_nack_tx from tx s1)" for tx
    using keeps_trans [OF k1 frame_keeps [OF frame_nack]]
      kp.then_rel [OF k1 frame_res_keeps [OF frame_nack_tx]] by simp_all
  show ?thesis
    using False n k3 kp.then_rel [OF k3 d]
    unfolding recv_append_entries_def Let_def s1_def [symmetric] s2_def [symmetric] s3_def [symmetric]
    by simp
qed (simp add: recv_append_entries_def frame_keeps frame_nack)

lemma keeps_set_node: "keeps s (set_node n ns s)"
  by (intro frame_keeps frame_set_node)

lemma keeps_recv_append_entries_response:
  "res_all (keeps s) (recv_append_entries_response env from r s)"
proof -
  have "keeps s (set_node from b (set_node from a s))" for a b
    by (rule keeps_trans [OF keeps_set_node keeps_set_node])
  moreover have "keeps s (become_aware_of_new_term env v (set_node from a s))" for v a
    by (rule keeps_trans [OF keeps_set_node keeps_become_aware])
  moreover have "res_all (keeps s) (update_commit env (set_node from b (set_node from a s)))" for a b
    by (rule kp.then_rel [OF _ keeps_update_commit]) (rule calculation)
  ultimately show ?thesis
    by (auto simp: recv_append_entries_response_def Let_def kp.rel_refl keeps_set_node
        split: option.splits)
qed

lemma keeps_recv_request_vote_unsafe: "keeps s (recv_request_vote_unsafe env from r et s)"
proof -
  define s1 where "s1 = (if current_view s < rv_term r then become_aware_of_new_term env (rv_term r) s else s)"
  have k1: "keeps s s1" by (simp add: s1_def keeps_become_aware kp.rel_refl)
  have v: "keeps s t \<Longrightarrow> keeps s (send_request_vote_response from b e t)" for t b e
    by (rule keeps_trans [OF _ frame_keeps [OF frame_vote_response]])
  have "keeps s (restart_election_timeout env s1)"
    by (rule keeps_trans [OF k1 frame_keeps [OF frame_restart_timeout]])
  then show ?thesis
    using k1 unfolding recv_request_vote_unsafe_def Let_def s1_def [symmetric]
    by (auto intro!: v kp.rel_refl)
qed

lemma keeps_recv_vote_response: "res_all (keeps s) (recv_vote_response env from r et s)"
  by (simp add: recv_vote_response_def kp.rel_refl keeps_become_aware kr.add_vote_become_candidate)

lemma keeps_recv_propose: "res_all (keeps s) (recv_propose_request_vote env from r s)"
  by (simp add: recv_propose_request_vote_def kp.rel_refl kr.add_vote_become_candidate)

lemma keeps_periodic: "res_all (keeps s) (periodic env elapsed s)"
proof -
  let ?s1 = "s\<lparr>timeout_elapsed := timeout_elapsed s + elapsed\<rparr>"
  have k1: "keeps s ?s1" by (simp add: kp.rel_refl)
  have "keeps t (become_follower env (add_ack_timeouts elapsed t))" for t
    by (rule keeps_trans [OF _ frame_keeps [OF frame_become_follower]])
      (simp add: add_ack_timeouts_def kp.rel_refl)
  then have a: "res_all (keeps t) (if \<not> every_active_config_has_a_quorum (add_ack_timeouts elapsed t)
      then Ok (become_follower env (add_ack_timeouts elapsed t)) else Ok (add_ack_timeouts elapsed t))" for t
    by (simp add: add_ack_timeouts_def kp.rel_refl)
  have b: "res_all (keeps ?s1) (if timeout_elapsed ?s1 \<ge> request_timeout ?s1 then
      (for_each (send_next_entries env) (map fst (all_other_nodes (update_batch_size (?s1\<lparr>timeout_elapsed := 0\<rparr>))))
         (update_batch_size (?s1\<lparr>timeout_elapsed := 0\<rparr>))) else Ok ?s1)"
    using kp.then_rel [OF kp.rel_trans [OF _ keeps_batch_size] keeps_send_all, of ?s1 "?s1\<lparr>timeout_elapsed := 0\<rparr>"]
    by (simp add: kp.rel_refl del: map_map)
  have c: "res_all (keeps ?s1) (become_pre_vote_candidate env ?s1)" "res_all (keeps ?s1) (become_candidate env ?s1)"
    by (rule kr.become_pre_vote kr.add_vote_become_candidate)+
  show ?thesis
    unfolding periodic_def Let_def
  proof (rule kp.then_rel [OF k1], cases "leadership_state ?s1 = Leader", goal_cases)
    case 1
    show ?case by (subst if_P [OF 1]) (rule kp.bind [OF b a])
  next
    case 2
    show ?case by (subst if_not_P [OF 2]) (use c kp.rel_refl in auto)
  qed
qed


section \<open>The events of a node\<close>

text \<open>The message is well formed, when it is an AppendEntries.\<close>

definition msg_wf :: "bytes \<Rightarrow> bool" where
  "msg_wf data = (case overlay_append_entries data of Inl e \<Rightarrow> True | Inr (r, rest) \<Rightarrow> ae_wf r)"

lemma keeps_with_msg:
  "(\<And>m payload. r = Inr (m, payload) \<Longrightarrow> res_all (keeps s) (f m payload s)) \<Longrightarrow>
     res_all (keeps s) (with_msg r f s)"
  by (auto simp: with_msg_def kp.rel_refl split: sum.splits)

lemma recv_authenticated_InrD:
  "recv_authenticated env ov from data = Inr (m, payload) \<Longrightarrow> \<exists>rest. ov data = Inr (m, rest)"
  by (auto simp: recv_authenticated_def split: sum.splits option.splits)

lemma keeps_recv_message:
  assumes "env_ok env" "msg_wf data"
  shows "res_all (keeps s) (recv_message env from data s)"
proof -
  have ae: "ae_wf r" if "recv_authenticated env overlay_append_entries from data = Inr (r, payload)" for r payload
    using recv_authenticated_InrD [OF that] assms(2) by (auto simp: msg_wf_def)
  have "res_all (keeps s) (dispatch env t from data s)" for t
    unfolding dispatch_def
    by (auto intro!: keeps_with_msg keeps_recv_append_entries assms(1) ae
        keeps_recv_append_entries_response keeps_recv_vote_response keeps_recv_propose kp.rel_refl
        keeps_recv_request_vote_unsafe
        simp: recv_request_vote_def recv_request_pre_vote_def recv_request_vote_response_def
        recv_request_pre_vote_response_def)
  then have "res_all (keeps s) (catch_all (dispatch env t from data s))" for t
    by (cases "dispatch env t from data s") (metis catch_all.simps res_all.simps)+
  then show ?thesis by (auto simp: recv_message_def kp.rel_refl split: sum.splits)
qed

text \<open>
  A run of one node: messages from the network, ticks of the clock and batches from the store, in any
  order. An event whose handler throws leaves the state the handler had reached; one that never
  returns has no successor.
\<close>

inductive node_step :: "raft_env \<Rightarrow> aft \<Rightarrow> aft \<Rightarrow> bool" for env where
  receive: "msg_wf data \<Longrightarrow> recv_message env from data s = r \<Longrightarrow> r = Ok t \<or> r = Throw e t \<Longrightarrow> node_step env s t"
| tick: "periodic env elapsed s = r \<Longrightarrow> r = Ok t \<or> r = Throw e t \<Longrightarrow> node_step env s t"
| replicated: "\<forall>be\<in>set entries. be_index be < max64 \<Longrightarrow> snd (replicate_batch env entries v s) = r \<Longrightarrow>
    r = Ok t \<or> r = Throw e t \<Longrightarrow> node_step env s t"

inductive_cases node_stepE: "node_step env s t"

lemma node_step_keeps: "env_ok env \<Longrightarrow> node_step env s t \<Longrightarrow> keeps s t"
  using keeps_recv_message keeps_periodic keeps_replicate_batch
  by (elim node_stepE) (metis res_all.simps)+

lemma node_run_keeps: "(node_step env)\<^sup>*\<^sup>* s t \<Longrightarrow> env_ok env \<Longrightarrow> keeps s t"
  by (induction rule: rtranclp_induct) (auto intro: kp.rel_refl keeps_trans node_step_keeps)

section \<open>Properties\<close>

text \<open>
  C5. The log invariant holds along every run of a node: whatever messages (with well-formed
  AppendEntries), clock ticks and batches arrive, in any order, and whether or not their handlers
  throw, the commit index is within the log, the committable indices are increasing and lie between
  the commit index and the end of the log, and the view history is sorted and within the log.
\<close>

theorem node_run_inv:
  assumes "(node_step env)\<^sup>*\<^sup>* s t" "env_ok env" "raft_inv s"
  shows "raft_inv t"
  using node_run_keeps [OF assms(1,2)] assms(3) by (simp add: keeps_def)

lemma sample_env_ok: "env_ok sample_env"
  by (simp add: env_ok_def sample_env_def)

lemma sample_follower_inv: "raft_inv sample_follower"
  by code_simp

lemma sample_run:
  "\<exists>t. (node_step sample_env)\<^sup>*\<^sup>* sample_follower t \<and> commit_idx t = 3 \<and> LedgerCommit 3 \<in> set (ext_calls t)"
proof -
  obtain t where t: "recv_message sample_env ''A'' sample_data sample_follower = Ok t"
    "commit_idx t = 3 \<and> LedgerCommit 3 \<in> set (ext_calls t)"
    using sample_received by (rule res_checkE)
  have "msg_wf sample_data" by code_simp
  then have "node_step sample_env sample_follower t"
    using t(1) by (intro node_step.receive [where e = OutOfRange]) auto
  then show ?thesis using t(2) by blast
qed

theorem node_run_inv_witness:
  "\<exists>t. (node_step sample_env)\<^sup>*\<^sup>* sample_follower t \<and> commit_idx t = 3 \<and> raft_inv t"
  using sample_run node_run_inv [OF _ sample_env_ok sample_follower_inv] by blast

text \<open>
  C1. What a node has committed is stable along every run: the commit index never decreases, the view
  of every committed index stays what it was, and no call on the ledger or the store truncates or
  rolls back to before the commit index of the start, or commits an index outside the range between
  the first and the last commit index.
\<close>

theorem committed_prefix_stable:
  assumes "(node_step env)\<^sup>*\<^sup>* s t" "env_ok env" "raft_inv s"
  shows "commit_idx s \<le> commit_idx t \<and>
     (\<forall>i\<le>commit_idx s. view_at (view_history t) i = view_at (view_history s) i) \<and>
     (\<exists>cs. ext_calls t = ext_calls s @ cs \<and>
        (\<forall>c\<in>set cs. call_safe (commit_idx s) (commit_idx t) c))"
  using node_run_keeps [OF assms(1,2)] assms(3) by (simp_all add: keeps_def safe_step_def)

theorem committed_prefix_stable_witness:
  "\<exists>t. (node_step sample_env)\<^sup>*\<^sup>* sample_follower t \<and> commit_idx sample_follower < commit_idx t \<and>
     view_at (view_history t) 1 = 1 \<and>
     (\<exists>cs. ext_calls t = ext_calls sample_follower @ cs \<and> list_all (call_safe 1 3) cs)"
proof -
  obtain t where t: "(node_step sample_env)\<^sup>*\<^sup>* sample_follower t" "commit_idx t = 3"
    using sample_run by blast
  have v: "commit_idx sample_follower = 1" "view_at (view_history sample_follower) 1 = 1"
    by code_simp+
  show ?thesis
    using t v committed_prefix_stable [OF t(1) sample_env_ok sample_follower_inv]
    by (auto simp: list_all_iff)
qed

end
