(* ===== verification/Raft_Replication.thy ===== *)
theory Raft_Replication
  imports Raft_Safety
begin

text \<open>
  Replication by the leader (\<^verbatim>\<open>src/consensus/aft/raft.h\<close>): the search for the latest index on
  which two logs may agree, the batches into which a suffix of the log is cut, and the index that
  the acknowledgements of the followers allow to commit.
\<close>

section \<open>Where two logs may agree\<close>

lemma view_at_from_start:
  assumes "vh_ok b views" "view_at views i = v" "v \<noteq> VIEW_UNKNOWN" "start_of_view views v \<le> j"
  shows "v \<le> view_at views j"
proof -
  have v: "0 < v" "v \<le> length views"
    using assms view_at_le_length [of views i] by (simp_all add: VIEW_UNKNOWN_def)
  have "views ! (v - 1) \<le> j" using start_of_view_view_at(1) [OF assms(1-3)] assms(4) by simp
  then have "v - 1 < upper_bound views j"
    using upper_bound_sorted_iff [of views "v - 1" j] vh_ok_sorted [OF assms(1)] v by simp
  then show ?thesis by (simp add: view_at_eq)
qed

lemma match_loop_correct:
  assumes "vh_ok b vh"
  shows "\<exists>r. match_loop vh v probe (view_at vh probe) = Some r \<and> r \<le> probe \<and> view_at vh r \<le> v \<and>
           (\<forall>j. r < j \<and> j \<le> probe \<longrightarrow> v < view_at vh j)"
proof (induction probe rule: less_induct)
  case (less probe)
  show ?case
  proof (cases "view_at vh probe > v")
    case True
    then have known: "view_at vh probe \<noteq> VIEW_UNKNOWN" by (simp add: VIEW_UNKNOWN_def)
    let ?p = "start_of_view vh (view_at vh probe)"
    have p: "1 \<le> ?p" "?p \<le> probe" using start_of_view_view_at [OF assms refl known] by simp_all
    obtain r where r: "match_loop vh v (?p - 1) (view_at vh (?p - 1)) = Some r" "r \<le> ?p - 1"
      "view_at vh r \<le> v" "\<forall>j. r < j \<and> j \<le> ?p - 1 \<longrightarrow> v < view_at vh j"
      using less [of "?p - 1"] p by fastforce
    have "match_loop vh v probe (view_at vh probe) = Some r"
      using True p r(1) by (subst match_loop.simps) (simp add: Let_def)
    moreover have "v < view_at vh j" if "r < j" "j \<le> probe" for j
      using that r(4) p view_at_from_start [OF assms refl known, of j] True
      by (cases "j \<le> ?p - 1") (simp, linarith)
    ultimately show ?thesis using r p by auto
  next
    case False
    then show ?thesis by (subst match_loop.simps) simp
  qed
qed

section \<open>Batches\<close>

text \<open>The end of a batch that starts at \<open>start\<close>, when the arithmetic does not wrap around.\<close>

lemma calculate_end_index_cases:
  assumes "vh_ok (last_idx s + 1) (view_history s)" "last_idx s < max64"
    and "1 \<le> start" "start + entries_batch_size s \<le> max64"
  shows "calculate_end_index s start =
     min (start + entries_batch_size s - 1)
       (if view_at (view_history s) start \<noteq> VIEW_UNKNOWN \<and>
           view_at (view_history s) start < length (view_history s)
        then view_history s ! view_at (view_history s) start - 1 else last_idx s)"
    "view_at (view_history s) start \<noteq> VIEW_UNKNOWN \<Longrightarrow>
     view_at (view_history s) start < length (view_history s) \<Longrightarrow>
       start < view_history s ! view_at (view_history s) start \<and>
       view_history s ! view_at (view_history s) start \<le> last_idx s + 1"
proof -
  let ?v = "view_at (view_history s) start"
  have e: "end_of_view (view_history s) ?v =
      (if ?v < length (view_history s) then view_history s ! ?v - 1 else NoVersion)"
    "?v < length (view_history s) \<Longrightarrow> start < view_history s ! ?v" if "?v \<noteq> VIEW_UNKNOWN"
    using end_of_view_view_at [OF assms(1) _ refl that] assms(2) by simp_all
  have u: "end_of_view (view_history s) ?v = NoVersion" if "?v = VIEW_UNKNOWN"
    using that by (simp add: end_of_view_def start_of_view_def VIEW_UNKNOWN_def NoVersion_def)
  have add: "sub64 (add64 start (entries_batch_size s)) 1 = start + entries_batch_size s - 1"
    using assms(3,4) by (simp add: add64_no_wrap sub64_no_wrap)
  have pos: "view_history s ! ?v - 1 \<noteq> NoVersion" if "?v \<noteq> VIEW_UNKNOWN" "?v < length (view_history s)"
    using e(2) [OF that] assms(3) by (simp add: NoVersion_def)
  show "calculate_end_index s start =
     min (start + entries_batch_size s - 1)
       (if ?v \<noteq> VIEW_UNKNOWN \<and> ?v < length (view_history s)
        then view_history s ! ?v - 1 else last_idx s)"
    unfolding calculate_end_index_def Let_def add using e(1) u pos
    by (cases "?v = VIEW_UNKNOWN") (simp_all del: One_nat_def)
  show "?v \<noteq> VIEW_UNKNOWN \<Longrightarrow> ?v < length (view_history s) \<Longrightarrow>
       start < view_history s ! ?v \<and> view_history s ! ?v \<le> last_idx s + 1"
    using e(2) assms(1) by (auto simp: vh_ok_def)
qed

lemma calculate_end_index_bounds:
  assumes "vh_ok (last_idx s + 1) (view_history s)" "last_idx s < max64" "1 \<le> entries_batch_size s"
    and "1 \<le> start" "start + entries_batch_size s \<le> max64"
  shows "start \<le> last_idx s \<Longrightarrow> start \<le> calculate_end_index s start"
    "calculate_end_index s start \<le> last_idx s"
    "last_idx s < start \<Longrightarrow> calculate_end_index s start = last_idx s"
    "calculate_end_index s start < start + entries_batch_size s"
  using calculate_end_index_cases [OF assms(1,2,4,5)] assms(3,4) by (auto split: if_splits)

lemma calculate_end_index_view:
  assumes "vh_ok (last_idx s + 1) (view_history s)" "last_idx s < max64"
    and "1 \<le> start" "start + entries_batch_size s \<le> max64"
    and "start \<le> i" "i \<le> calculate_end_index s start" "view_at (view_history s) start \<noteq> VIEW_UNKNOWN"
  shows "view_at (view_history s) i = view_at (view_history s) start"
proof -
  let ?vh = "view_history s" let ?v = "view_at ?vh start"
  have "view_at ?vh i \<le> ?v"
  proof (cases "?v < length ?vh")
    case True
    then have "i < ?vh ! ?v"
      using calculate_end_index_cases [OF assms(1-4)] assms(6,7) by auto
    then show ?thesis
      using upper_bound_sorted_iff [of ?vh ?v i] vh_ok_sorted [OF assms(1)] True
      by (simp add: view_at_eq)
  next
    case False
    then show ?thesis using view_at_le_length [of ?vh i] by simp
  qed
  then show ?thesis using view_at_mono [OF assms(5), of ?vh] by simp
qed

text \<open>The batches of a suffix of the log, as ranges of indices.\<close>

function batches :: "aft \<Rightarrow> index \<Rightarrow> (index \<times> index) list" where
  "batches s start =
     (let end = calculate_end_index s start
      in if start \<le> end \<and> end < last_idx s then (start, end) # batches s (end + 1) else [(start, end)])"
  by pat_completeness auto
termination
  by (relation "measure (\<lambda>(s, start). last_idx s - start)") (auto simp: Let_def)

declare batches.simps [simp del]

definition send_batch :: "raft_env \<Rightarrow> node_id \<Rightarrow> index \<times> index \<Rightarrow> aft \<Rightarrow> aft_res" where
  "send_batch env n r s = send_append_entries_range env n (fst r) (snd r) s"

lemma calculate_end_index_frame:
  "frame_log s t \<Longrightarrow> calculate_end_index t start = calculate_end_index s start"
  by (simp add: frame_log_def calculate_end_index_def Let_def)

lemma batches_frame: "frame_log s t \<Longrightarrow> batches t start = batches s start"
proof (induction s start rule: batches.induct)
  case (1 s start)
  have "calculate_end_index t start = calculate_end_index s start" "last_idx t = last_idx s"
    using 1(2) by (simp_all add: calculate_end_index_frame frame_log_def)
  then show ?case
    using 1(1) [OF refl _ 1(2)] by (subst (1 2) batches.simps) (simp add: Let_def)
qed

definition send_pre :: "aft \<Rightarrow> index \<Rightarrow> bool" where
  "send_pre s start \<longleftrightarrow> vh_ok (last_idx s + 1) (view_history s) \<and> last_idx s < max64 \<and>
     1 \<le> entries_batch_size s \<and> 1 \<le> start \<and> start + entries_batch_size s \<le> max64 \<and>
     last_idx s + entries_batch_size s \<le> max64"

lemma send_preD:
  assumes "send_pre s start"
  shows "vh_ok (last_idx s + 1) (view_history s)" "last_idx s < max64" "1 \<le> entries_batch_size s"
    "1 \<le> start" "start + entries_batch_size s \<le> max64" "last_idx s + entries_batch_size s \<le> max64"
  using assms by (simp_all add: send_pre_def)

lemma send_pre_end:
  assumes "send_pre s start"
  shows "start \<le> last_idx s \<Longrightarrow> start \<le> calculate_end_index s start"
    "calculate_end_index s start \<le> last_idx s"
    "last_idx s < start \<Longrightarrow> calculate_end_index s start = last_idx s"
    "calculate_end_index s start < start + entries_batch_size s"
  using calculate_end_index_bounds [OF send_preD(1-5) [OF assms]] by blast+

lemma send_pre_frame: "frame_log s t \<Longrightarrow> send_pre t start = send_pre s start"
  by (simp add: frame_log_def send_pre_def)

lemma send_loop_batches:
  "send_pre s start \<Longrightarrow>
     send_loop env n start s = Some (for_each (send_batch env n) (batches s start) s)"
proof (induction "last_idx s - start" arbitrary: s start rule: less_induct)
  case less
  let ?e = "calculate_end_index s start"
  note pre = send_preD [OF less.prems] and b = send_pre_end [OF less.prems]
  show ?case
  proof (cases "send_append_entries_range env n start ?e s")
    case (Ok s1)
    then have f: "frame_log s s1" using frame_range [of s env n start ?e] by simp
    then have l: "last_idx s1 = last_idx s" by (simp add: frame_log_def)
    show ?thesis
    proof (cases "?e = last_idx s")
      case True
      then have "batches s start = [(start, ?e)]" by (subst batches.simps) (simp add: Let_def)
      then show ?thesis
        using Ok True l by (subst send_loop.simps) (simp add: Let_def send_batch_def)
    next
      case False
      then have lt: "start \<le> ?e" "?e < last_idx s" using b by force+
      then have nxt: "min (add64 ?e 1) (last_idx s1) = ?e + 1"
        using l pre(2) by (simp add: add64_no_wrap)
      have pre1: "send_pre s1 (?e + 1)"
        using pre lt send_pre_frame [OF f, of "?e + 1"] by (simp add: send_pre_def)
      have "send_loop env n (?e + 1) s1 = Some (for_each (send_batch env n) (batches s1 (?e + 1)) s1)"
        using less.hyps [OF _ pre1] lt l by simp
      moreover have "batches s start = (start, ?e) # batches s1 (?e + 1)"
        using lt batches_frame [OF f] by (subst batches.simps) (simp add: Let_def)
      ultimately show ?thesis
        using Ok False l nxt by (subst send_loop.simps) (simp add: Let_def send_batch_def)
    qed
  next
    case (Throw e s1)
    then have "send_loop env n start s = Some (Throw e s1)" by (subst send_loop.simps) (simp add: Let_def)
    moreover have "for_each (send_batch env n) (batches s start) s = Throw e s1"
      using Throw by (subst batches.simps) (simp add: Let_def send_batch_def)
    ultimately show ?thesis by simp
  next
    case Diverge
    then show ?thesis
      by (auto simp: send_append_entries_range_def Let_def split: if_splits option.splits)
  qed
qed

lemma send_batch_calls:
  assumes "map_of (all_other_nodes s) n \<noteq> None" "\<not> is_retired_committed s"
  shows "\<exists>t. for_each (send_batch env n) rs s = Ok t \<and>
     ext_calls t = ext_calls s @
       map (\<lambda>(a, b). SendAuthenticated n (AppendEntries (make_append_entries s a b))) rs"
  using assms
proof (induction rs arbitrary: s)
  case (Cons r rs)
  obtain a b where r: "r = (a, b)" by fastforce
  let ?c = "SendAuthenticated n (AppendEntries (make_append_entries s a b))"
  obtain ns where ns: "map_of (all_other_nodes s) n = Some ns" using Cons.prems(1) by blast
  define s1 where "s1 = (if send_ok env n (AppendEntries (make_append_entries s a b))
      then set_node n (ns\<lparr>sent_idx := b\<rparr>) (log_call ?c s) else log_call ?c s)"
  have s1: "send_batch env n r s = Ok s1" "ext_calls s1 = ext_calls s @ [?c]"
    using Cons.prems ns r
    by (simp_all add: s1_def send_batch_def send_append_entries_range_def Let_def log_call_def set_node_def)
  have same: "make_append_entries s1 a b = make_append_entries s a b"
    "is_retired_committed s1 = is_retired_committed s" "map_of (all_other_nodes s1) n \<noteq> None" for a b
    using ns by (simp_all add: s1_def log_call_def set_node_def make_append_entries_def
        get_term_internal_def is_retired_committed_def)
  show ?case
    using Cons.IH [OF same(3)] same s1 Cons.prems(2) r by (auto simp: split_def)
qed simp

lemma batches_cover:
  assumes "send_pre s start" "start \<le> last_idx s"
  shows "concat (map (\<lambda>(a, b). [a..<Suc b]) (batches s start)) = [start..<Suc (last_idx s)]"
  using assms
proof (induction s start rule: batches.induct)
  case (1 s start)
  let ?e = "calculate_end_index s start"
  have b: "start \<le> ?e" "?e \<le> last_idx s" using send_pre_end [OF 1(2)] 1(3) by simp_all
  show ?case
  proof (cases "?e < last_idx s")
    case True
    then have "send_pre s (?e + 1)" using 1(2) by (simp add: send_pre_def)
    then have "concat (map (\<lambda>(a, b). [a..<Suc b]) (batches s (?e + 1))) = [Suc ?e..<Suc (last_idx s)]"
      using 1(1) [OF refl] b True by simp
    then show ?thesis
      using True b upt_add_eq_append [of start "Suc ?e" "last_idx s - ?e"]
      by (subst batches.simps) (simp add: Let_def del: upt_Suc)
  next
    case False
    then show ?thesis using b by (subst batches.simps) (simp add: Let_def)
  qed
qed

lemma set_batches:
  "set (batches s start) = (if start \<le> calculate_end_index s start \<and> calculate_end_index s start < last_idx s
     then insert (start, calculate_end_index s start) (set (batches s (calculate_end_index s start + 1)))
     else {(start, calculate_end_index s start)})"
  by (subst batches.simps) (simp add: Let_def)

lemma batches_single_view:
  assumes "send_pre s start" "start \<le> last_idx s" "view_at (view_history s) start \<noteq> VIEW_UNKNOWN"
    and "(a, b) \<in> set (batches s start)"
  shows "a \<le> b \<and> b < a + entries_batch_size s \<and>
     (\<forall>i. a \<le> i \<and> i \<le> b \<longrightarrow> view_at (view_history s) i = view_at (view_history s) b)"
  using assms
proof (induction s start rule: batches.induct)
  case (1 s start)
  let ?e = "calculate_end_index s start"
  note pre = send_preD [OF 1(2)] and e = send_pre_end [OF 1(2)]
  show ?case
  proof (cases "(a, b) = (start, ?e)")
    case True
    have "view_at (view_history s) i = view_at (view_history s) ?e" if "start \<le> i" "i \<le> ?e" for i
      using calculate_end_index_view [OF pre(1,2,4,5) that 1(4)]
        calculate_end_index_view [OF pre(1,2,4,5) _ order_refl 1(4)] e(1) [OF 1(3)] by presburger
    then show ?thesis using True e(1) [OF 1(3)] e(4) by blast
  next
    case False
    then have lt: "start \<le> ?e" "?e < last_idx s" "(a, b) \<in> set (batches s (?e + 1))"
      using 1(5) set_batches [of s start] by (auto split: if_splits)
    have p: "send_pre s (?e + 1)" "?e + 1 \<le> last_idx s" using 1(2) lt by (simp_all add: send_pre_def)
    have "view_at (view_history s) (?e + 1) \<noteq> VIEW_UNKNOWN"
      using 1(4) view_at_mono [of start "?e + 1" "view_history s"] lt by (simp add: VIEW_UNKNOWN_def)
    then show ?thesis by (rule 1(1) [OF refl conjI [OF lt(1,2)] p _ lt(3)])
  qed
qed

section \<open>What the acknowledgements confirm\<close>

lemma length_filter_sort: "length (filter P (sort xs)) = length (filter P (xs :: nat list))"
  by (induction xs) (simp_all add: filter_insort filter_insort_triv)

lemma confirmed_index_majority:
  assumes "confirmed_index ms = Some c" "length ms \<le> max64"
  shows "k \<le> c \<longleftrightarrow> get_quorum (length ms) \<le> length (filter (\<lambda>m. k \<le> m) ms)"
proof -
  let ?m = "sort ms" let ?i = "(length ms - 1) div 2"
  have ne: "0 < length ms" using assms(1) by (auto simp: confirmed_index_def Let_def split: if_splits)
  then have "sub64 (length ms) 1 = length ms - 1" using assms(2) by (intro sub64_no_wrap) linarith+
  then have i: "?i < length ms" "c = ?m ! ?i"
    using assms(1) by (auto simp: confirmed_index_def Let_def split: if_splits)
  have len: "length (filter (\<lambda>m. k \<le> m) ms) = length (filter (\<lambda>m. k \<le> m) ?m)"
    by (simp add: length_filter_sort)
  have split: "length (filter P ?m) = length (filter P (take n ?m)) + length (filter P (drop n ?m))" for P n
    by (metis append_take_drop_id filter_append length_append)
  show ?thesis
  proof
    assume k: "k \<le> c"
    have "\<forall>x\<in>set (drop ?i ?m). k \<le> x"
    proof
      fix x assume "x \<in> set (drop ?i ?m)"
      then obtain j where "j < length ms - ?i" "x = ?m ! (?i + j)" by (auto simp: in_set_conv_nth)
      moreover have "?m ! ?i \<le> ?m ! (?i + j)" using calculation(1) by (intro sorted_nth_mono) auto
      ultimately show "k \<le> x" using k i(2) by linarith
    qed
    then have "length (filter (\<lambda>m. k \<le> m) (drop ?i ?m)) = length ms - ?i" by simp
    then show "get_quorum (length ms) \<le> length (filter (\<lambda>m. k \<le> m) ms)"
      using split [of "\<lambda>m. k \<le> m" ?i] ne unfolding len get_quorum_def by linarith
  next
    assume q: "get_quorum (length ms) \<le> length (filter (\<lambda>m. k \<le> m) ms)"
    show "k \<le> c"
    proof (rule ccontr)
      assume "\<not> k \<le> c"
      have "\<forall>x\<in>set (take (Suc ?i) ?m). \<not> k \<le> x"
      proof
        fix x assume "x \<in> set (take (Suc ?i) ?m)"
        then obtain j where "j < Suc ?i" "j < length ms" "x = ?m ! j" by (auto simp: in_set_conv_nth)
        moreover have "?m ! j \<le> ?m ! ?i" using calculation(1) i(1) by (intro sorted_nth_mono) auto
        ultimately show "\<not> k \<le> x" using \<open>\<not> k \<le> c\<close> i(2) by linarith
      qed
      then have "filter (\<lambda>m. k \<le> m) (take (Suc ?i) ?m) = []" by simp
      then have "length (filter (\<lambda>m. k \<le> m) ms) \<le> length ms - Suc ?i"
        using split [of "\<lambda>m. k \<le> m" "Suc ?i"] length_filter_le [of "\<lambda>m. k \<le> m" "drop (Suc ?i) ?m"]
        unfolding len by simp
      then show False using q ne unfolding get_quorum_def by linarith
    qed
  qed
qed

text \<open>A node holds the log up to \<open>k\<close>, as far as the leader knows.\<close>

definition replicated :: "aft \<Rightarrow> index \<Rightarrow> node_id \<Rightarrow> bool" where
  "replicated s k n \<longleftrightarrow> (if n = node_id s then k \<le> last_idx s
     else case map_of (all_other_nodes s) n of None \<Rightarrow> False | Some ns \<Rightarrow> k \<le> match_idx ns)"

definition majority_replicated :: "aft \<Rightarrow> index \<Rightarrow> configuration \<Rightarrow> bool" where
  "majority_replicated s k c \<longleftrightarrow>
     get_quorum (length (cfg_nodes c)) \<le> length (filter (replicated s k) (node_keys (cfg_nodes c)))"

lemma match_indices_replicated:
  "match_indices s ns = Some ms \<Longrightarrow>
     length ms = length ns \<and> length (filter (\<lambda>m. k \<le> m) ms) = length (filter (replicated s k) ns)"
  by (induction ns arbitrary: ms)
    (fastforce simp: replicated_def split: option.splits if_splits)+

lemma agreement_index_majority:
  assumes "agreement_index s cs acc = Inr (Some a)" "\<forall>c\<in>set cs. length (cfg_nodes c) \<le> max64"
  shows "k \<le> a \<longleftrightarrow> (\<forall>x. acc = Some x \<longrightarrow> k \<le> x) \<and> (\<forall>c\<in>set cs. majority_replicated s k c)"
  using assms
proof (induction cs arbitrary: acc)
  case (Cons c cs)
  obtain ms cf where ms: "match_indices s (node_keys (cfg_nodes c)) = Some ms" "confirmed_index ms = Some cf"
    and rest: "agreement_index s cs (case acc of None \<Rightarrow> Some cf
        | Some x \<Rightarrow> if cf < x then Some cf else Some x) = Inr (Some a)"
    using Cons.prems(1) by (auto split: option.splits)
  have len: "length ms = length (cfg_nodes c)"
    using match_indices_replicated [OF ms(1)] by (simp add: node_keys_def)
  have "k \<le> cf \<longleftrightarrow> majority_replicated s k c"
    using confirmed_index_majority [OF ms(2), of k] Cons.prems(2) len match_indices_replicated [OF ms(1), of k]
    by (simp add: majority_replicated_def)
  then show ?case using Cons.IH [OF rest] Cons.prems(2) by (auto split: option.splits)
qed auto

lemma find_committable_highest:
  assumes "sorted_wrt (<) (committable_indices s)"
    and "find_highest_possible_committable_index s idx = Some h" "k \<in> set (committable_indices s)" "k \<le> idx"
  shows "k \<le> h"
proof -
  let ?r = "rev (committable_indices s)"
  have r: "sorted_wrt (>) ?r" using assms(1) by (simp add: sorted_wrt_rev)
  obtain i where i: "i < length ?r" "h = ?r ! i" "\<forall>j<i. \<not> ?r ! j \<le> idx"
    using assms(2) by (auto simp: find_highest_possible_committable_index_def find_Some_iff)
  obtain j where j: "j < length ?r" "k = ?r ! j" using assms(3) by (metis in_set_conv_nth set_rev)
  have "i \<le> j" using i(3) j(2) assms(4) by (meson not_le_imp_less)
  then show ?thesis using r i j sorted_wrt_nth_less [OF r, of i j] by (cases "i = j") auto
qed

section \<open>Batch sizes\<close>

definition batch_window_ok :: "aft \<Rightarrow> bool" where
  "batch_window_ok s \<longleftrightarrow> 0 \<le> batch_window_sum s \<and>
     batch_window_sum s \<le> batch_window_size * int append_entries_size_limit"

lemma to_int32_id: "0 \<le> z \<Longrightarrow> z < 2147483648 \<Longrightarrow> to_int32 z = z"
  unfolding to_int32_def by (intro signed_take_bit_int_eq_self) simp_all

lemma batch_window_step:
  fixes sum b :: int
  assumes "0 \<le> sum" "sum \<le> 2000000" "0 \<le> b" "b \<le> 20000"
  shows "0 \<le> sum + (b - sum div 100)" "sum + (b - sum div 100) \<le> 2000000"
  using assms by linarith+

section \<open>Properties\<close>

text \<open>
  C12. Log matching after a rejection: the search for the latest index on which the local log may
  agree with a transaction id always ends, and it returns the highest index that is not beyond the
  id and the log and whose view is not later than the id's.
\<close>

theorem highest_match_exact:
  assumes "vh_ok b (view_history s)"
  shows "\<exists>r. find_highest_possible_match s tx = Some r \<and> r \<le> tx_seqno tx \<and> r \<le> last_idx s \<and>
     view_at (view_history s) r \<le> tx_view tx \<and>
     (\<forall>j. r < j \<and> j \<le> tx_seqno tx \<and> j \<le> last_idx s \<longrightarrow> tx_view tx < view_at (view_history s) j)"
proof -
  obtain r where "match_loop (view_history s) (tx_view tx) (min (tx_seqno tx) (last_idx s))
      (view_at (view_history s) (min (tx_seqno tx) (last_idx s))) = Some r"
    "r \<le> min (tx_seqno tx) (last_idx s)" "view_at (view_history s) r \<le> tx_view tx"
    "\<forall>j. r < j \<and> j \<le> min (tx_seqno tx) (last_idx s) \<longrightarrow> tx_view tx < view_at (view_history s) j"
    using match_loop_correct [OF assms] by blast
  then show ?thesis by (simp add: find_highest_possible_match_def Let_def)
qed

theorem highest_match_exact_witness:
  "find_highest_possible_match (sample_follower\<lparr>last_idx := 8, view_history := [1, 3, 5]\<rparr>)
     \<lparr>tx_view = 2, tx_seqno = 7\<rparr> = Some 4"
proof -
  have v: "view_at [1, 3, 5] 4 = 2" "view_at [1, 3, 5] 5 = 3" by code_simp+
  obtain r where r: "find_highest_possible_match (sample_follower\<lparr>last_idx := 8, view_history := [1, 3, 5]\<rparr>)
      \<lparr>tx_view = 2, tx_seqno = 7\<rparr> = Some r" "view_at [1, 3, 5] r \<le> 2"
    "\<forall>j. r < j \<and> j \<le> 7 \<longrightarrow> 2 < view_at [1, 3, 5] j"
    using highest_match_exact [of 9 "sample_follower\<lparr>last_idx := 8, view_history := [1, 3, 5]\<rparr>"
        "\<lparr>tx_view = 2, tx_seqno = 7\<rparr>"]
    by (auto simp: vh_ok_def)
  have "\<not> r < 4" using r(3) v(1) by fastforce
  moreover have "\<not> 5 \<le> r" using r(2) v(2) view_at_mono [of 5 r "[1, 3, 5]"] by linarith
  ultimately have "r = 4" by linarith
  then show ?thesis using r(1) by simp
qed

text \<open>
  C11. Sending a suffix of the log to a node always ends. It sends one AppendEntries per batch; the
  batches follow one another without gap or overlap from the first index to the end of the log, none
  has more entries than the batch size, and all entries of a batch are from one view, the one the
  message names.
\<close>

theorem send_append_entries_covers:
  assumes "send_pre s start" "start \<le> last_idx s" "view_at (view_history s) start \<noteq> VIEW_UNKNOWN"
    and "map_of (all_other_nodes s) n \<noteq> None" "\<not> is_retired_committed s"
  shows "\<exists>t rs. send_append_entries env n start s = Ok t \<and>
     ext_calls t = ext_calls s @
       map (\<lambda>(a, b). SendAuthenticated n (AppendEntries (make_append_entries s a b))) rs \<and>
     concat (map (\<lambda>(a, b). [a..<Suc b]) rs) = [start..<Suc (last_idx s)] \<and>
     (\<forall>(a, b)\<in>set rs. b < a + entries_batch_size s \<and>
        (\<forall>i. a \<le> i \<and> i \<le> b \<longrightarrow> view_at (view_history s) i = view_at (view_history s) b))"
proof -
  obtain t where "for_each (send_batch env n) (batches s start) s = Ok t"
    "ext_calls t = ext_calls s @ map (\<lambda>(a, b). SendAuthenticated n
       (AppendEntries (make_append_entries s a b))) (batches s start)"
    using send_batch_calls [OF assms(4,5)] by blast
  then have "send_append_entries env n start s = Ok t \<and> ext_calls t = ext_calls s @
      map (\<lambda>(a, b). SendAuthenticated n (AppendEntries (make_append_entries s a b))) (batches s start)"
    using send_loop_batches [OF assms(1)] by (simp add: send_append_entries_def)
  then show ?thesis
    using batches_cover [OF assms(1,2)] batches_single_view [OF assms(1-3)] by blast
qed

text \<open>A leader in view 2 with six entries, the last three of them of view 2.\<close>

definition sample_leader :: aft where
  "sample_leader = (sample_node ''A'' [''B'', ''C''])
     \<lparr>leadership_state := Leader, current_view := 2, last_idx := 6, commit_idx := 2, view_history := [1, 4],
      committable_indices := [4, 6], entries_batch_size := 2,
      all_other_nodes := [(''B'', \<lparr>ns_info = \<lparr>hostname = [], port = []\<rparr>, sent_idx = 6, match_idx = 5,
          last_ack_timeout = 0\<rparr>),
        (''C'', \<lparr>ns_info = \<lparr>hostname = [], port = []\<rparr>, sent_idx = 6, match_idx = 0,
          last_ack_timeout = 0\<rparr>)]\<rparr>"

theorem send_append_entries_covers_witness:
  "\<exists>t rs. send_append_entries sample_env ''B'' 2 sample_leader = Ok t \<and>
     ext_calls t = map (\<lambda>(a, b). SendAuthenticated ''B''
       (AppendEntries (make_append_entries sample_leader a b))) rs \<and>
     concat (map (\<lambda>(a, b). [a..<Suc b]) rs) = [2..<7]"
proof -
  have "send_pre sample_leader 2" "2 \<le> last_idx sample_leader"
    "view_at (view_history sample_leader) 2 \<noteq> VIEW_UNKNOWN"
    "map_of (all_other_nodes sample_leader) ''B'' \<noteq> None" "\<not> is_retired_committed sample_leader"
    "ext_calls sample_leader = []" "last_idx sample_leader = 6"
    by code_simp+
  then show ?thesis
    using send_append_entries_covers [of sample_leader 2 "''B''" sample_env] by force
qed

text \<open>
  C2. A leader advances its commit index only to an entry that it may count as decided: the new index
  is one of the signed, uncommitted entries of its log, it was written in the leader's current view,
  and in every active configuration a majority of the nodes is known to hold the log up to it. It is
  the highest such entry: every later signed entry misses a majority in some configuration.
\<close>

theorem leader_commits_on_majority:
  assumes "update_commit env s = Ok t \<or> update_commit env s = Throw e t" "commit_idx t \<noteq> commit_idx s"
    and "sorted_wrt (<) (committable_indices s)" "\<forall>c\<in>set (configurations s). length (cfg_nodes c) \<le> max64"
  shows "leadership_state s = Leader \<and> commit_idx s < commit_idx t \<and> commit_idx t \<le> last_idx s \<and>
     commit_idx t \<in> set (committable_indices s) \<and>
     get_term_internal s (commit_idx t) = current_view s \<and>
     (\<forall>c\<in>set (configurations s). majority_replicated s (commit_idx t) c) \<and>
     (\<forall>k\<in>set (committable_indices s). commit_idx t < k \<longrightarrow>
        (\<exists>c\<in>set (configurations s). \<not> majority_replicated s k c))"
proof -
  have lead: "leadership_state s = Leader" using assms(1,2) by (auto simp: update_commit_def split: if_splits)
  obtain a h where a: "agreement_index s (configurations s) None = Inr (Some a)"
    and h: "find_highest_possible_committable_index s a = Some h"
    and v: "get_term_internal s h = current_view s" and c: "update_commit env s = commit env h s"
    using assms(1,2) lead by (auto simp: update_commit_def split: sum.splits option.splits if_splits)
  have "commit_idx t = h \<and> h \<le> last_idx s \<and> commit_idx s < h"
    using commit_cases [of s h env] assms(1,2) c
    by (auto simp: same_log_def compact_committable_indices_def)
  moreover have "h \<in> set (committable_indices s)" "h \<le> a" using find_committable_SomeD [OF h] by simp_all
  moreover have "\<exists>c\<in>set (configurations s). \<not> majority_replicated s k c"
    if "k \<in> set (committable_indices s)" "h < k" for k
    using find_committable_highest [OF assms(3) h that(1)] that(2)
      agreement_index_majority [OF a assms(4), of k] by auto
  ultimately show ?thesis
    using lead v agreement_index_majority [OF a assms(4), of h] by simp
qed

theorem leader_commits_on_majority_witness:
  "\<exists>t. update_commit sample_env sample_leader = Ok t \<and> commit_idx t = 4 \<and>
     list_all (majority_replicated sample_leader 4) (configurations sample_leader)"
proof -
  have "res_check (\<lambda>t. commit_idx t = 4) (update_commit sample_env sample_leader)" by code_simp
  then obtain t where t: "update_commit sample_env sample_leader = Ok t" "commit_idx t = 4"
    by (rule res_checkE)
  moreover have "commit_idx sample_leader = 2" "sorted_wrt (<) (committable_indices sample_leader)"
    "\<forall>c\<in>set (configurations sample_leader). length (cfg_nodes c) \<le> max64"
    by code_simp+
  ultimately show ?thesis
    using leader_commits_on_majority [of sample_env sample_leader t OutOfRange]
    by (auto simp: list_all_iff)
qed

text \<open>
  C20. The adaptive batch size stays between 1 and 20000 entries: the sum over the averaging window
  stays between zero and its maximum, and the 32-bit arithmetic on it never overflows.
\<close>

theorem batch_size_bounds:
  assumes "batch_window_ok s"
  shows "batch_window_ok (update_batch_size s) \<and> 1 \<le> entries_batch_size (update_batch_size s) \<and>
     entries_batch_size (update_batch_size s) \<le> append_entries_size_limit"
proof -
  let ?avg = "if entry_count s = 0 then append_entries_size_limit
    else entry_size_not_limited s div entry_count s"
  define b where "b = (if ?avg = 0 then append_entries_size_limit div 2
    else append_entries_size_limit div ?avg)"
  define z where "z = batch_window_sum s + (int b - batch_window_sum s div 100)"
  have "b \<le> 20000" by (simp add: b_def append_entries_size_limit_def)
  then have z: "0 \<le> z" "z \<le> 2000000"
    using assms batch_window_step [of "batch_window_sum s" "int b"]
    by (simp_all add: z_def batch_window_ok_def batch_window_size_def append_entries_size_limit_def)
  have d: "y sdiv batch_window_size = y div 100" if "0 \<le> y" for y
    using that by (simp add: batch_window_size_def signed_divide_int_def sgn_if)
  have "update_batch_size s = s\<lparr>batch_window_sum := z, entries_batch_size := nat (max (z div 100) 1)\<rparr>"
    unfolding update_batch_size_def Let_def b_def [symmetric]
    using assms z d by (simp add: z_def batch_window_ok_def to_int32_id)
  moreover have "z div 100 \<le> 20000" using z by linarith
  then have "1 \<le> nat (max (z div 100) 1)" "nat (max (z div 100) 1) \<le> 20000"
    by (simp_all add: le_nat_iff nat_le_iff)
  ultimately show ?thesis
    using z by (simp add: batch_window_ok_def batch_window_size_def append_entries_size_limit_def)
qed

theorem batch_size_bounds_witness:
  "1 \<le> entries_batch_size (update_batch_size (sample_leader\<lparr>entry_count := 4, entry_size_not_limited := 4000\<rparr>))"
proof -
  have "batch_window_ok (sample_leader\<lparr>entry_count := 4, entry_size_not_limited := 4000\<rparr>)" by code_simp
  then show ?thesis using batch_size_bounds by blast
qed

end
