(* ===== verification/Raft_Elections.thy ===== *)
theory Raft_Elections
  imports Raft_Replication
begin

text \<open>
  Elections (\<^verbatim>\<open>src/consensus/aft/raft.h\<close>): when a vote is granted, what makes a candidate a
  leader, what quorums have in common, and how often a node votes in a view.
\<close>

section \<open>Quorums\<close>

text \<open>What elections and commits rely on: any two quorums of a configuration have a common member.\<close>

locale quorum_system =
  fixes is_quorum :: "'c \<Rightarrow> 'n set \<Rightarrow> bool"
  assumes quorums_meet: "is_quorum c Q \<Longrightarrow> is_quorum c Q' \<Longrightarrow> Q \<inter> Q' \<noteq> {}"
begin

lemma quorum_nonempty: "is_quorum c Q \<Longrightarrow> Q \<noteq> {}"
  using quorums_meet by blast

lemma quorums_agree:
  assumes "is_quorum c Q" "is_quorum c Q'" "\<forall>n\<in>Q. choice n = a" "\<forall>n\<in>Q'. choice n = b"
  shows "a = b"
  using assms quorums_meet by fastforce

end

definition majority :: "configuration \<Rightarrow> node_id set \<Rightarrow> bool" where
  "majority c Q \<longleftrightarrow> Q \<subseteq> set (node_keys (cfg_nodes c)) \<and> get_quorum (length (cfg_nodes c)) \<le> card Q"

lemma majorities_meet:
  assumes "majority c Q" "majority c Q'"
  shows "Q \<inter> Q' \<noteq> {}"
proof
  assume "Q \<inter> Q' = {}"
  let ?N = "set (node_keys (cfg_nodes c))"
  have sub: "Q \<subseteq> ?N" "Q' \<subseteq> ?N" using assms by (simp_all add: majority_def)
  then have "card (Q \<union> Q') = card Q + card Q'"
    using \<open>Q \<inter> Q' = {}\<close> by (intro card_Un_disjoint) (auto intro: finite_subset)
  moreover have "card (Q \<union> Q') \<le> card ?N" using sub by (intro card_mono) auto
  moreover have "card ?N \<le> length (cfg_nodes c)" using card_length [of "node_keys (cfg_nodes c)"] by (simp add: node_keys_def)
  moreover have "length (cfg_nodes c) div 2 + 1 \<le> card Q" "length (cfg_nodes c) div 2 + 1 \<le> card Q'"
    using assms by (simp_all add: majority_def get_quorum_def)
  ultimately show False by linarith
qed

interpretation maj: quorum_system majority
  by unfold_locales (rule majorities_meet)

lemma majority_replicated_quorum:
  assumes "majority_replicated s k c" "distinct (node_keys (cfg_nodes c))"
  shows "majority c {n \<in> set (node_keys (cfg_nodes c)). replicated s k n}"
  using assms distinct_card [of "filter (replicated s k) (node_keys (cfg_nodes c))"]
  by (simp add: majority_def majority_replicated_def)

section \<open>Counting votes\<close>

definition votes_ok :: "node_id set \<Rightarrow> aft \<Rightarrow> bool" where
  "votes_ok V s \<longleftrightarrow>
     sorted_wrt (<) (omap_keys (votes_for_me s)) \<and>
     fst ` set (votes_for_me s) = cfg_idx ` set (configurations s) \<and>
     (\<forall>c\<in>set (configurations s). \<exists>v. map_of (votes_for_me s) (cfg_idx c) = Some v \<and>
        quorum v = get_quorum (length (cfg_nodes c)) \<and> distinct (voters v) \<and>
        set (voters v) = V \<inter> set (node_keys (cfg_nodes c)))"

definition configs_ok :: "aft \<Rightarrow> bool" where
  "configs_ok s \<longleftrightarrow> distinct (map cfg_idx (configurations s)) \<and>
     (\<forall>c\<in>set (configurations s). distinct (node_keys (cfg_nodes c)))"

lemma fold_reset:
  fixes m :: "(index \<times> votes) list"
  assumes "sorted_wrt (<) (omap_keys m)" "distinct (map cfg_idx cs)"
  shows "sorted_wrt (<) (omap_keys (fold (\<lambda>c. omap_set (cfg_idx c) (f c)) cs m)) \<and>
    fst ` set (fold (\<lambda>c. omap_set (cfg_idx c) (f c)) cs m) = cfg_idx ` set cs \<union> fst ` set m \<and>
    (\<forall>i. i \<notin> cfg_idx ` set cs \<longrightarrow> map_of (fold (\<lambda>c. omap_set (cfg_idx c) (f c)) cs m) i = map_of m i) \<and>
    (\<forall>c\<in>set cs. map_of (fold (\<lambda>c. omap_set (cfg_idx c) (f c)) cs m) (cfg_idx c) = Some (f c))"
  using assms
proof (induction cs arbitrary: m)
  case (Cons a cs)
  have "sorted_wrt (<) (omap_keys (omap_set (cfg_idx a) (f a) m))"
    using Cons.prems by (intro sorted_omap_set)
  then show ?case
    using Cons.IH [of "omap_set (cfg_idx a) (f a) m"] Cons.prems(2)
    by (auto simp: set_omap_set_keys map_of_omap_set_other map_of_omap_set)
qed auto

lemma votes_ok_reset: "configs_ok s \<Longrightarrow> votes_ok {} (reset_votes_for_me s)"
  using fold_reset [of "[]" "configurations s" "\<lambda>c. \<lparr>voters = [], quorum = get_quorum (length (cfg_nodes c))\<rparr>"]
  by (simp add: votes_ok_def configs_ok_def reset_votes_for_me_def)

lemma fold_insert_vote_other:
  "i \<notin> cfg_idx ` set cs \<Longrightarrow> map_of (fold (insert_vote n) cs m) i = map_of m i"
  by (induction cs arbitrary: m) (auto simp: insert_vote_def Let_def map_of_omap_set_other)

lemma fold_insert_vote:
  fixes m :: "(index \<times> votes) list"
  assumes "sorted_wrt (<) (omap_keys m)" "distinct (map cfg_idx cs)" "cfg_idx ` set cs \<subseteq> fst ` set m"
  shows "sorted_wrt (<) (omap_keys (fold (insert_vote n) cs m)) \<and>
    fst ` set (fold (insert_vote n) cs m) = fst ` set m \<and>
    (\<forall>c v. c \<in> set cs \<longrightarrow> map_of m (cfg_idx c) = Some v \<longrightarrow>
       map_of (fold (insert_vote n) cs m) (cfg_idx c) =
         Some (if n \<in> set (node_keys (cfg_nodes c)) then v\<lparr>voters := List.insert n (voters v)\<rparr> else v))"
  using assms
proof (induction cs arbitrary: m)
  case (Cons a cs)
  let ?m = "insert_vote n a m"
  have s: "sorted_wrt (<) (omap_keys ?m)"
    using Cons.prems by (auto simp: insert_vote_def Let_def intro: sorted_omap_set)
  have k: "fst ` set ?m = fst ` set m"
    using Cons.prems by (auto simp: insert_vote_def Let_def set_omap_set_keys)
  have o: "map_of ?m (cfg_idx c) = map_of m (cfg_idx c)" if "cfg_idx c \<noteq> cfg_idx a" for c :: configuration
    using that by (simp add: insert_vote_def Let_def map_of_omap_set_other)
  have ih: "sorted_wrt (<) (omap_keys (fold (insert_vote n) cs ?m)) \<and>
    fst ` set (fold (insert_vote n) cs ?m) = fst ` set ?m \<and>
    (\<forall>c v. c \<in> set cs \<longrightarrow> map_of ?m (cfg_idx c) = Some v \<longrightarrow>
       map_of (fold (insert_vote n) cs ?m) (cfg_idx c) =
         Some (if n \<in> set (node_keys (cfg_nodes c)) then v\<lparr>voters := List.insert n (voters v)\<rparr> else v))"
    using Cons.IH [OF s] Cons.prems k by auto
  have "map_of (fold (insert_vote n) (a # cs) m) (cfg_idx c) =
      Some (if n \<in> set (node_keys (cfg_nodes c)) then v\<lparr>voters := List.insert n (voters v)\<rparr> else v)"
    if c: "c \<in> set (a # cs)" "map_of m (cfg_idx c) = Some v" for c v
  proof (cases "c = a")
    case True
    then have "map_of (fold (insert_vote n) cs ?m) (cfg_idx c) = map_of ?m (cfg_idx c)"
      using Cons.prems(2) by (intro fold_insert_vote_other) auto
    then show ?thesis using c True by (simp add: insert_vote_def Let_def map_of_omap_set)
  next
    case False
    then have "c \<in> set cs" "cfg_idx c \<noteq> cfg_idx a" using c Cons.prems(2) by (auto simp: image_iff)
    then have "map_of ?m (cfg_idx c) = Some v" using o c(2) by simp
    then show ?thesis using ih \<open>c \<in> set cs\<close> by simp
  qed
  then show ?case using ih k by simp
qed auto

lemma votes_ok_record:
  assumes "votes_ok V s" "configs_ok s"
  shows "votes_ok (insert n V) (record_vote n s)"
proof -
  have v: "sorted_wrt (<) (omap_keys (votes_for_me s))" "distinct (map cfg_idx (configurations s))"
    "cfg_idx ` set (configurations s) \<subseteq> fst ` set (votes_for_me s)"
    using assms by (auto simp: votes_ok_def configs_ok_def)
  show ?thesis
    using assms(1) fold_insert_vote [OF v, of n]
    by (fastforce simp: votes_ok_def record_vote_def)
qed

lemma configs_ok_record: "configs_ok (record_vote n s) = configs_ok s"
  by (simp add: configs_ok_def record_vote_def)

lemma votes_ok_fold:
  "votes_ok V s \<Longrightarrow> configs_ok s \<Longrightarrow> votes_ok (set ns \<union> V) (fold record_vote ns s)"
proof (induction ns arbitrary: s V)
  case (Cons n ns)
  then have "votes_ok (set ns \<union> insert n V) (fold record_vote ns (record_vote n s))"
    by (intro Cons.IH votes_ok_record) (simp_all add: configs_ok_record)
  then show ?case by simp
qed simp

lemma votes_ok_elected:
  assumes "votes_ok V s" "configs_ok s"
  shows "is_elected s \<longleftrightarrow> (\<forall>c\<in>set (configurations s). majority c (V \<inter> set (node_keys (cfg_nodes c))))"
proof -
  have d: "distinct (map fst (votes_for_me s))"
    using assms(1) strict_sorted_iff [of "omap_keys (votes_for_me s)"] by (simp add: votes_ok_def)
  have "is_elected s \<longleftrightarrow> (\<forall>i v. map_of (votes_for_me s) i = Some v \<longrightarrow> quorum v \<le> length (voters v))"
    using map_of_eq_Some_iff [OF d] by (auto simp: is_elected_def not_less)
  also have "\<dots> \<longleftrightarrow> (\<forall>c\<in>set (configurations s). majority c (V \<inter> set (node_keys (cfg_nodes c))))"
  proof -
    have keys: "fst ` set (votes_for_me s) = cfg_idx ` set (configurations s)"
      using assms(1) by (simp add: votes_ok_def)
    have "\<exists>c\<in>set (configurations s). i = cfg_idx c" if "map_of (votes_for_me s) i = Some v" for i v
    proof -
      have "fst (i, v) \<in> fst ` set (votes_for_me s)" by (rule imageI [OF map_of_SomeD [OF that]])
      then show ?thesis unfolding keys by auto
    qed
    moreover have "\<exists>v. map_of (votes_for_me s) (cfg_idx c) = Some v \<and>
        (quorum v \<le> length (voters v) \<longleftrightarrow> majority c (V \<inter> set (node_keys (cfg_nodes c))))"
      if c: "c \<in> set (configurations s)" for c
    proof -
      obtain v where v: "map_of (votes_for_me s) (cfg_idx c) = Some v"
        "quorum v = get_quorum (length (cfg_nodes c))" "distinct (voters v)"
        "set (voters v) = V \<inter> set (node_keys (cfg_nodes c))"
        using c assms(1) by (auto simp: votes_ok_def)
      show ?thesis using v distinct_card [OF v(3)] by (simp add: majority_def)
    qed
    ultimately show ?thesis by (metis option.inject)
  qed
  finally show ?thesis .
qed

lemma elected_majorities:
  assumes "configs_ok s"
  shows "is_elected (fold record_vote ns (reset_votes_for_me s)) \<longleftrightarrow>
     (\<forall>c\<in>set (configurations s). majority c (set ns \<inter> set (node_keys (cfg_nodes c))))"
proof -
  let ?t = "fold record_vote ns (reset_votes_for_me s)"
  have c: "configurations (fold record_vote ns u) = configurations u" for u
    by (induction ns arbitrary: u) (simp_all add: record_vote_def)
  have ok: "configs_ok (reset_votes_for_me s)" using assms by (simp add: configs_ok_def reset_votes_for_me_def)
  have "votes_ok (set ns \<union> {}) ?t" by (rule votes_ok_fold [OF votes_ok_reset [OF assms] ok])
  moreover have "configs_ok ?t" using ok c by (simp add: configs_ok_def)
  ultimately show ?thesis
    using votes_ok_elected [of "set ns" ?t] c by (simp add: reset_votes_for_me_def)
qed

section \<open>The view and the vote\<close>

definition same_vote :: "aft \<Rightarrow> aft \<Rightarrow> bool" where
  "same_vote s t \<longleftrightarrow> node_id t = node_id s \<and> current_view t = current_view s \<and> voted_for t = voted_for s"

interpretation sv: step_rel same_vote
  by unfold_locales (auto simp: same_vote_def)

lemmas same_vote_trans [trans] = sv.rel_trans

lemma frame_vote: "frame_log s t \<Longrightarrow> same_vote s t"
  by (simp add: same_vote_def frame_log_def)

lemma frame_res_vote: "res_all (frame_log s) r \<Longrightarrow> res_all (same_vote s) r"
  using frame_vote by (cases r) auto

lemma entries_res_vote: "res_all (same_entries s) r \<Longrightarrow> res_all (same_vote s) r"
  by (cases r) (auto simp: same_entries_def same_vote_def)

lemma same_vote_fields [simp]:
  "same_vote s (t\<lparr>last_idx := i\<rparr>) = same_vote s t" "same_vote s (t\<lparr>view_history := h\<rparr>) = same_vote s t"
  "same_vote s (t\<lparr>committable_indices := l\<rparr>) = same_vote s t"
  "same_vote s (t\<lparr>configurations := c\<rparr>) = same_vote s t" "same_vote s (t\<lparr>ext_calls := x\<rparr>) = same_vote s t"
  "same_vote s (t\<lparr>is_new_follower := b\<rparr>) = same_vote s t" "same_vote s (t\<lparr>leader_id := n\<rparr>) = same_vote s t"
  "same_vote s (t\<lparr>timeout_elapsed := e\<rparr>) = same_vote s t" "same_vote s (t\<lparr>rand_draws := d\<rparr>) = same_vote s t"
  "same_vote s (t\<lparr>entry_count := k\<rparr>) = same_vote s t" "same_vote s (t\<lparr>entry_size_not_limited := k\<rparr>) = same_vote s t"
  "same_vote s (t\<lparr>entries_batch_size := k\<rparr>) = same_vote s t" "same_vote s (t\<lparr>batch_window_sum := z\<rparr>) = same_vote s t"
  "same_vote s (t\<lparr>leadership_state := r\<rparr>) = same_vote s t" "same_vote s (t\<lparr>votes_for_me := m\<rparr>) = same_vote s t"
  "same_vote s (t\<lparr>all_other_nodes := a\<rparr>) = same_vote s t"
  by (simp_all add: same_vote_def)

lemma vote_log_call [simp]: "same_vote s (log_call c t) = same_vote s t"
  by (simp add: log_call_def)

lemma vote_update_view_history: "res_all (same_vote s) (update_view_history idx v s)"
  by (simp add: update_view_history_def sv.rel_refl split: option.split)

lemma vote_rollback: "res_all (same_vote s) (rollback env idx s)"
proof -
  have u: "same_vote s (rollback_retirement idx t)" if "same_vote s t" for t
    by (rule same_vote_trans [OF that frame_vote [OF frame_rollback_retirement]])
  have "res_all (same_vote s) (create_and_remove_node_state env t)" if "same_vote s t" for t
    by (rule sv.then_rel [OF that frame_res_vote [OF frame_create]])
  then show ?thesis
    using u by (simp add: rollback_def Let_def sv.rel_refl)
qed

lemma vote_become_leader: "res_all (same_vote s) (become_leader env s)"
proof -
  have f: "res_all (same_vote t) (bind_res (for_each (become_leader_send env i) ns t)
      (\<lambda>s4. Ok (log_call CleanupRetiredNodes s4)))" for t i ns
    by (rule sv.bind [OF frame_res_vote [OF fl.each]]) (simp_all add: frame_become_leader_send sv.rel_refl)
  have u: "res_all (same_vote t) (if other_nodes_in_active_configs t = [] then update_commit env t else Ok t)" for t
    by (simp add: entries_res_vote [OF same_update_commit] sv.rel_refl)
  have g: "res_all (same_vote t) (bind_res
      (if other_nodes_in_active_configs t = [] then update_commit env t else Ok t)
      (\<lambda>s3. bind_res (for_each (become_leader_send env (add64 (last_idx s3) 1))
          (map fst (all_other_nodes s3)) s3) (\<lambda>s4. Ok (log_call CleanupRetiredNodes s4))))" for t
    by (rule sv.bind [OF u f])
  have r: "res_all (same_vote s) (if commit_idx s > 0 then rollback env (last_committable_index s) s
      else Ok (log_call (StoreInitialiseTerm (current_view s)) s))"
    by (simp add: vote_rollback sv.rel_refl)
  show ?thesis
    unfolding become_leader_def Let_def
    by (cases "is_retired_committed s"; simp only: if_True if_False res_all.simps sv.rel_refl)
      (rule sv.bind [OF r sv.then_rel [OF frame_vote [OF frame_leader_fields] g]])
qed

lemma vote_fold_request: "same_vote s (fold send_request_vote ns s)"
  by (rule sv.fold_rel) (simp add: frame_vote frame_request_vote)

lemma vote_fold_pre_request: "same_vote s (fold send_request_pre_vote ns s)"
  by (rule sv.fold_rel) (simp add: frame_vote frame_request_pre_vote)

lemma vote_add_vote_not_pre:
  "leadership_state s \<noteq> PreVoteCandidate \<Longrightarrow> res_all (same_vote s) (add_vote_for_me env n s)"
  using sv.then_rel [OF frame_vote [OF frame_record_vote] vote_become_leader]
  by (subst add_vote_for_me.simps)
    (auto simp: sv.rel_refl frame_vote frame_record_vote split: leadership_state.splits)

text \<open>Becoming a candidate moves to the next view, with a vote for itself; nothing else does.\<close>

lemma start_candidacy_vote:
  "current_view (start_candidacy env s) = add64 (current_view s) 1"
  "voted_for (start_candidacy env s) = Some (node_id s)" "node_id (start_candidacy env s) = node_id s"
  "leadership_state (start_candidacy env s) = Candidate"
  by (simp_all add: start_candidacy_def reset_votes_for_me_def restart_election_timeout_def
      reset_last_ack_timeouts_def Let_def)

lemma vote_become_candidate:
  "res_all (\<lambda>t. t = s \<or> same_vote (start_candidacy env s) t) (become_candidate env s)"
proof (cases "configurations s = []")
  case False
  have "res_all (same_vote (start_candidacy env s)) (bind_res
      (add_vote_for_me env (node_id s) (start_candidacy env s))
      (\<lambda>s2. Ok (fold send_request_vote (other_nodes_in_active_configs s2) s2)))"
    by (rule sv.bind [OF vote_add_vote_not_pre]) (simp_all add: start_candidacy_vote vote_fold_request)
  then show ?thesis
    using False by (subst become_candidate.simps) (auto intro: res_all_mono)
qed (subst become_candidate.simps, simp)

definition vote_kept :: "aft \<Rightarrow> aft \<Rightarrow> bool" where
  "vote_kept s t \<longleftrightarrow> current_view s \<le> current_view t \<and>
     (current_view t = current_view s \<longrightarrow> voted_for s \<noteq> None \<longrightarrow> voted_for t = voted_for s)"

lemma vote_kept_refl: "vote_kept s s"
  by (simp add: vote_kept_def)

lemma same_vote_kept: "same_vote s t \<Longrightarrow> vote_kept s t"
  by (simp add: same_vote_def vote_kept_def)

lemma same_then_kept: "same_vote s t \<Longrightarrow> vote_kept t u \<Longrightarrow> vote_kept s u"
  by (simp add: same_vote_def vote_kept_def)

lemma kept_then_same: "vote_kept s t \<Longrightarrow> same_vote t u \<Longrightarrow> vote_kept s u"
  by (simp add: same_vote_def vote_kept_def)

lemma res_vote_kept: "res_all (same_vote s) r \<Longrightarrow> res_all (vote_kept s) r"
  by (cases r) (auto intro: same_vote_kept)

lemma kept_bind_same:
  assumes "vote_kept s t" "res_all (same_vote t) r"
  shows "res_all (vote_kept s) r"
  using assms by (cases r) (auto intro: kept_then_same)

lemma kept_become_aware: "current_view s < v \<Longrightarrow> vote_kept s (become_aware_of_new_term env v s)"
  by (simp add: vote_kept_def become_aware_of_new_term_def become_follower_def reset_votes_for_me_def
      restart_election_timeout_def reset_last_ack_timeouts_def)

lemma kept_start_candidacy: "current_view s < max64 \<Longrightarrow> vote_kept s (start_candidacy env s)"
  by (simp add: vote_kept_def start_candidacy_vote add64_no_wrap)

lemma kept_become_candidate:
  "current_view s < max64 \<Longrightarrow> res_all (vote_kept s) (become_candidate env s)"
  by (rule res_all_mono [OF vote_become_candidate])
    (auto intro: vote_kept_refl kept_then_same kept_start_candidacy)

lemma kept_add_vote:
  assumes "current_view s < max64"
  shows "res_all (vote_kept s) (add_vote_for_me env n s)"
proof (cases "leadership_state s = PreVoteCandidate")
  case True
  have r: "same_vote s (record_vote n s)" by (rule frame_vote [OF frame_record_vote])
  then have "current_view (record_vote n s) < max64" using assms by (simp add: same_vote_def)
  then have "res_all (vote_kept (record_vote n s)) (become_candidate env (record_vote n s))"
    by (rule kept_become_candidate)
  then have "res_all (vote_kept s) (become_candidate env (record_vote n s))"
    by (rule res_all_mono) (rule same_then_kept [OF r])
  then show ?thesis
    using True r by (subst add_vote_for_me.simps) (simp add: vote_kept_refl same_vote_kept)
qed (rule res_vote_kept [OF vote_add_vote_not_pre])

lemma kept_become_pre_vote:
  assumes "current_view s < max64"
  shows "res_all (vote_kept s) (become_pre_vote_candidate env s)"
proof -
  let ?s1 = "restart_election_timeout env (reset_votes_for_me
      (s\<lparr>leadership_state := PreVoteCandidate, leader_id := None\<rparr>))"
  have s1: "same_vote s ?s1"
    by (simp add: restart_election_timeout_def reset_votes_for_me_def sv.rel_refl)
  have "res_all (vote_kept ?s1) (add_vote_for_me env (node_id ?s1) ?s1)"
    using s1 assms by (intro kept_add_vote) (simp add: same_vote_def)
  then have "res_all (vote_kept s) (add_vote_for_me env (node_id ?s1) ?s1)"
    by (rule res_all_mono) (rule same_then_kept [OF s1])
  then have "res_all (vote_kept s) (bind_res (add_vote_for_me env (node_id ?s1) ?s1)
      (\<lambda>s2. Ok (fold send_request_pre_vote (other_nodes_in_active_configs s2) s2)))"
    by (rule res_all_bind) (simp add: kept_then_same [OF _ vote_fold_pre_request])
  then show ?thesis by (simp add: become_pre_vote_candidate_def Let_def vote_kept_refl)
qed

lemma kept_recv_request_vote_unsafe: "vote_kept s (recv_request_vote_unsafe env from r et s)"
proof -
  define s1 where "s1 = (if current_view s < rv_term r then become_aware_of_new_term env (rv_term r) s else s)"
  have k1: "vote_kept s s1" by (simp add: s1_def kept_become_aware vote_kept_refl)
  have resp: "same_vote t (send_request_vote_response from b e t)" for t b e
    by (rule frame_vote [OF frame_vote_response])
  have grant: "vote_kept s ((restart_election_timeout env s1)\<lparr>leader_id := None, voted_for := Some from\<rparr>)"
    if "\<not> (case voted_for s1 of None \<Rightarrow> False | Some n \<Rightarrow> n \<noteq> from)"
    using that k1 by (auto simp: vote_kept_def restart_election_timeout_def split: option.splits)
  show ?thesis
    unfolding recv_request_vote_unsafe_def Let_def s1_def [symmetric]
    by (auto intro!: kept_then_same [OF _ resp] k1 grant vote_kept_refl)
qed

lemma kept_recv_vote_response:
  "current_view s < max64 \<Longrightarrow> res_all (vote_kept s) (recv_vote_response env from r et s)"
  by (simp add: recv_vote_response_def vote_kept_refl kept_become_aware kept_add_vote)

lemma kept_recv_append_entries_response: "res_all (vote_kept s) (recv_append_entries_response env from r s)"
proof -
  have s1: "same_vote s (set_node from a s)" for a by (rule frame_vote [OF frame_set_node])
  have s2: "same_vote s (set_node from b (set_node from a s))" for a b
    by (rule same_vote_trans [OF s1 frame_vote [OF frame_set_node]])
  have "vote_kept s (become_aware_of_new_term env v (set_node from a s))"
    if "current_view s < v" for v a
    using that s1 [of a] by (intro same_then_kept [OF s1 [of a]] kept_become_aware) (simp add: same_vote_def)
  moreover have "res_all (vote_kept s) (update_commit env (set_node from b (set_node from a s)))" for a b
    by (rule res_vote_kept [OF sv.then_rel [OF s2 entries_res_vote [OF same_update_commit]]])
  moreover have "current_view (set_node from a s) = current_view s" for a by (simp add: set_node_def)
  ultimately show ?thesis
    by (auto simp: recv_append_entries_response_def Let_def vote_kept_refl same_vote_kept s1 s2
        split: option.splits)
qed

lemma vote_finish: "res_all (same_vote s) (execute_append_entries_finish env r from s)"
  unfolding execute_append_entries_finish_def Let_def
  by (rule sv.bind [OF entries_res_vote [OF same_commit_if_possible]], rule sv.bind)
    (auto simp: vote_update_view_history sv.rel_refl frame_vote frame_ack)

lemma vote_become_retired: "same_vote s (become_retired i p s)"
  by (rule frame_vote [OF frame_become_retired])

lemma vote_execute_signature: "res_all (same_vote s) (execute_signature env r ds i s)"
proof -
  define s1 where "s1 = (if membership_state s = Retired \<and> retirement_phase s = Some Ordered
                then become_retired i Signed s else s)"
  define s2 where "s2 = s1\<lparr>committable_indices := committable_indices s1 @ [i]\<rparr>"
  have s2: "same_vote s s2" by (simp add: s2_def s1_def vote_become_retired sv.rel_refl)
  have u: "res_all (same_vote s2) (if ae_term_of_idx r = VIEW_UNKNOWN then update_view_history 1 (ae_term r) s2
      else update_view_history (add64 (ae_prev_idx r) 1) (ew_term ds) s2)"
    by (simp add: vote_update_view_history)
  have "res_all (same_vote s) (bind_res (if ae_term_of_idx r = VIEW_UNKNOWN
      then update_view_history 1 (ae_term r) s2
      else update_view_history (add64 (ae_prev_idx r) 1) (ew_term ds) s2)
      (commit_if_possible env (ae_leader_commit_idx r)))"
    by (rule sv.then_rel [OF s2 sv.bind [OF u entries_res_vote [OF same_commit_if_possible]]])
  then show ?thesis
    unfolding execute_signature_def Let_def s1_def [symmetric] s2_def [symmetric]
    using s2 by simp
qed

lemma vote_execute_append_entry: "res_all (same_vote s) (execute_append_entry env r ds res i s)"
proof -
  have t: "same_vote u (log_call c (start_ticking_if_necessary u))" for u c
    by (simp add: frame_vote frame_start_ticking)
  have "res_all (same_vote s) (for_each (call_hook env) (ew_hooks ds) (s\<lparr>last_idx := i\<rparr>))"
    by (rule sv.then_rel [OF _ frame_res_vote [OF frame_hooks]]) (simp add: sv.rel_refl)
  then show ?thesis
    unfolding execute_append_entry_def Let_def
    by (rule sv.bind) (auto intro: sv.then_rel [OF t vote_execute_signature] sv.rel_refl)
qed

lemma vote_execute_sync: "res_all (same_vote s) (execute_append_entries_sync env acc from r s)"
proof (induction acc arbitrary: s)
  case (Cons a acc)
  have nack: "same_vote s (send_ae_response_nack from (log_call c s))" for c
    by (rule same_vote_trans [OF _ frame_vote [OF frame_nack]]) (simp add: sv.rel_refl)
  show ?case
    by (cases a) (auto intro: nack sv.rel_refl sv.bind [OF vote_execute_append_entry Cons.IH]
        split: option.split)
qed (simp add: vote_finish)

lemma vote_prepare_entry: "res_all (same_vote s) (prepare_entry env r i s)"
  by (auto simp: prepare_entry_def sv.rel_refl intro: sv.bind [OF vote_rollback])

lemma vote_deserialise: "res_all (same_vote s) (deserialise_entries env n r i data acc s)"
proof (induction env n r i data acc s rule: deserialise_entries.induct)
  case (1 env n r i data acc s)
  have fetch: "res_all (same_vote s) (bind_res (prepare_entry env r i s) (\<lambda>s1.
             case get_entry data of
               Inl e \<Rightarrow> Throw (SerError e) s1
             | Inr (entry, rest) \<Rightarrow>
                 (case deserialize env entry (public_only s1)
                         \<lparr>tx_view = ae_term_of_idx r, tx_seqno = i\<rparr> of
                    None \<Rightarrow> Ok (send_ae_response_nack n s1)
                  | Some ds \<Rightarrow>
                      deserialise_entries env n r (add64 i 1) rest (acc @ [(ds, i)]) s1)))"
    if "i \<le> ae_idx r" "entry_action r i s = EntryRollback \<or> entry_action r i s = EntryFetch"
    using that 1(2,3)
    by (intro sv.bind [OF vote_prepare_entry])
      (auto simp: sv.rel_refl frame_vote frame_nack split: sum.splits option.splits)
  show ?case
    using fetch 1(1)
    by (subst deserialise_entries.simps)
      (auto simp: sv.rel_refl vote_execute_sync split: entry_action.splits sum.splits)
qed

lemma kept_recv_append_entries:
  assumes "\<not> (current_view s = ae_term r \<and> is_candidate s)"
    "\<not> (current_view s = ae_term r \<and> leadership_state s = PreVoteCandidate)"
  shows "res_all (vote_kept s) (recv_append_entries env from r data s)"
proof (cases "current_view s > ae_term r")
  case False
  define s1 where "s1 = (if current_view s = ae_term r \<and>
                     (leadership_state s = Candidate \<or> leadership_state s = PreVoteCandidate) \<or>
                     current_view s < ae_term r
                  then become_aware_of_new_term env (ae_term r) s else s)"
  define s2 where "s2 = restart_election_timeout env s1"
  define s3 where "s3 = (if leader_id s2 \<noteq> Some from then s2\<lparr>leader_id := Some from\<rparr> else s2)"
  have k1: "vote_kept s s1"
    using assms by (auto simp: s1_def is_candidate_def kept_become_aware vote_kept_refl)
  have k3: "vote_kept s s3"
    by (rule kept_then_same [OF k1]) (simp add: s3_def s2_def restart_election_timeout_def sv.rel_refl)
  have d: "res_all (vote_kept s) (deserialise_entries env from r i data [] s3)" for i
    by (rule kept_bind_same [OF k3 vote_deserialise])
  have n: "vote_kept s (send_ae_response_nack from s1)"
    "res_all (vote_kept s) (send_ae_response_nack_tx from tx s1)" for tx
    by (rule kept_then_same [OF k1 frame_vote [OF frame_nack]],
        rule kept_bind_same [OF k1 frame_res_vote [OF frame_nack_tx]])
  show ?thesis
    using False n k3 d
    unfolding recv_append_entries_def Let_def s1_def [symmetric] s2_def [symmetric] s3_def [symmetric]
    by simp
qed (simp add: recv_append_entries_def same_vote_kept frame_vote frame_nack)

lemma vote_put_entry: "same_vote s (put_entry be s)"
proof -
  have "same_vote s (replicate_committable i s)" for i
    using frame_vote [OF frame_replicate_committable [of s i]] by (simp add: same_vote_def)
  then show ?thesis by (simp add: put_entry_def Let_def sv.rel_refl)
qed

lemma vote_send_all: "res_all (same_vote s) (for_each (send_next_entries env) ns s)"
  by (rule frame_res_vote [OF fl.each]) (rule frame_send_next)

lemma vote_batch_size: "same_vote s (update_batch_size s)"
  by (simp add: update_batch_size_def Let_def sv.rel_refl)

lemma vote_replicate_entry: "res_all (same_vote s) (replicate_entry env be s)"
proof -
  have u: "res_all (same_vote t) (bind_res (update_view_history i v t) (\<lambda>s5.
        if entry_size_not_limited s5 \<ge> append_entries_size_limit then
          for_each (send_next_entries env)
            (map fst (all_other_nodes ((update_batch_size s5)\<lparr>entry_count := 0, entry_size_not_limited := 0\<rparr>)))
            ((update_batch_size s5)\<lparr>entry_count := 0, entry_size_not_limited := 0\<rparr>)
        else Ok s5))" for t i v
    by (rule sv.bind [OF vote_update_view_history])
      (auto intro!: sv.rel_refl sv.then_rel [OF _ vote_send_all] simp: vote_batch_size)
  show ?thesis
    unfolding replicate_entry_def Let_def
    by (rule sv.bind [OF frame_res_vote [OF frame_hooks]], rule sv.then_rel [OF _ u])
      (simp add: vote_put_entry)
qed

lemma vote_replicate_loop: "res_all (same_vote s) (snd (replicate_loop env entries s))"
proof (induction entries arbitrary: s)
  case (Cons be bes)
  have "res_all (same_vote s) (replicate_entry env be s)" by (rule vote_replicate_entry)
  then show ?case
    using Cons.IH by (auto simp: sv.rel_refl split: aft_res.splits intro: sv.then_rel)
qed (simp add: entries_res_vote [OF same_update_commit] sv.rel_refl)

lemma vote_replicate_batch: "res_all (same_vote s) (snd (replicate_batch env entries v s))"
  by (simp add: replicate_batch_def vote_rollback vote_replicate_loop sv.rel_refl)

lemma kept_periodic:
  assumes "current_view s < max64"
  shows "res_all (vote_kept s) (periodic env elapsed s)"
proof -
  let ?s1 = "s\<lparr>timeout_elapsed := timeout_elapsed s + elapsed\<rparr>"
  have s1: "same_vote s ?s1" "current_view ?s1 < max64" using assms by (simp_all add: sv.rel_refl)
  have a: "res_all (same_vote t) (if \<not> every_active_config_has_a_quorum (add_ack_timeouts elapsed t)
      then Ok (become_follower env (add_ack_timeouts elapsed t)) else Ok (add_ack_timeouts elapsed t))" for t
    using same_vote_trans [OF _ frame_vote [OF frame_become_follower], of t "add_ack_timeouts elapsed t"]
    by (simp add: add_ack_timeouts_def sv.rel_refl)
  have b: "res_all (same_vote s) (if timeout_elapsed ?s1 \<ge> request_timeout ?s1 then
      (for_each (send_next_entries env) (map fst (all_other_nodes (update_batch_size (?s1\<lparr>timeout_elapsed := 0\<rparr>))))
         (update_batch_size (?s1\<lparr>timeout_elapsed := 0\<rparr>))) else Ok ?s1)"
    using sv.then_rel [OF same_vote_trans [OF _ vote_batch_size] vote_send_all, of s "?s1\<lparr>timeout_elapsed := 0\<rparr>"]
    by (simp add: sv.rel_refl)
  have c: "res_all (vote_kept s) (become_pre_vote_candidate env ?s1)"
    by (rule res_all_mono [OF kept_become_pre_vote [OF s1(2)]]) (rule same_then_kept [OF s1(1)])
  have d: "res_all (vote_kept s) (become_candidate env ?s1)"
    by (rule res_all_mono [OF kept_become_candidate [OF s1(2)]]) (rule same_then_kept [OF s1(1)])
  show ?thesis
    unfolding periodic_def Let_def
  proof (cases "leadership_state ?s1 = Leader", goal_cases)
    case 1
    show ?case by (subst if_P [OF 1]) (rule res_vote_kept [OF sv.bind [OF b a]])
  next
    case 2
    show ?case
      by (subst if_not_P [OF 2]) (use c d same_vote_kept [OF s1(1)] in auto)
  qed
qed

text \<open>
  The one message that makes a node forget its vote: an AppendEntries of its own view, received as a
  candidate or as a pre-vote candidate.
\<close>

definition clears_vote :: "bytes \<Rightarrow> aft \<Rightarrow> bool" where
  "clears_vote data s \<longleftrightarrow>
     ser_peek 8 data = Inr (msg_type_value raft_append_entries) \<and>
     (case overlay_append_entries data of Inl e \<Rightarrow> False
      | Inr (r, rest) \<Rightarrow> ae_term r = current_view s \<and>
          (leadership_state s = Candidate \<or> leadership_state s = PreVoteCandidate))"

lemma kept_with_msg:
  "(\<And>m payload. r = Inr (m, payload) \<Longrightarrow> res_all (vote_kept s) (f m payload s)) \<Longrightarrow>
     res_all (vote_kept s) (with_msg r f s)"
  by (auto simp: with_msg_def vote_kept_refl split: sum.splits)

lemma kept_recv_message:
  assumes "current_view s < max64" "\<not> clears_vote data s"
  shows "res_all (vote_kept s) (recv_message env from data s)"
proof -
  have ae: "res_all (vote_kept s) (recv_append_entries env from r payload s)"
    if "recv_authenticated env overlay_append_entries from data = Inr (r, payload)"
      "ser_peek 8 data = Inr (msg_type_value raft_append_entries)" for r payload
    using recv_authenticated_InrD [OF that(1)] that(2) assms(2)
    by (intro kept_recv_append_entries) (auto simp: clears_vote_def is_candidate_def)
  have "res_all (vote_kept s) (dispatch env t from data s)" if "ser_peek 8 data = Inr t" for t
    using that unfolding dispatch_def
    by (auto intro!: kept_with_msg ae kept_recv_append_entries_response kept_recv_vote_response [OF assms(1)]
        vote_kept_refl kept_recv_request_vote_unsafe kept_become_candidate [OF assms(1)]
        simp: recv_request_vote_def recv_request_pre_vote_def recv_request_vote_response_def
        recv_request_pre_vote_response_def recv_propose_request_vote_def)
  then have "res_all (vote_kept s) (catch_all (dispatch env t from data s))" if "ser_peek 8 data = Inr t" for t
    using that by (cases "dispatch env t from data s") (metis catch_all.simps res_all.simps)+
  then show ?thesis by (auto simp: recv_message_def vote_kept_refl split: sum.splits)
qed

inductive voting_step :: "raft_env \<Rightarrow> aft \<Rightarrow> aft \<Rightarrow> bool" for env where
  receive: "current_view s < max64 \<Longrightarrow> \<not> clears_vote data s \<Longrightarrow> recv_message env from data s = r \<Longrightarrow>
    r = Ok t \<or> r = Throw e t \<Longrightarrow> voting_step env s t"
| tick: "current_view s < max64 \<Longrightarrow> periodic env elapsed s = r \<Longrightarrow> r = Ok t \<or> r = Throw e t \<Longrightarrow>
    voting_step env s t"
| replicated: "snd (replicate_batch env entries v s) = r \<Longrightarrow> r = Ok t \<or> r = Throw e t \<Longrightarrow>
    voting_step env s t"

inductive_cases voting_stepE: "voting_step env s t"

lemma voting_step_kept: "voting_step env s t \<Longrightarrow> vote_kept s t"
  using kept_recv_message kept_periodic res_vote_kept [OF vote_replicate_batch]
  by (elim voting_stepE) (metis res_all.simps)+

lemma vote_kept_trans: "vote_kept s t \<Longrightarrow> vote_kept t u \<Longrightarrow> vote_kept s u"
  by (auto simp: vote_kept_def)

lemma voting_run_kept: "(voting_step env)\<^sup>*\<^sup>* s t \<Longrightarrow> vote_kept s t"
  by (induction rule: rtranclp_induct) (auto intro: vote_kept_refl vote_kept_trans voting_step_kept)

section \<open>Properties\<close>



text \<open>
  C4. What elects a leader: after a candidate has reset its count and recorded the votes of a list of
  nodes, it counts as elected exactly if, in every active configuration, those of the voters that are
  members of it are a majority of it.
\<close>

theorem elected_iff_majorities:
  assumes "configs_ok s"
  shows "is_elected (fold record_vote ns (reset_votes_for_me s)) \<longleftrightarrow>
     (\<forall>c\<in>set (configurations s). majority c (set ns \<inter> set (node_keys (cfg_nodes c))))"
  by (rule elected_majorities [OF assms])

theorem elected_iff_majorities_witness:
  "is_elected (fold record_vote [''A'', ''C''] (reset_votes_for_me sample_leader)) \<and>
   \<not> is_elected (fold record_vote [''A'', ''X''] (reset_votes_for_me sample_leader))"
proof -
  have "configs_ok sample_leader" by code_simp
  moreover have "\<forall>c\<in>set (configurations sample_leader). majority c (set [''A'', ''C''] \<inter> set (node_keys (cfg_nodes c)))"
    "\<not> (\<forall>c\<in>set (configurations sample_leader). majority c (set [''A'', ''X''] \<inter> set (node_keys (cfg_nodes c))))"
    by code_simp+
  ultimately show ?thesis using elected_iff_majorities by blast
qed


text \<open>
  C9. Two elections over a common active configuration share a voter: if two nodes count as elected
  by the votes of two lists of nodes, whatever else is configured at each of them, then some member
  of the common configuration voted in both elections.
\<close>

theorem elections_share_voter:
  assumes "configs_ok s" "configs_ok s'" "c \<in> set (configurations s)" "c \<in> set (configurations s')"
    and "is_elected (fold record_vote ns (reset_votes_for_me s))"
    and "is_elected (fold record_vote ns' (reset_votes_for_me s'))"
  shows "\<exists>n\<in>set (node_keys (cfg_nodes c)). n \<in> set ns \<and> n \<in> set ns'"
proof -
  have "majority c (set ns \<inter> set (node_keys (cfg_nodes c)))" "majority c (set ns' \<inter> set (node_keys (cfg_nodes c)))"
    using elected_majorities [OF assms(1)] elected_majorities [OF assms(2)] assms(3-6) by simp_all
  then show ?thesis using maj.quorums_meet by blast
qed

theorem elections_share_voter_witness:
  "\<exists>n\<in>{''A'', ''B'', ''C''}. n \<in> set [''A'', ''C''] \<and> n \<in> set [''B'', ''C'']"
proof -
  have "configs_ok sample_leader" "configs_ok sample_follower"
    "hd (configurations sample_leader) \<in> set (configurations sample_leader)"
    "hd (configurations sample_leader) \<in> set (configurations sample_follower)"
    "is_elected (fold record_vote [''A'', ''C''] (reset_votes_for_me sample_leader))"
    "is_elected (fold record_vote [''B'', ''C''] (reset_votes_for_me sample_follower))"
    "set (node_keys (cfg_nodes (hd (configurations sample_leader)))) = {''A'', ''B'', ''C''}"
    by code_simp+
  then show ?thesis
    using elections_share_voter [of sample_leader sample_follower "hd (configurations sample_leader)"
        "[''A'', ''C'']" "[''B'', ''C'']"] by simp
qed

text \<open>
  C8. An election meets every commit: if an index is replicated to a majority of a configuration, as
  a leader requires of every index it commits, and a candidate counts as elected with the same
  configuration active, then one of its voters is known to hold the log up to that index.
\<close>

theorem election_meets_commit:
  assumes "configs_ok s" "c \<in> set (configurations s)" "majority_replicated l k c"
    and "is_elected (fold record_vote ns (reset_votes_for_me s))"
  shows "\<exists>n\<in>set ns. n \<in> set (node_keys (cfg_nodes c)) \<and> replicated l k n"
proof -
  have "majority c (set ns \<inter> set (node_keys (cfg_nodes c)))"
    using elected_majorities [OF assms(1)] assms(2,4) by simp
  moreover have "majority c {n \<in> set (node_keys (cfg_nodes c)). replicated l k n}"
    using assms(1-3) by (intro majority_replicated_quorum) (auto simp: configs_ok_def)
  ultimately show ?thesis using maj.quorums_meet by blast
qed

theorem election_meets_commit_witness:
  "\<exists>n\<in>set [''B'', ''C'']. n \<in> {''A'', ''B'', ''C''} \<and> replicated sample_leader 5 n"
proof -
  have "configs_ok sample_follower" "hd (configurations sample_leader) \<in> set (configurations sample_follower)"
    "majority_replicated sample_leader 5 (hd (configurations sample_leader))"
    "is_elected (fold record_vote [''B'', ''C''] (reset_votes_for_me sample_follower))"
    "set (node_keys (cfg_nodes (hd (configurations sample_leader)))) = {''A'', ''B'', ''C''}"
    by code_simp+
  then show ?thesis
    using election_meets_commit [of sample_follower "hd (configurations sample_leader)" sample_leader 5
        "[''B'', ''C'']"] by simp
qed

text \<open>
  C6. The view of a node never decreases, and a vote is not taken back within a view: along every run
  of messages, ticks and batches in which no AppendEntries of the node's own view reaches it while it
  is a candidate or a pre-vote candidate, a vote that it has cast stays cast for the same candidate
  until the view changes.
\<close>

theorem one_vote_per_view:
  assumes "(voting_step env)\<^sup>*\<^sup>* s t"
  shows "current_view s \<le> current_view t \<and>
     (current_view t = current_view s \<longrightarrow> voted_for s \<noteq> None \<longrightarrow> voted_for t = voted_for s)"
  using voting_run_kept [OF assms] by (simp add: vote_kept_def)

theorem one_vote_per_view_witness:
  "\<exists>t. (voting_step sample_env)\<^sup>*\<^sup>* (sample_follower\<lparr>voted_for := Some ''A''\<rparr>) t \<and>
     commit_idx t = 3 \<and> voted_for t = Some ''A''"
proof -
  let ?s = "sample_follower\<lparr>voted_for := Some ''A''\<rparr>"
  have "res_check (\<lambda>t. commit_idx t = 3 \<and> current_view t = 1) (recv_message sample_env ''A'' sample_data ?s)"
    by code_simp
  then obtain t where t: "recv_message sample_env ''A'' sample_data ?s = Ok t" "commit_idx t = 3 \<and> current_view t = 1"
    by (rule res_checkE)
  have "\<not> clears_vote sample_data ?s" "current_view ?s < max64" "current_view ?s = 1" by code_simp+
  moreover have "(voting_step sample_env)\<^sup>*\<^sup>* ?s t"
    using calculation t(1) by (intro r_into_rtranclp voting_step.receive [where e = OutOfRange]) auto
  ultimately show ?thesis using one_vote_per_view t(2) by fastforce
qed

end
