(* ===== verification/Raft_Network.thy ===== *)
theory Raft_Network
  imports Raft_Elections
begin

text \<open>
  Several nodes that exchange messages. A schedule interleaves clock ticks and deliveries; a message
  is delivered only if its sender has sent it to that node, any number of times and at any later
  moment, as an asynchronous network allows.
\<close>

datatype net_event = Tick node_id int | Deliver node_id node_id raft_msg

type_synonym net = "(node_id \<times> aft) list"

definition net_update :: "node_id \<Rightarrow> aft_res \<Rightarrow> net \<Rightarrow> net option" where
  "net_update n r net = (case r of
       Ok t \<Rightarrow> Some (AList.update n t net)
     | Throw e t \<Rightarrow> Some (AList.update n t net)
     | Diverge \<Rightarrow> None)"

fun net_step :: "raft_env \<Rightarrow> net_event \<Rightarrow> net \<Rightarrow> net option" where
  "net_step env (Tick n elapsed) net =
     (case map_of net n of
        None \<Rightarrow> None
      | Some s \<Rightarrow> net_update n (periodic env elapsed s) net)"
| "net_step env (Deliver from to_node m) net =
     (case (map_of net from, map_of net to_node) of
        (Some s, Some t) \<Rightarrow>
          if SendAuthenticated to_node m \<in> set (ext_calls s)
          then net_update to_node (recv_message env from (encode_msg m) t) net
          else None
      | _ \<Rightarrow> None)"

fun net_run :: "raft_env \<Rightarrow> net_event list \<Rightarrow> net \<Rightarrow> net option" where
  "net_run env [] net = Some net"
| "net_run env (e # es) net = Option.bind (net_step env e net) (net_run env es)"

definition start_net :: net where
  "start_net = [(''A'', sample_node ''A'' [''B'', ''C'']), (''B'', sample_node ''B'' [''A'', ''C'']),
     (''C'', sample_node ''C'' [''A'', ''B''])]"

definition vote_req :: "view \<Rightarrow> request_vote" where
  "vote_req v = \<lparr>rv_term = v, rv_last_committable_idx = 0, rv_term_of_last_committable_idx = 0\<rparr>"

definition granted :: "view \<Rightarrow> request_vote_response" where
  "granted v = \<lparr>rvr_term = v, rvr_vote_granted = True\<rparr>"

definition heartbeat :: append_entries where
  "heartbeat = \<lparr>ae_idx = 0, ae_prev_idx = 0, ae_term = 1, ae_prev_term = 0, ae_leader_commit_idx = 0,
     ae_term_of_idx = 0, ae_contains_new_view = False\<rparr>"

text \<open>
  Nodes A and C time out together and both collect a pre-vote of B. B votes for A, which becomes the
  leader of view 1. B then times out into a pre-vote, hears A's heartbeat, times out again, and gets
  C's vote request, which was on its way all the time.
\<close>

definition split_vote :: "net_event list" where
  "split_vote =
    [Tick ''A'' 100, Tick ''C'' 100,
     Deliver ''A'' ''B'' (RequestPreVote (vote_req 0)), Deliver ''C'' ''B'' (RequestPreVote (vote_req 0)),
     Deliver ''B'' ''A'' (RequestPreVoteResponse (granted 0)),
     Deliver ''B'' ''C'' (RequestPreVoteResponse (granted 0)),
     Deliver ''A'' ''B'' (RequestVote (vote_req 1)), Deliver ''B'' ''A'' (RequestVoteResponse (granted 1)),
     Tick ''B'' 100, Deliver ''A'' ''B'' (AppendEntries heartbeat), Tick ''B'' 100,
     Deliver ''C'' ''B'' (RequestVote (vote_req 1)), Deliver ''B'' ''C'' (RequestVoteResponse (granted 1))]"

definition leads :: "node_id \<Rightarrow> view \<Rightarrow> net \<Rightarrow> bool" where
  "leads n v net = (case map_of net n of None \<Rightarrow> False
     | Some s \<Rightarrow> leadership_state s = Leader \<and> current_view s = v)"

definition voted :: "node_id \<Rightarrow> node_id \<Rightarrow> view \<Rightarrow> net \<Rightarrow> bool" where
  "voted n candidate v net = (case map_of net n of None \<Rightarrow> False
     | Some s \<Rightarrow> SendAuthenticated candidate (RequestVoteResponse (granted v)) \<in> set (ext_calls s))"

section \<open>Properties\<close>


end
