(* ===== verification/Contiguous_Set.thy ===== *)
theory Contiguous_Set
  imports CCF_Prelude
begin

text \<open>
  The set of sequence numbers of \<^verbatim>\<open>include/ccf/ds/contiguous_set.h\<close>, kept as a vector of
  ranges (first value, number of additional values), with its iterators over the elements. The
  elements are \<^verbatim>\<open>uint64_t\<close>. An iterator is the index of a range and an offset in it, and an
  operation that would read past either end of the vector, undefined in C++, is \<^const>\<open>None\<close>.
\<close>

section \<open>The vector of ranges\<close>

type_synonym range = "nat \<times> nat"
type_synonym contiguous_set = "range list"

definition range_less :: "range \<Rightarrow> range \<Rightarrow> bool" where
  "range_less a b \<longleftrightarrow> fst a < fst b \<or> fst a = fst b \<and> snd a < snd b"

definition maybe_merge_with_following :: "contiguous_set \<Rightarrow> nat \<Rightarrow> contiguous_set" where
  "maybe_merge_with_following rs i =
     (if i < length rs \<and> Suc i < length rs then
        (let (from, additional) = rs ! i; (from', additional') = rs ! Suc i in
         if add64 (add64 from additional) 1 = from'
         then take i rs @ (from, add64 (add64 additional 1) additional') # drop (i + 2) rs
         else rs)
      else rs)"

text \<open>A reverse iterator is its distance from \<^verbatim>\<open>rbegin()\<close>; \<^verbatim>\<open>rend()\<close> is the length.\<close>

definition maybe_merge_reverse :: "contiguous_set \<Rightarrow> nat \<Rightarrow> contiguous_set" where
  "maybe_merge_reverse rs r =
     (if r \<noteq> length rs then maybe_merge_with_following rs (length rs - Suc r) else rs)"

definition find_internal :: "contiguous_set \<Rightarrow> nat \<Rightarrow> nat" where
  "find_internal rs t =
     (let i = length (takeWhile (\<lambda>r. range_less r (t, 0)) rs) in
      if i < length rs \<and> fst (rs ! i) = t then i
      else if i \<noteq> 0 \<and> t \<le> add64 (fst (rs ! (i - 1))) (snd (rs ! (i - 1))) then i - 1
      else length rs)"

definition cs_size :: "contiguous_set \<Rightarrow> nat" where
  "cs_size rs = foldl (\<lambda>n r. add64 (add64 n (snd r)) 1 mod 2 ^ 32) 0 rs"

definition cs_empty :: "contiguous_set \<Rightarrow> bool" where
  "cs_empty rs \<longleftrightarrow> rs = []"

definition cs_from_range :: "nat \<Rightarrow> nat \<Rightarrow> contiguous_set" where
  "cs_from_range from additional = [(from, additional)]"

definition cs_clear :: "contiguous_set \<Rightarrow> contiguous_set" where
  "cs_clear rs = []"

definition cs_insert :: "contiguous_set \<Rightarrow> nat \<Rightarrow> contiguous_set \<times> bool" where
  "cs_insert rs t =
     (let r = length (takeWhile (range_less (add64 t 1, 0)) (rev rs));
          base = length rs - r;
          emplaced = (maybe_merge_with_following (take base rs @ (t, 0) # drop base rs) base, True)
      in
      if r \<noteq> length rs then
        (let i = base - 1; (from, additional) = rs ! i in
         if from \<le> t \<and> t \<le> add64 from additional then (rs, False)
         else if add64 (add64 from additional) 1 = t then
           (maybe_merge_reverse (rs[i := (from, add64 additional 1)]) r, True)
         else if add64 t 1 = from then
           (maybe_merge_reverse (rs[i := (t, add64 additional 1)]) (Suc r), True)
         else emplaced)
      else emplaced)"

definition cs_erase :: "contiguous_set \<Rightarrow> nat \<Rightarrow> contiguous_set \<times> bool" where
  "cs_erase rs t =
     (let k = length (takeWhile (\<lambda>r. fst r < t) rs);
          i = (if k \<noteq> 0 \<and> (k = length rs \<or> t \<noteq> fst (rs ! k)) then k - 1 else k)
      in
      if i < length rs then
        (let (from, additional) = rs ! i in
         if from \<le> t \<and> t \<le> add64 from additional then
           (if from = t then
              (if additional = 0 then (take i rs @ drop (Suc i) rs, True)
               else (rs[i := (add64 from 1, sub64 additional 1)], True))
            else if t = add64 from additional then (rs[i := (from, sub64 additional 1)], True)
            else
              (let before = sub64 (sub64 t from) 1;
                   after = sub64 (sub64 (add64 from additional) t) 1
               in (take i rs @ (from, before) # (add64 t 1, after) # drop (Suc i) rs, True)))
         else (rs, False))
      else (rs, False))"

text \<open>
  \<^verbatim>\<open>extend\<close> counts up to its last value in \<^verbatim>\<open>uint64_t\<close>, so it does not end when that value
  is the largest of the type.
\<close>

partial_function (option) extend_loop ::
  "contiguous_set \<Rightarrow> nat \<Rightarrow> nat \<Rightarrow> contiguous_set option"
where
  "extend_loop rs n to =
     (if n \<le> to then extend_loop (fst (cs_insert rs n)) (add64 n 1) to else Some rs)"

declare extend_loop.simps [code]

definition cs_extend :: "contiguous_set \<Rightarrow> nat \<Rightarrow> nat \<Rightarrow> contiguous_set option" where
  "cs_extend rs from additional = extend_loop rs from (add64 from additional)"

definition cs_contains :: "contiguous_set \<Rightarrow> nat \<Rightarrow> bool" where
  "cs_contains rs t \<longleftrightarrow> find_internal rs t \<noteq> length rs"

definition cs_front :: "contiguous_set \<Rightarrow> nat option" where
  "cs_front rs = (if rs = [] then None else Some (fst (hd rs)))"

definition cs_back :: "contiguous_set \<Rightarrow> nat option" where
  "cs_back rs = (if rs = [] then None else Some (add64 (fst (last rs)) (snd (last rs))))"

section \<open>Iterators\<close>

type_synonym cs_iter = "nat \<times> nat"

definition cs_begin :: "contiguous_set \<Rightarrow> cs_iter" where
  "cs_begin rs = (0, 0)"

definition cs_end :: "contiguous_set \<Rightarrow> cs_iter" where
  "cs_end rs = (length rs, 0)"

definition it_deref :: "contiguous_set \<Rightarrow> cs_iter \<Rightarrow> nat option" where
  "it_deref rs it =
     (if fst it < length rs then Some (add64 (fst (rs ! fst it)) (snd it)) else None)"

definition it_incr :: "contiguous_set \<Rightarrow> cs_iter \<Rightarrow> cs_iter option" where
  "it_incr rs it =
     (if fst it < length rs then
        (let offset = add64 (snd it) 1 in
         Some (if snd (rs ! fst it) < offset then (Suc (fst it), 0) else (fst it, offset)))
      else None)"

definition it_decr :: "contiguous_set \<Rightarrow> cs_iter \<Rightarrow> cs_iter option" where
  "it_decr rs it =
     (if snd it = 0 then
        (if fst it = 0 then None else Some (fst it - 1, snd (rs ! (fst it - 1))))
      else Some (fst it, snd it - 1))"

function it_advance :: "contiguous_set \<Rightarrow> cs_iter \<Rightarrow> nat \<Rightarrow> cs_iter option" where
  "it_advance rs (i, offset) n =
     (if length rs \<le> i then None
      else if snd (rs ! i) < add64 offset n
      then it_advance rs (Suc i, 0) (sub64 n (add64 (sub64 (snd (rs ! i)) offset) 1))
      else Some (i, add64 offset n))"
  by pat_completeness auto
termination
  by (relation "measure (\<lambda>(rs, it, n). length rs - fst it)") auto

declare it_advance.simps [simp del]

fun it_retreat :: "contiguous_set \<Rightarrow> nat \<Rightarrow> nat \<Rightarrow> nat \<Rightarrow> cs_iter option" where
  "it_retreat rs 0 offset n = (if offset < n then None else Some (0, offset - n))"
| "it_retreat rs (Suc i) offset n =
     (if offset < n then it_retreat rs i (snd (rs ! i)) (sub64 n (add64 offset 1))
      else Some (Suc i, offset - n))"

definition it_diff_from :: "contiguous_set \<Rightarrow> cs_iter \<Rightarrow> cs_iter \<Rightarrow> nat" where
  "it_diff_from rs it other =
     add64 (foldl (\<lambda>acc r. add64 (add64 acc (snd r)) 1) (add64 (snd it) 1)
              (rev (drop (Suc (fst other)) (take (fst it) rs))))
       (sub64 (snd (rs ! fst other)) (snd other))"

definition it_diff :: "contiguous_set \<Rightarrow> cs_iter \<Rightarrow> cs_iter \<Rightarrow> nat" where
  "it_diff rs it other =
     (if fst it = fst other then sub64 (snd it) (snd other)
      else if fst it < fst other then sub64 0 (it_diff_from rs other it)
      else it_diff_from rs it other)"

text \<open>
  \<^verbatim>\<open>std::lower_bound\<close> and \<^verbatim>\<open>std::upper_bound\<close> over these iterators: the binary search that
  halves \<^verbatim>\<open>len\<close>, moving \<^verbatim>\<open>first\<close> past the middle element while \<open>P\<close> holds of it.
\<close>

function it_search :: "contiguous_set \<Rightarrow> (nat \<Rightarrow> bool) \<Rightarrow> cs_iter \<Rightarrow> nat \<Rightarrow> cs_iter option" where
  "it_search rs P it len =
     (if len = 0 then Some it
      else case it_advance rs it (len div 2) of
        None \<Rightarrow> None
      | Some middle \<Rightarrow>
          (case it_deref rs middle of
             None \<Rightarrow> None
           | Some v \<Rightarrow>
               if P v then
                 (case it_incr rs middle of
                    None \<Rightarrow> None
                  | Some it' \<Rightarrow> it_search rs P it' (len - len div 2 - 1))
               else it_search rs P it (len div 2)))"
  by pat_completeness auto
termination
  by (relation "measure (\<lambda>(rs, P, it, len). len)") auto

declare it_search.simps [simp del]

definition cs_lower_bound :: "contiguous_set \<Rightarrow> nat \<Rightarrow> cs_iter option" where
  "cs_lower_bound rs t =
     it_search rs (\<lambda>v. v < t) (cs_begin rs) (it_diff rs (cs_end rs) (cs_begin rs))"

definition cs_upper_bound :: "contiguous_set \<Rightarrow> nat \<Rightarrow> cs_iter option" where
  "cs_upper_bound rs t =
     it_search rs (\<lambda>v. v \<le> t) (cs_begin rs) (it_diff rs (cs_end rs) (cs_begin rs))"

definition cs_find :: "contiguous_set \<Rightarrow> nat \<Rightarrow> cs_iter" where
  "cs_find rs t =
     (let i = find_internal rs t in
      if i < length rs then (i, sub64 t (fst (rs ! i))) else cs_end rs)"

section \<open>Construction\<close>

text \<open>
  \<^verbatim>\<open>std::adjacent_find\<close> with the test that two neighbours are not consecutive: the position of
  the first of them, if there are any.
\<close>

fun adjacent_gap :: "nat list \<Rightarrow> nat option" where
  "adjacent_gap (a # b # xs) =
     (if add64 a 1 \<noteq> b then Some 0 else map_option Suc (adjacent_gap (b # xs)))"
| "adjacent_gap _ = None"

function ranges_of :: "nat list \<Rightarrow> contiguous_set" where
  "ranges_of [] = []"
| "ranges_of (x # xs) =
     (case adjacent_gap (x # xs) of
        None \<Rightarrow> [(x, length xs)]
      | Some k \<Rightarrow> (x, k) # ranges_of (drop k xs))"
  by pat_completeness auto
termination
  by (relation "measure length") (auto simp: less_Suc_eq_le)

definition init_from_values :: "nat list \<Rightarrow> contiguous_set option" where
  "init_from_values xs = (if sorted xs then Some (ranges_of xs) else None)"

text \<open>
  The sub-range between two iterators of another set. With the iterators in the wrong order the
  vector's range \<^verbatim>\<open>insert\<close> is undefined.
\<close>

definition init_from_iterators ::
  "contiguous_set \<Rightarrow> cs_iter \<Rightarrow> cs_iter \<Rightarrow> contiguous_set option"
where
  "init_from_iterators rs b e =
     (if fst b \<noteq> fst e then
        (if fst e < Suc (fst b) \<or> length rs < fst e \<or> fst e = length rs \<and> snd e \<noteq> 0 then None
         else Some
           ((add64 (fst (rs ! fst b)) (snd b), sub64 (snd (rs ! fst b)) (snd b))
            # drop (Suc (fst b)) (take (fst e) rs)
            @ (if snd e \<noteq> 0 then [(fst (rs ! fst e), sub64 (snd e) 1)] else [])))
      else if snd b < snd e then
        (if fst b < length rs
         then Some [(add64 (fst (rs ! fst b)) (snd b), sub64 (sub64 (snd e) (snd b)) 1)]
         else None)
      else Some [])"

section \<open>The ordered set of its elements\<close>

definition gap :: "range \<Rightarrow> range \<Rightarrow> bool" where
  "gap a b \<longleftrightarrow> fst a + snd a + 1 < fst b"

definition range_set :: "range \<Rightarrow> nat set" where
  "range_set r = {fst r .. fst r + snd r}"

definition cs_set :: "contiguous_set \<Rightarrow> nat set" where
  "cs_set rs = (\<Union>r\<in>set rs. range_set r)"

text \<open>
  The invariant: the ranges ascend, no two of them touch, and the largest value of the type is not an
  element, so that no sum of the operations wraps.
\<close>

definition cs_inv :: "contiguous_set \<Rightarrow> bool" where
  "cs_inv rs \<longleftrightarrow> sorted_wrt gap rs \<and> (\<forall>r\<in>set rs. fst r + snd r < max64)"

lemma cs_inv_Nil [simp]: "cs_inv []"
  by (simp add: cs_inv_def)

lemma cs_inv_Cons [simp]:
  "cs_inv (r # rs) \<longleftrightarrow> fst r + snd r < max64 \<and> (\<forall>x\<in>set rs. gap r x) \<and> cs_inv rs"
  by (auto simp: cs_inv_def)

lemma cs_inv_append [simp]:
  "cs_inv (xs @ ys) \<longleftrightarrow> cs_inv xs \<and> cs_inv ys \<and> (\<forall>x\<in>set xs. \<forall>y\<in>set ys. gap x y)"
  by (auto simp: cs_inv_def sorted_wrt_append)

lemma cs_from_range_inv: "from + additional < max64 \<Longrightarrow> cs_inv (cs_from_range from additional)"
  by (simp add: cs_from_range_def)

lemma cs_from_range_set: "cs_set (cs_from_range from additional) = {from .. from + additional}"
  by (simp add: cs_from_range_def cs_set_def range_set_def)

lemma cs_clear_inv: "cs_inv (cs_clear rs)"
  by (simp add: cs_clear_def)

lemma cs_set_Nil [simp]: "cs_set [] = {}"
  by (simp add: cs_set_def)

lemma cs_set_Cons [simp]: "cs_set (r # rs) = range_set r \<union> cs_set rs"
  by (simp add: cs_set_def)

lemma cs_set_append [simp]: "cs_set (xs @ ys) = cs_set xs \<union> cs_set ys"
  by (simp add: cs_set_def)

lemma gap_trans: "gap a b \<Longrightarrow> gap b c \<Longrightarrow> gap a c"
  by (simp add: gap_def)

lemma max64_value: "1 < max64"
  by (simp add: max64_def two64_def)

subsection \<open>Insertion\<close>

text \<open>
  Every path of \<^verbatim>\<open>insert\<close> places a range between a part of the vector below it and a part above
  it that it may touch, and then merges.
\<close>

lemma merge_between:
  assumes "cs_inv pre" "cs_inv suf" "fst x + snd x < max64"
    and "\<forall>p\<in>set pre. gap p x" "\<forall>y\<in>set suf. fst x + snd x + 1 \<le> fst y"
  defines "out \<equiv> maybe_merge_with_following (pre @ x # suf) (length pre)"
  shows "cs_inv out \<and> cs_set out = range_set x \<union> cs_set (pre @ suf)"
proof (cases suf)
  case Nil
  then show ?thesis using assms by (auto simp: maybe_merge_with_following_def)
next
  case (Cons y ys)
  obtain f a f' a' where x: "x = (f, a)" and y: "y = (f', a')" by fastforce
  have wrap: "add64 (add64 f a) 1 = f + a + 1" using assms(3) x by (simp add: u64_simps)
  show ?thesis
  proof (cases "f + a + 1 = f'")
    case True
    have bound: "f' + a' < max64" using assms(2) Cons y by simp
    then have len: "add64 (add64 a 1) a' = a + 1 + a'" using True by (simp add: u64_simps)
    have out: "out = pre @ (f, a + 1 + a') # ys"
      using True Cons x y wrap len by (simp add: out_def maybe_merge_with_following_def nth_append)
    have "range_set (f, a + 1 + a') = range_set x \<union> range_set y"
      using True x y by (auto simp: range_set_def)
    moreover have "\<forall>p\<in>set pre. \<forall>z\<in>set ys. gap p z"
      using assms(4,5) Cons by (fastforce simp: gap_def)
    ultimately show ?thesis using out assms True Cons x y bound by (auto simp: gap_def)
  next
    case False
    have out: "out = pre @ x # suf"
      using False Cons x y wrap by (simp add: out_def maybe_merge_with_following_def nth_append)
    have "\<forall>z\<in>set suf. gap x z"
      using False assms(2,5) Cons x y by (fastforce simp: gap_def)
    moreover have "\<forall>p\<in>set pre. \<forall>z\<in>set suf. gap p z"
      using calculation assms(4) gap_trans by blast
    ultimately show ?thesis using out assms by auto
  qed
qed

lemma pop_back_while_split: "rs = pop_back_while P rs @ rev (takeWhile P (rev rs))"
  unfolding pop_back_while_def by (metis rev_append rev_rev_ident takeWhile_dropWhile_id)

lemma insert_split:
  fixes rs :: contiguous_set
  obtains pre suf where "rs = pre @ suf" "length suf = length (takeWhile P (rev rs))" "\<forall>y\<in>set suf. P y"
    "pre \<noteq> [] \<longrightarrow> \<not> P (last pre)"
proof (rule that [of "pop_back_while P rs" "rev (takeWhile P (rev rs))"])
  show "rs = pop_back_while P rs @ rev (takeWhile P (rev rs))" by (rule pop_back_while_split)
qed (auto dest: set_takeWhileD last_pop_back_while)

lemma cs_insert_split:
  assumes "length suf = length (takeWhile (range_less (add64 t 1, 0)) (rev (pre @ suf)))"
  defines "emplaced \<equiv> (maybe_merge_with_following (pre @ (t, 0) # suf) (length pre), True)"
  shows "pre = [] \<Longrightarrow> cs_insert (pre @ suf) t = emplaced"
    and "pre = p @ [(f, a)] \<Longrightarrow> cs_insert (pre @ suf) t =
      (if f \<le> t \<and> t \<le> add64 f a then (pre @ suf, False)
       else if add64 (add64 f a) 1 = t then
         (maybe_merge_with_following (p @ (f, add64 a 1) # suf) (length p), True)
       else if add64 t 1 = f then
         (maybe_merge_reverse (p @ (t, add64 a 1) # suf) (Suc (length suf)), True)
       else emplaced)"
proof -
  show "cs_insert (pre @ suf) t = emplaced" if "pre = []"
    by (simp only: cs_insert_def Let_def assms(1) [symmetric]) (simp add: emplaced_def that)
  show "cs_insert (pre @ suf) t =
      (if f \<le> t \<and> t \<le> add64 f a then (pre @ suf, False)
       else if add64 (add64 f a) 1 = t then
         (maybe_merge_with_following (p @ (f, add64 a 1) # suf) (length p), True)
       else if add64 t 1 = f then
         (maybe_merge_reverse (p @ (t, add64 a 1) # suf) (Suc (length suf)), True)
       else emplaced)" if "pre = p @ [(f, a)]"
    by (simp only: cs_insert_def Let_def assms(1) [symmetric])
      (simp add: that emplaced_def nth_append list_update_append maybe_merge_reverse_def)
qed

lemma extend_down:
  assumes inv: "cs_inv (p @ (t + 1, a) # suf)"
  defines "out \<equiv> maybe_merge_reverse (p @ (t, a + 1) # suf) (Suc (length suf))"
  shows "cs_inv out \<and> cs_set out = insert t (cs_set (p @ (t + 1, a) # suf))"
proof -
  have range: "range_set (t, a + 1) = insert t (range_set (t + 1, a))" by (auto simp: range_set_def)
  have suf: "cs_inv ((t, a + 1) # suf)" using inv by (auto simp: gap_def)
  show ?thesis
  proof (cases p rule: rev_cases)
    case Nil
    then show ?thesis using suf range by (simp add: out_def maybe_merge_reverse_def)
  next
    case (snoc q z)
    then have "cs_inv q \<and> (\<forall>p\<in>set q. gap p z) \<and> fst z + snd z < max64" using inv by simp
    moreover have "\<forall>y\<in>set ((t, a + 1) # suf). fst z + snd z + 1 \<le> fst y"
      using inv snoc by (auto simp: gap_def)
    ultimately show ?thesis
      using merge_between [of q "(t, a + 1) # suf" z] suf range snoc
      by (simp add: out_def maybe_merge_reverse_def insert_commute Un_commute Un_left_commute)
  qed
qed

lemma cs_insert_correct:
  assumes inv: "cs_inv rs" and t: "t < max64"
  shows "cs_inv (fst (cs_insert rs t)) \<and> cs_set (fst (cs_insert rs t)) = insert t (cs_set rs)
    \<and> snd (cs_insert rs t) = (t \<notin> cs_set rs)"
proof -
  let ?P = "range_less (add64 t 1, 0)"
  obtain pre suf where rs: "rs = pre @ suf" and r: "length suf = length (takeWhile ?P (rev rs))"
    and suf: "\<forall>y\<in>set suf. ?P y" and pre: "pre \<noteq> [] \<longrightarrow> \<not> ?P (last pre)"
    using insert_split [of rs ?P] by metis
  have t1: "add64 t 1 = t + 1" using t by (simp add: u64_simps)
  have above: "\<forall>y\<in>set suf. t + 1 \<le> fst y" using suf t1 by (auto simp: range_less_def)
  have inv': "cs_inv pre" "cs_inv suf" using inv rs by auto
  have notin_suf: "t \<notin> cs_set suf" using above by (fastforce simp: cs_set_def range_set_def)
  let ?em = "maybe_merge_with_following (pre @ (t, 0) # suf) (length pre)"
  note split = cs_insert_split [OF r [unfolded rs], folded rs]
  have emplaced: "cs_inv ?em \<and> cs_set ?em = insert t (cs_set rs)" if "\<forall>p\<in>set pre. gap p (t, 0)"
    using merge_between [of pre suf "(t, 0)"] inv' t above that rs by (auto simp: range_set_def)
  show ?thesis
  proof (cases pre rule: rev_cases)
    case Nil
    then show ?thesis using emplaced rs notin_suf split(1) by simp
  next
    case (snoc p' x)
    obtain f a where x: "x = (f, a)" by fastforce
    have bound: "f + a < max64" "f \<le> t + 1" "f = t + 1 \<Longrightarrow> a = 0"
      using inv' snoc x pre t1 by (auto simp: range_less_def)
    have fa: "add64 f a = f + a" "add64 (f + a) 1 = f + a + 1"
      using bound by (simp_all add: u64_simps)
    have a1: "add64 a 1 = a + 1" using bound(1) by (simp add: u64_simps)
    have below: "\<forall>p\<in>set p'. gap p x" using inv' snoc by simp
    have notin: "t \<notin> cs_set p'" if "f \<le> t + 1"
      using below that x by (fastforce simp: cs_set_def range_set_def gap_def)
    note ins = split(2) [OF snoc [unfolded x], unfolded fa t1 a1]
    consider "f \<le> t" "t \<le> f + a" | "f + a + 1 = t" | "f = t + 1" | "f + a + 1 < t"
      using bound by linarith
    then show ?thesis
    proof cases
      case 1
      then have "cs_insert rs t = (rs, False)" using ins by (simp add: rs)
      moreover have "t \<in> cs_set rs" using 1 rs snoc x by (auto simp: range_set_def)
      ultimately show ?thesis using inv by auto
    next
      case 2
      let ?out = "maybe_merge_with_following (p' @ (f, a + 1) # suf) (length p')"
      have "cs_insert rs t = (?out, True)" using 2 ins by simp
      moreover have "cs_inv ?out \<and> cs_set ?out = range_set (f, a + 1) \<union> cs_set (p' @ suf)"
        using merge_between [of p' suf "(f, a + 1)"] inv' snoc below x 2 t above
        by (auto simp: gap_def)
      moreover have "range_set (f, a + 1) = insert t (range_set x)"
        using 2 x by (auto simp: range_set_def)
      moreover have "t \<notin> range_set x" using 2 x by (simp add: range_set_def)
      ultimately show ?thesis using notin notin_suf rs snoc 2 by auto
    next
      case 3
      then have "cs_insert rs t = (maybe_merge_reverse (p' @ (t, a + 1) # suf) (Suc (length suf)), True)"
        using ins by (simp add: rs)
      moreover note extend_down [of p' t a suf]
      moreover have "t \<notin> range_set x" using 3 x by (simp add: range_set_def)
      ultimately show ?thesis using inv notin notin_suf rs snoc x 3 by auto
    next
      case 4
      then have "cs_insert rs t = (?em, True)" using ins by simp
      moreover have "\<forall>p\<in>set pre. gap p (t, 0)"
        using 4 below x snoc gap_trans by (auto simp: gap_def)
      moreover have "t \<notin> range_set x" using 4 x by (simp add: range_set_def)
      ultimately show ?thesis using emplaced notin notin_suf rs snoc 4 by auto
    qed
  qed
qed

subsection \<open>Search and removal\<close>

text \<open>
  \<^verbatim>\<open>find_internal\<close> and \<^verbatim>\<open>erase\<close> both look for the first range that does not start below
  the value: the value is its start, or is in the range before it, or is absent.
\<close>

lemma start_split:
  fixes rs :: contiguous_set
  obtains pre suf where "rs = pre @ suf" "length (takeWhile (\<lambda>r. fst r < t) rs) = length pre"
    "\<forall>p\<in>set pre. fst p < t" "suf \<noteq> [] \<longrightarrow> t \<le> fst (hd suf)"
proof (rule that [of "takeWhile (\<lambda>r. fst r < t) rs" "dropWhile (\<lambda>r. fst r < t) rs"])
  show "dropWhile (\<lambda>r. fst r < t) rs \<noteq> [] \<longrightarrow> t \<le> fst (hd (dropWhile (\<lambda>r. fst r < t) rs))"
    using hd_dropWhile [of "\<lambda>r. fst r < t" rs] by (simp add: not_less)
qed (auto dest: set_takeWhileD)

lemma range_less_start: "range_less r (t, 0) \<longleftrightarrow> fst r < t"
  by (simp add: range_less_def)

lemma cs_set_bounds: "t \<in> cs_set rs \<longleftrightarrow> (\<exists>r\<in>set rs. fst r \<le> t \<and> t \<le> fst r + snd r)"
  by (auto simp: cs_set_def range_set_def)

lemma notin_below: "cs_inv (p @ [x]) \<Longrightarrow> fst x \<le> t \<Longrightarrow> t \<notin> cs_set p"
  by (auto simp: cs_set_bounds gap_def)

lemma notin_above: "cs_inv (x # p) \<Longrightarrow> t \<le> fst x + snd x + 1 \<Longrightarrow> t \<notin> cs_set p"
  by (auto simp: cs_set_bounds gap_def)

lemma notin_after_start: "cs_inv suf \<Longrightarrow> suf \<noteq> [] \<longrightarrow> t < fst (hd suf) \<Longrightarrow> t \<notin> cs_set suf"
  by (cases suf) (auto simp: cs_set_bounds gap_def range_set_def)

text \<open>The three outcomes of the search, in terms of a split of the vector.\<close>

lemma locate:
  assumes "cs_inv rs"
  obtains (start) p a s where "rs = p @ (t, a) # s" "\<forall>x\<in>set p. fst x < t"
    | (inside) p f a s where "rs = p @ (f, a) # s" "f < t" "t \<le> f + a" "\<forall>x\<in>set p. fst x < t"
        "s \<noteq> [] \<longrightarrow> t < fst (hd s)"
    | (absent) p s where "rs = p @ s" "\<forall>x\<in>set p. fst x < t" "s \<noteq> [] \<longrightarrow> t < fst (hd s)"
        "p \<noteq> [] \<longrightarrow> fst (last p) + snd (last p) < t" "t \<notin> cs_set rs"
proof -
  obtain pre suf where s: "rs = pre @ suf" "\<forall>p\<in>set pre. fst p < t"
    "suf \<noteq> [] \<longrightarrow> t \<le> fst (hd suf)"
    using start_split by metis
  show thesis
  proof (cases "suf \<noteq> [] \<and> fst (hd suf) = t")
    case True
    then show ?thesis using start [of pre "snd (hd suf)" "tl suf"] s by (cases suf) auto
  next
    case False
    then have lt: "suf \<noteq> [] \<longrightarrow> t < fst (hd suf)" using s by auto
    then have suf: "t \<notin> cs_set suf" using assms s notin_after_start by simp
    show ?thesis
    proof (cases pre rule: rev_cases)
      case Nil
      then show ?thesis using absent [of "[]" suf] s lt suf by simp
    next
      case (snoc p x)
      have "t \<notin> cs_set p" using notin_below [of p x t] assms s snoc by auto
      then show ?thesis
        using inside [of p "fst x" "snd x" suf] absent [of pre suf] s lt suf snoc
        by (cases "t \<le> fst x + snd x") (auto simp: range_set_def)
    qed
  qed
qed

lemma takeWhile_start:
  "\<forall>x\<in>set p. fst x < t \<Longrightarrow> s \<noteq> [] \<longrightarrow> t \<le> fst (hd s) \<Longrightarrow>
     takeWhile (\<lambda>r. fst r < t) (p @ s) = p" for t :: nat
  by (cases s) (auto simp: takeWhile_append)

lemma last_no_wrap:
  "cs_inv (p @ s) \<Longrightarrow> p \<noteq> [] \<Longrightarrow> add64 (fst (last p)) (snd (last p)) = fst (last p) + snd (last p)"
  by (cases p rule: rev_cases) (simp_all add: u64_simps)

lemma find_internal_correct:
  assumes "cs_inv rs"
  shows "(if t \<in> cs_set rs
     then find_internal rs t < length rs \<and> t \<in> range_set (rs ! find_internal rs t)
     else find_internal rs t = length rs)"
  using assms
proof (cases rule: locate [of rs t])
  case (start p a s)
  then show ?thesis
    using takeWhile_start [of p t "(t, a) # s"]
    by (simp add: find_internal_def range_less_start range_set_def nth_append)
next
  case (inside p f a s)
  then have "takeWhile (\<lambda>r. fst r < t) rs = p @ [(f, a)]"
    using takeWhile_start [of "p @ [(f, a)]" t s] by auto
  moreover have "add64 f a = f + a" using assms inside by (simp add: u64_simps)
  moreover have "t \<in> cs_set rs" using inside by (simp add: range_set_def)
  ultimately show ?thesis
    using inside by (cases s) (auto simp: find_internal_def range_less_start range_set_def nth_append)
next
  case (absent p s)
  then have "takeWhile (\<lambda>r. fst r < t) rs = p"
    using takeWhile_start [of p t s] by auto
  moreover have "p \<noteq> [] \<Longrightarrow> \<not> t \<le> add64 (fst (last p)) (snd (last p))"
    using last_no_wrap [of p s] assms absent(1,4) by simp
  ultimately show ?thesis
    using absent
    by (cases s; cases p rule: rev_cases)
      (auto simp: find_internal_def range_less_start nth_append Let_def)
qed

lemma cs_contains_correct: "cs_inv rs \<Longrightarrow> cs_contains rs t \<longleftrightarrow> t \<in> cs_set rs"
  using find_internal_correct [of rs t] by (auto simp: cs_contains_def split: if_splits)

lemma cs_erase_outcome:
  assumes "cs_inv rs"
  shows "(\<exists>p f a s. rs = p @ (f, a) # s \<and> f \<le> t \<and> t \<le> f + a \<and> cs_erase rs t =
       (p @ (if f < t then [(f, t - f - 1)] else []) @
          (if t < f + a then [(t + 1, f + a - t - 1)] else []) @ s, True))
    \<or> cs_erase rs t = (rs, False) \<and> t \<notin> cs_set rs"
  using assms
proof (cases rule: locate [of rs t])
  case (start p a s)
  then have "takeWhile (\<lambda>r. fst r < t) rs = p" using takeWhile_start [of p t "(t, a) # s"] by simp
  moreover have "t + a < max64" using assms start by simp
  ultimately have "cs_erase rs t = (p @ (if t < t + a then [(t + 1, a - 1)] else []) @ s, True)"
    using start by (auto simp: cs_erase_def nth_append u64_simps list_update_append Let_def)
  then show ?thesis
    using start by (intro disjI1 exI [of _ p] exI [of _ t] exI [of _ a] exI [of _ s]) auto
next
  case (inside p f a s)
  then have "takeWhile (\<lambda>r. fst r < t) rs = p @ [(f, a)]"
    using takeWhile_start [of "p @ [(f, a)]" t s] by auto
  moreover have "f + a < max64" using assms inside by simp
  moreover have "s \<noteq> [] \<longrightarrow> t \<noteq> fst (rs ! Suc (length p))"
    using inside by (cases s) (auto simp: nth_append)
  ultimately have "cs_erase rs t = (p @ (f, t - f - 1) #
      (if t < f + a then [(t + 1, f + a - t - 1)] else []) @ s, True)"
    using inside by (auto simp: cs_erase_def nth_append u64_simps list_update_append Let_def)
  then show ?thesis
    using inside by (intro disjI1 exI [of _ p] exI [of _ f] exI [of _ a] exI [of _ s]) auto
next
  case (absent p s)
  then have "takeWhile (\<lambda>r. fst r < t) rs = p" using takeWhile_start [of p t s] by auto
  moreover have "p \<noteq> [] \<Longrightarrow> \<not> t \<le> add64 (fst (last p)) (snd (last p))"
    using last_no_wrap [of p s] assms absent(1,4) by simp
  ultimately have "cs_erase rs t = (rs, False)"
    using absent
    by (cases s; cases p rule: rev_cases) (auto simp: cs_erase_def nth_append Let_def)
  then show ?thesis using absent by simp
qed

lemma cs_erase_correct:
  assumes inv: "cs_inv rs"
  shows "cs_inv (fst (cs_erase rs t)) \<and> cs_set (fst (cs_erase rs t)) = cs_set rs - {t}
    \<and> snd (cs_erase rs t) = (t \<in> cs_set rs)"
  using cs_erase_outcome [OF inv, of t]
proof (elim disjE exE conjE)
  fix p f a s
  assume rs: "rs = p @ (f, a) # s" and t: "f \<le> t" "t \<le> f + a"
    and out: "cs_erase rs t =
       (p @ (if f < t then [(f, t - f - 1)] else []) @
          (if t < f + a then [(t + 1, f + a - t - 1)] else []) @ s, True)"
  have "t \<notin> cs_set p" "t \<notin> cs_set s"
    using notin_below [of p "(f, a)" t] notin_above [of "(f, a)" s t] inv rs t by auto
  moreover have "\<forall>x\<in>set p. \<forall>y\<in>set s. gap x y" using inv rs by auto
  ultimately show ?thesis using inv rs t out by (auto simp: gap_def range_set_def)
qed (simp add: inv)

section \<open>The set interface\<close>

text \<open>
  What the clients of the container rely on: insertion, removal and membership act as on a set of
  values below a limit, and report whether they changed it.
\<close>

datatype set_op = Insert nat | Erase nat | Contains nat

fun op_value :: "set_op \<Rightarrow> nat" where
  "op_value (Insert t) = t"
| "op_value (Erase t) = t"
| "op_value (Contains t) = t"

fun run_ops ::
  "('s \<Rightarrow> nat \<Rightarrow> 's \<times> bool) \<Rightarrow> ('s \<Rightarrow> nat \<Rightarrow> 's \<times> bool) \<Rightarrow> ('s \<Rightarrow> nat \<Rightarrow> bool) \<Rightarrow> 's \<Rightarrow> set_op list \<Rightarrow>
    's \<times> bool list"
where
  "run_ops ins del mem s [] = (s, [])"
| "run_ops ins del mem s (p # ps) =
     (let (s', b) =
        (case p of Insert t \<Rightarrow> ins s t | Erase t \<Rightarrow> del s t | Contains t \<Rightarrow> (s, mem s t));
          (s'', bs) = run_ops ins del mem s' ps
      in (s'', b # bs))"

definition set_ins :: "nat set \<Rightarrow> nat \<Rightarrow> nat set \<times> bool" where
  "set_ins A t = (insert t A, t \<notin> A)"

definition set_del :: "nat set \<Rightarrow> nat \<Rightarrow> nat set \<times> bool" where
  "set_del A t = (A - {t}, t \<in> A)"

locale value_set =
  fixes ins :: "'s \<Rightarrow> nat \<Rightarrow> 's \<times> bool"
    and del :: "'s \<Rightarrow> nat \<Rightarrow> 's \<times> bool"
    and mem :: "'s \<Rightarrow> nat \<Rightarrow> bool"
    and abs :: "'s \<Rightarrow> nat set"
    and inv :: "'s \<Rightarrow> bool"
    and limit :: nat
  assumes ins_law: "inv s \<Longrightarrow> t < limit \<Longrightarrow>
      inv (fst (ins s t)) \<and> abs (fst (ins s t)) = insert t (abs s) \<and> snd (ins s t) = (t \<notin> abs s)"
    and del_law: "inv s \<Longrightarrow>
      inv (fst (del s t)) \<and> abs (fst (del s t)) = abs s - {t} \<and> snd (del s t) = (t \<in> abs s)"
    and mem_law: "inv s \<Longrightarrow> mem s t = (t \<in> abs s)"
begin

lemma run_ops_refines:
  "inv s \<Longrightarrow> \<forall>p\<in>set ps. op_value p < limit \<Longrightarrow>
     inv (fst (run_ops ins del mem s ps)) \<and>
     run_ops set_ins set_del (\<lambda>A t. t \<in> A) (abs s) ps =
       (abs (fst (run_ops ins del mem s ps)), snd (run_ops ins del mem s ps))"
proof (induction ps arbitrary: s)
  case (Cons p ps)
  define r where "r = (case p of Insert t \<Rightarrow> ins s t | Erase t \<Rightarrow> del s t | Contains t \<Rightarrow> (s, mem s t))"
  define q where "q = (case p of Insert t \<Rightarrow> set_ins (abs s) t | Erase t \<Rightarrow> set_del (abs s) t
      | Contains t \<Rightarrow> (abs s, t \<in> abs s))"
  have step: "inv (fst r) \<and> q = (abs (fst r), snd r)"
    using Cons.prems ins_law [of s] del_law [of s] mem_law [of s]
    by (cases p) (auto simp: r_def q_def set_ins_def set_del_def)
  then have "inv (fst (run_ops ins del mem (fst r) ps)) \<and>
     run_ops set_ins set_del (\<lambda>A t. t \<in> A) (fst q) ps =
       (abs (fst (run_ops ins del mem (fst r) ps)), snd (run_ops ins del mem (fst r) ps))"
    using Cons.IH [of "fst r"] Cons.prems by simp
  then show ?case
    using step
    by (simp add: r_def [symmetric] q_def [symmetric] Let_def case_prod_beta)
qed simp

lemma fold_ins:
  "inv s \<Longrightarrow> \<forall>t\<in>set ts. t < limit \<Longrightarrow>
     inv (foldl (\<lambda>s t. fst (ins s t)) s ts) \<and>
     abs (foldl (\<lambda>s t. fst (ins s t)) s ts) = abs s \<union> set ts"
  by (induction ts arbitrary: s) (auto simp: ins_law)

end

interpretation cs: value_set cs_insert cs_erase cs_contains cs_set cs_inv max64
  by unfold_locales (simp_all only: cs_insert_correct cs_erase_correct cs_contains_correct simp_thms)

lemma extend_loop_eq:
  assumes "n \<le> to" "to < max64"
  shows "extend_loop rs n to = Some (foldl (\<lambda>s t. fst (cs_insert s t)) rs [n ..< Suc to])"
  using assms
proof (induction "to - n" arbitrary: rs n)
  case 0
  then have "n = to" "add64 n 1 = to + 1" by (auto simp: u64_simps)
  then show ?case
    by (simp add: extend_loop.simps [of rs to to] extend_loop.simps [of _ "Suc to"])
next
  case (Suc d)
  then have "n < to" "add64 n 1 = n + 1" by (auto simp: u64_simps)
  moreover have "extend_loop (fst (cs_insert rs n)) (n + 1) to =
      Some (foldl (\<lambda>s t. fst (cs_insert s t)) (fst (cs_insert rs n)) [n + 1 ..< Suc to])"
    using Suc.hyps(2) Suc.prems \<open>n < to\<close> by (intro Suc.hyps(1)) auto
  moreover have "[n ..< Suc to] = n # [n + 1 ..< Suc to]" using \<open>n < to\<close> by (simp add: upt_rec)
  ultimately show ?case by (simp add: extend_loop.simps [of rs n to])
qed

lemma cs_extend_correct:
  assumes "cs_inv rs" "from + additional < max64"
  shows "\<exists>rs'. cs_extend rs from additional = Some rs' \<and> cs_inv rs' \<and>
    cs_set rs' = cs_set rs \<union> {from .. from + additional}"
proof -
  have "add64 from additional = from + additional" using assms by (simp add: u64_simps)
  then have "cs_extend rs from additional =
      Some (foldl (\<lambda>s t. fst (cs_insert s t)) rs [from ..< Suc (from + additional)])"
    using assms by (simp only: cs_extend_def extend_loop_eq le_add1)
  then show ?thesis
    using cs.fold_ins [of rs "[from ..< Suc (from + additional)]"] assms
    by (auto simp: atLeastLessThanSuc_atLeastAtMost simp del: upt_Suc)
qed

text \<open>\<^verbatim>\<open>extend\<close> up to the largest value of the type has no result: its loop does not end.\<close>

lemma extend_loop_bounded:
  assumes "extend_loop rs n to = Some r"
  shows "n \<le> max64 \<longrightarrow> to \<noteq> max64"
  by (rule extend_loop.raw_induct [OF _ assms]) (auto simp: add64_le split: if_splits)

lemma extend_max_diverges: "n \<le> max64 \<Longrightarrow> extend_loop rs n max64 = None"
  using extend_loop_bounded [of rs n max64] by (cases "extend_loop rs n max64") auto

section \<open>Iterators as positions\<close>

text \<open>
  The elements in order. An iterator that the operations can produce stands for a position in this
  list, and \<^verbatim>\<open>end()\<close> for its length; the arithmetic of the iterators is that of the positions.
\<close>

definition cs_elems :: "contiguous_set \<Rightarrow> nat list" where
  "cs_elems rs = concat (map (\<lambda>r. [fst r ..< Suc (fst r + snd r)]) rs)"

definition it_pos :: "contiguous_set \<Rightarrow> cs_iter \<Rightarrow> nat" where
  "it_pos rs it = length (cs_elems (take (fst it) rs)) + snd it"

definition it_valid :: "contiguous_set \<Rightarrow> cs_iter \<Rightarrow> bool" where
  "it_valid rs it \<longleftrightarrow>
     fst it < length rs \<and> snd it \<le> snd (rs ! fst it) \<or> fst it = length rs \<and> snd it = 0"

lemma cs_elems_Nil [simp]: "cs_elems [] = []"
  by (simp add: cs_elems_def)

lemma cs_elems_Cons [simp]: "cs_elems (r # rs) = [fst r ..< Suc (fst r + snd r)] @ cs_elems rs"
  by (simp add: cs_elems_def)

lemma cs_elems_append [simp]: "cs_elems (xs @ ys) = cs_elems xs @ cs_elems ys"
  by (simp add: cs_elems_def)

lemma set_cs_elems [simp]: "set (cs_elems rs) = cs_set rs"
  by (auto simp: cs_elems_def cs_set_def range_set_def)

lemma sorted_cs_elems: "cs_inv rs \<Longrightarrow> sorted_wrt (<) (cs_elems rs)"
proof (induction rs)
  case (Cons r rs)
  have "\<forall>x\<in>set [fst r ..< Suc (fst r + snd r)]. \<forall>y\<in>cs_set rs. x < y"
    using Cons.prems by (fastforce simp: cs_set_bounds gap_def simp del: upt_Suc)
  then show ?case using Cons by (simp add: sorted_wrt_append del: upt_Suc)
qed simp

lemma length_cs_elems_le: "cs_inv rs \<Longrightarrow> length (cs_elems rs) \<le> max64"
proof -
  assume inv: "cs_inv rs"
  have "length (cs_elems rs) = card (cs_set rs)"
    using sorted_less_distinct [OF sorted_cs_elems [OF inv]] by (metis distinct_card set_cs_elems)
  also have "\<dots> \<le> card {..<max64}"
    using inv by (intro card_mono) (fastforce simp: cs_set_bounds cs_inv_def)+
  finally show ?thesis by simp
qed

lemma length_elems_take_Suc:
  "i < length rs \<Longrightarrow>
     length (cs_elems (take (Suc i) rs)) = length (cs_elems (take i rs)) + snd (rs ! i) + 1"
  by (simp add: take_Suc_conv_app_nth)

lemma elems_split:
  "i < length rs \<Longrightarrow> cs_elems rs = cs_elems (take i rs) @
     [fst (rs ! i) ..< Suc (fst (rs ! i) + snd (rs ! i))] @ cs_elems (drop (Suc i) rs)"
  by (metis append.assoc cs_elems_Cons cs_elems_append id_take_nth_drop append_Cons append_Nil)

lemma it_pos_end: "it_pos rs (cs_end rs) = length (cs_elems rs)"
  by (simp add: it_pos_def cs_end_def)

lemma it_pos_begin: "it_pos rs (cs_begin rs) = 0"
  by (simp add: it_pos_def cs_begin_def)

lemma it_valid_ends [simp]: "it_valid rs (cs_begin rs)" "it_valid rs (cs_end rs)"
  by (auto simp: it_valid_def cs_begin_def cs_end_def)

lemma it_pos_bound: "it_valid rs it \<Longrightarrow> fst it < length rs \<Longrightarrow>
  it_pos rs it + (snd (rs ! fst it) - snd it) < length (cs_elems rs)"
  using elems_split [of "fst it" rs] by (auto simp: it_pos_def it_valid_def)

lemma it_pos_less_iff: "it_valid rs it \<Longrightarrow> it_pos rs it < length (cs_elems rs) \<longleftrightarrow> fst it < length rs"
  using it_pos_bound [of rs it] by (auto simp: it_valid_def it_pos_def)

lemma range_bound: "cs_inv rs \<Longrightarrow> i < length rs \<Longrightarrow> fst (rs ! i) + snd (rs ! i) < max64"
  by (simp add: cs_inv_def)

lemma it_deref_correct:
  assumes "cs_inv rs" "it_valid rs it" "fst it < length rs"
  shows "it_deref rs it = Some (cs_elems rs ! it_pos rs it)"
proof -
  have "snd it \<le> snd (rs ! fst it)" using assms by (auto simp: it_valid_def)
  then have "cs_elems rs ! it_pos rs it = fst (rs ! fst it) + snd it"
    using elems_split [OF assms(3)] by (simp add: it_pos_def nth_append del: upt_Suc)
  moreover have "add64 (fst (rs ! fst it)) (snd it) = fst (rs ! fst it) + snd it"
    using range_bound [OF assms(1,3)] \<open>snd it \<le> _\<close> by (simp add: u64_simps)
  ultimately show ?thesis using assms(3) by (simp add: it_deref_def)
qed

lemma it_incr_correct:
  assumes "cs_inv rs" "it_valid rs it" "fst it < length rs"
  shows "\<exists>it'. it_incr rs it = Some it' \<and> it_valid rs it' \<and> it_pos rs it' = it_pos rs it + 1"
proof -
  have le: "snd it \<le> snd (rs ! fst it)" using assms by (auto simp: it_valid_def)
  then have "add64 (snd it) 1 = snd it + 1"
    using range_bound [OF assms(1,3)] by (simp add: u64_simps)
  then show ?thesis
    using assms(3) le length_elems_take_Suc [OF assms(3)]
    by (cases "snd it = snd (rs ! fst it)")
      (auto simp: it_incr_def it_valid_def it_pos_def not_less_eq_eq [symmetric] le_less)
qed

lemma it_advance_correct:
  assumes "cs_inv rs" "it_valid rs it" "it_pos rs it + n < length (cs_elems rs)"
  shows "\<exists>it'. it_advance rs it n = Some it' \<and> it_valid rs it' \<and> it_pos rs it' = it_pos rs it + n"
  using assms
proof (induction rs it n rule: it_advance.induct)
  case (1 rs i offset n)
  have i: "i < length rs" using "1.prems" it_pos_less_iff [of rs "(i, offset)"] by simp
  then have le: "offset \<le> snd (rs ! i)" using "1.prems"(2) by (auto simp: it_valid_def)
  have bound: "offset + n \<le> max64" "snd (rs ! i) < max64"
    using length_cs_elems_le [OF "1.prems"(1)] "1.prems"(3) range_bound [OF "1.prems"(1) i]
    by (auto simp: it_pos_def)
  then have sum: "add64 offset n = offset + n" by (simp add: u64_simps)
  show ?case
  proof (cases "snd (rs ! i) < offset + n")
    case True
    let ?n = "n - (snd (rs ! i) - offset + 1)"
    have sub: "sub64 n (add64 (sub64 (snd (rs ! i)) offset) 1) = ?n"
      using True le bound by (simp add: u64_simps)
    have pos: "it_pos rs (Suc i, 0) + ?n = it_pos rs (i, offset) + n"
      using True le length_elems_take_Suc [OF i] by (simp add: it_pos_def)
    have "it_valid rs (Suc i, 0)" using i by (auto simp: it_valid_def)
    then have "\<exists>it'. it_advance rs (Suc i, 0) ?n = Some it' \<and> it_valid rs it' \<and>
        it_pos rs it' = it_pos rs (i, offset) + n"
      using "1.IH" "1.prems" i True sum sub pos by simp
    then show ?thesis using True i sum sub by (simp add: it_advance.simps [of rs i])
  next
    case False
    then show ?thesis using i sum by (simp add: it_advance.simps [of rs i] it_valid_def it_pos_def)
  qed
qed

lemma foldl_sizes:
  "acc + length (cs_elems rs) \<le> max64 \<Longrightarrow>
     foldl (\<lambda>acc r. add64 (add64 acc (snd r)) 1) acc rs = acc + length (cs_elems rs)"
  by (induction rs arbitrary: acc) (simp_all add: u64_simps)

lemma length_elems_rev [simp]: "length (cs_elems (rev rs)) = length (cs_elems rs)"
  by (induction rs) auto

lemma it_pos_between:
  assumes "fst other < fst it" "fst it \<le> length rs" "it_valid rs other"
  shows "it_pos rs it = it_pos rs other + (snd (rs ! fst other) - snd other) + 1
    + length (cs_elems (drop (Suc (fst other)) (take (fst it) rs))) + snd it"
proof -
  have "take (fst it) rs = take (Suc (fst other)) rs @ drop (Suc (fst other)) (take (fst it) rs)"
    using append_take_drop_id [of "Suc (fst other)" "take (fst it) rs"] assms(1) by (simp add: min_def)
  then have "length (cs_elems (take (fst it) rs)) = length (cs_elems (take (Suc (fst other)) rs))
      + length (cs_elems (drop (Suc (fst other)) (take (fst it) rs)))"
    by (metis cs_elems_append length_append)
  moreover have "snd other \<le> snd (rs ! fst other)" using assms by (auto simp: it_valid_def)
  ultimately show ?thesis
    using length_elems_take_Suc [of "fst other" rs] assms by (simp add: it_pos_def)
qed

lemma it_pos_le: "it_valid rs it \<Longrightarrow> it_pos rs it \<le> length (cs_elems rs)"
  using it_pos_bound [of rs it] by (auto simp: it_valid_def it_pos_def)

lemma it_diff_from_correct:
  assumes "cs_inv rs" "it_valid rs it" "it_valid rs other" "fst other < fst it"
  shows "it_diff_from rs it other = it_pos rs it - it_pos rs other"
proof -
  let ?xs = "drop (Suc (fst other)) (take (fst it) rs)"
  have pos: "it_pos rs it = it_pos rs other + (snd (rs ! fst other) - snd other) + 1
      + length (cs_elems ?xs) + snd it"
    using assms by (intro it_pos_between) (auto simp: it_valid_def)
  have bound: "it_pos rs it \<le> max64"
    using it_pos_le [OF assms(2)] length_cs_elems_le [OF assms(1)] by simp
  have "fst other < length rs" "snd other \<le> snd (rs ! fst other)"
    using assms by (auto simp: it_valid_def)
  then have "sub64 (snd (rs ! fst other)) (snd other) = snd (rs ! fst other) - snd other"
    using range_bound [OF assms(1), of "fst other"] by (simp add: u64_simps)
  moreover have "add64 (snd it) 1 = snd it + 1" using pos bound by (simp add: u64_simps)
  moreover have "foldl (\<lambda>acc r. add64 (add64 acc (snd r)) 1) (snd it + 1) (rev ?xs) =
      snd it + 1 + length (cs_elems ?xs)"
    using foldl_sizes [of "snd it + 1" "rev ?xs"] pos bound by simp
  ultimately show ?thesis using pos bound by (simp add: it_diff_from_def u64_simps)
qed

lemma it_diff_correct:
  assumes "cs_inv rs" "it_valid rs it" "it_valid rs other" "it_pos rs other \<le> it_pos rs it"
  shows "it_diff rs it other = it_pos rs it - it_pos rs other"
proof (cases "fst it = fst other")
  case True
  have "snd it \<le> max64"
    using it_pos_le [OF assms(2)] length_cs_elems_le [OF assms(1)] by (simp add: it_pos_def)
  then show ?thesis using True assms(4) by (simp add: it_diff_def it_pos_def u64_simps)
next
  case False
  have "\<not> fst it < fst other"
    using it_pos_between [of it other rs] assms by (auto simp: it_valid_def)
  then show ?thesis using False it_diff_from_correct [OF assms(1-3)] by (simp add: it_diff_def)
qed

text \<open>The binary search ends at the partition point of a test that holds of an initial part.\<close>

lemma it_search_correct:
  assumes "cs_inv rs" "it_valid rs it" "it_pos rs it \<le> k" "k \<le> it_pos rs it + len"
    and "it_pos rs it + len \<le> length (cs_elems rs)"
    and "\<forall>j < length (cs_elems rs). P (cs_elems rs ! j) \<longleftrightarrow> j < k"
  shows "\<exists>it'. it_search rs P it len = Some it' \<and> it_valid rs it' \<and> it_pos rs it' = k"
  using assms
proof (induction rs P it len rule: it_search.induct)
  case (1 rs P it len)
  show ?case
  proof (cases "len = 0")
    case True
    then have "it_search rs P it len = Some it" by (simp add: it_search.simps)
    then show ?thesis using "1.prems" True by auto
  next
    case False
    let ?m = "it_pos rs it + len div 2"
    have m: "?m < length (cs_elems rs)" using False "1.prems"(5) by linarith
    obtain mid where mid: "it_advance rs it (len div 2) = Some mid" "it_valid rs mid"
      "it_pos rs mid = ?m"
      using it_advance_correct [OF "1.prems"(1,2) m] by blast
    have lt: "fst mid < length rs" using it_pos_less_iff [OF mid(2)] mid(3) m by simp
    have v: "it_deref rs mid = Some (cs_elems rs ! ?m)"
      using it_deref_correct [OF "1.prems"(1) mid(2) lt] mid(3) by simp
    obtain nx where nx: "it_incr rs mid = Some nx" "it_valid rs nx" "it_pos rs nx = ?m + 1"
      using it_incr_correct [OF "1.prems"(1) mid(2) lt] mid(3) by auto
    have P: "P (cs_elems rs ! ?m) \<longleftrightarrow> ?m < k" using "1.prems"(6) m by blast
    show ?thesis
    proof (cases "?m < k")
      case True
      have "\<exists>it'. it_search rs P nx (len - len div 2 - 1) = Some it' \<and> it_valid rs it' \<and> it_pos rs it' = k"
        using True P False by (intro "1.IH"(1) [OF False mid(1) v _ nx(1)])
          (use "1.prems" nx in auto)
      then show ?thesis using True P False mid v nx by (simp add: it_search.simps [of rs P it len])
    next
      case False': False
      have "\<exists>it'. it_search rs P it (len div 2) = Some it' \<and> it_valid rs it' \<and> it_pos rs it' = k"
        using False' P by (intro "1.IH"(2) [OF False mid(1) v]) (use "1.prems" m in auto)
      then show ?thesis using False False' P mid v by (simp add: it_search.simps [of rs P it len])
    qed
  qed
qed

lemma cs_search_correct:
  assumes "cs_inv rs" "\<And>u v. P v \<Longrightarrow> u < v \<Longrightarrow> P u"
  shows "\<exists>it. it_search rs P (cs_begin rs) (it_diff rs (cs_end rs) (cs_begin rs)) = Some it \<and>
    it_valid rs it \<and> it_pos rs it = length (filter P (cs_elems rs))"
proof -
  let ?xs = "cs_elems rs"
  have s: "sorted_wrt (<) ?xs" using assms(1) by (rule sorted_cs_elems)
  have "filter P ?xs = takeWhile P ?xs" using s assms(2) by (rule filter_initial)
  moreover have "\<forall>j < length ?xs. P (?xs ! j) \<longleftrightarrow> j < length (takeWhile P ?xs)"
    using nth_initial_iff [of ?xs P] s assms(2) by blast
  ultimately show ?thesis
    using it_search_correct [of rs "cs_begin rs" "length (filter P ?xs)" "length ?xs" P] assms(1)
      it_diff_correct [of rs "cs_end rs" "cs_begin rs"]
    by (simp add: it_pos_begin it_pos_end length_takeWhile_le)
qed

section \<open>Sub-ranges and construction from values\<close>

lemma it_prefix:
  assumes "it_valid rs it"
  shows "take (it_pos rs it) (cs_elems rs) = cs_elems (take (fst it) rs) @
    (if snd it = 0 then [] else [fst (rs ! fst it) ..< fst (rs ! fst it) + snd it])"
proof (cases "fst it < length rs")
  case True
  then have "snd it \<le> snd (rs ! fst it)" using assms by (auto simp: it_valid_def)
  then show ?thesis
    using elems_split [OF True] by (simp add: it_pos_def take_upt del: upt_Suc)
qed (use assms in \<open>auto simp: it_valid_def it_pos_def\<close>)

lemma split_at_two:
  assumes "i < j" "j \<le> length rs"
  shows "rs = take i rs @ rs ! i # drop (Suc i) (take j rs) @ drop j rs"
proof -
  have "take j rs = take i (take j rs) @ take j rs ! i # drop (Suc i) (take j rs)"
    using assms by (intro id_take_nth_drop) simp
  then have "take j rs = take i rs @ rs ! i # drop (Suc i) (take j rs)"
    using assms by (simp add: min_def)
  then show ?thesis by (metis append_Cons append_assoc append_take_drop_id)
qed

lemma init_across_ranges:
  assumes "cs_inv rs" "it_valid rs b" "it_valid rs e" "fst b < fst e"
  shows "\<exists>rs'. init_from_iterators rs b e = Some rs' \<and> cs_inv rs' \<and>
    cs_elems rs' = drop (it_pos rs b) (take (it_pos rs e) (cs_elems rs))"
proof -
  have i: "fst b < length rs" "snd b \<le> snd (rs ! fst b)" "fst e \<le> length rs"
    and e: "snd e \<noteq> 0 \<Longrightarrow> fst e < length rs \<and> snd e \<le> snd (rs ! fst e)"
    using assms by (auto simp: it_valid_def)
  note bound = range_bound [OF assms(1) i(1)]
  let ?mid = "drop (Suc (fst b)) (take (fst e) rs)"
  let ?first = "(fst (rs ! fst b) + snd b, snd (rs ! fst b) - snd b)"
  let ?tail = "if snd e = 0 then [] else [(fst (rs ! fst e), snd e - 1)]"
  have rs: "rs = take (fst b) rs @ rs ! fst b # ?mid @ drop (fst e) rs"
    using split_at_two [OF assms(4) i(3)] .
  have "snd e \<noteq> 0 \<Longrightarrow> sub64 (snd e) 1 = snd e - 1"
    using e range_bound [OF assms(1), of "fst e"] by (auto simp: u64_simps)
  then have out: "init_from_iterators rs b e = Some (?first # ?mid @ ?tail)"
    using assms(4) i e bound by (auto simp: init_from_iterators_def u64_simps)
  have "cs_inv (rs ! fst b # ?mid @ drop (fst e) rs)"
    using assms(1) by (subst (asm) rs) (simp only: cs_inv_append)
  moreover have "snd e \<noteq> 0 \<Longrightarrow> drop (fst e) rs = rs ! fst e # drop (Suc (fst e)) rs"
    using e by (simp add: Cons_nth_drop_Suc)
  ultimately have inv: "cs_inv (?first # ?mid @ ?tail)"
    using i e by (auto simp: gap_def)
  have "take (fst e) rs = take (fst b) rs @ rs ! fst b # ?mid"
    using id_take_nth_drop [of "fst b" "take (fst e) rs"] assms(4) i by (simp add: min_def)
  then have "cs_elems (take (fst e) rs) = cs_elems (take (fst b) rs) @
      [fst (rs ! fst b) ..< Suc (fst (rs ! fst b) + snd (rs ! fst b))] @ cs_elems ?mid"
    by (metis cs_elems_append cs_elems_Cons)
  moreover have "[fst (rs ! fst b) ..< Suc (fst (rs ! fst b) + snd (rs ! fst b))] =
      [fst (rs ! fst b) ..< fst (rs ! fst b) + snd b] @ [fst ?first ..< Suc (fst ?first + snd ?first)]"
    using upt_add_eq_append [of "fst (rs ! fst b)" "fst (rs ! fst b) + snd b"
        "Suc (snd (rs ! fst b) - snd b)"] i(2) by (simp del: upt_Suc)
  ultimately have "take (it_pos rs e) (cs_elems rs) =
      take (it_pos rs b) (cs_elems rs) @ cs_elems (?first # ?mid @ ?tail)"
    by (simp add: it_prefix [OF assms(2)] it_prefix [OF assms(3)] del: upt_Suc)
  moreover have "length (take (it_pos rs b) (cs_elems rs)) = it_pos rs b"
    using it_pos_le [OF assms(2)] by simp
  ultimately show ?thesis using out inv by (metis append_eq_conv_conj)
qed

lemma init_from_iterators_correct:
  assumes "cs_inv rs" "it_valid rs b" "it_valid rs e" "it_pos rs b \<le> it_pos rs e"
  shows "\<exists>rs'. init_from_iterators rs b e = Some rs' \<and> cs_inv rs' \<and>
    cs_elems rs' = drop (it_pos rs b) (take (it_pos rs e) (cs_elems rs))"
proof (cases "fst b = fst e")
  case True
  then have le: "snd b \<le> snd e" using assms(4) by (simp add: it_pos_def)
  show ?thesis
  proof (cases "snd b < snd e")
    case False
    then have "b = e" using True le by (simp add: prod_eq_iff)
    then show ?thesis by (simp add: init_from_iterators_def)
  next
    case less: True
    then have i: "fst e < length rs" "snd e \<le> snd (rs ! fst e)" using assms(3) by (auto simp: it_valid_def)
    note bound = range_bound [OF assms(1) i(1)]
    let ?r = "(fst (rs ! fst e) + snd b, snd e - snd b - 1)"
    have "init_from_iterators rs b e = Some [?r]"
      using True less i bound by (simp add: init_from_iterators_def u64_simps)
    moreover have "drop (it_pos rs b) (take (it_pos rs e) (cs_elems rs)) =
        [fst (rs ! fst e) + snd b ..< fst (rs ! fst e) + snd e]"
      using it_prefix [OF assms(3)] True less by (simp add: it_pos_def)
    moreover have "Suc (fst ?r + snd ?r) = fst (rs ! fst e) + snd e" using less by simp
    ultimately show ?thesis using bound i less by (simp del: upt_Suc)
  qed
next
  case False
  then have "fst b < fst e"
    using it_pos_between [of e b rs] assms by (fastforce simp: it_valid_def)
  then show ?thesis using init_across_ranges [OF assms(1-3)] by blast
qed

lemma adjacent_gap_None:
  "adjacent_gap xs = None \<Longrightarrow> \<forall>x\<in>set xs. x < max64 \<Longrightarrow> xs = [hd xs ..< hd xs + length xs]"
proof (induction xs rule: adjacent_gap.induct)
  case (1 a b xs)
  then have b: "b = a + 1" "b # xs = [b ..< b + length (b # xs)]"
    by (auto simp: u64_simps split: if_splits)
  have "[a ..< a + length (a # b # xs)] = a # [a + 1 ..< a + length (a # b # xs)]"
    by (rule trans [OF upt_conv_Cons]) simp_all
  also have "\<dots> = a # b # xs" using b(2) [symmetric] b(1) by (simp del: upt_Suc)
  finally show ?case by simp
qed auto

lemma adjacent_gap_Some:
  "adjacent_gap (x # xs) = Some k \<Longrightarrow> \<forall>y\<in>set (x # xs). y < max64 \<Longrightarrow>
     k < length xs \<and> x # take k xs = [x ..< x + k + 1] \<and> xs ! k \<noteq> x + k + 1"
proof (induction xs arbitrary: x k)
  case (Cons b xs)
  show ?case
  proof (cases "add64 x 1 = b")
    case True
    then obtain j where j: "adjacent_gap (b # xs) = Some j" "k = Suc j" using Cons.prems(1) by auto
    have b: "b = x + 1" using True Cons.prems(2) by (simp add: u64_simps)
    then show ?thesis using Cons.IH [OF j(1)] Cons.prems(2) j(2) by (simp add: upt_rec [of x])
  next
    case False
    then show ?thesis using Cons.prems by (auto simp: u64_simps)
  qed
qed simp

lemma ranges_of_correct:
  "sorted_wrt (<) xs \<Longrightarrow> \<forall>x\<in>set xs. x < max64 \<Longrightarrow>
     cs_inv (ranges_of xs) \<and> cs_elems (ranges_of xs) = xs"
proof (induction xs rule: ranges_of.induct)
  case (2 x xs)
  show ?case
  proof (cases "adjacent_gap (x # xs)")
    case None
    then have xs: "[x ..< Suc (x + length xs)] = x # xs"
      using adjacent_gap_None [OF None] "2.prems" by simp
    then have "x + length xs \<in> set (x # xs)" by (metis atLeastLessThan_iff le_add1 lessI set_upt)
    then have "x + length xs < max64" using "2.prems"(2) by blast
    then show ?thesis using None xs by simp
  next
    case (Some k)
    note k = adjacent_gap_Some [OF Some "2.prems"(2)]
    let ?rest = "drop k xs"
    have "set ?rest \<subseteq> set xs" by (rule set_drop_subset)
    then have rest: "cs_inv (ranges_of ?rest)" "cs_elems (ranges_of ?rest) = ?rest"
      using "2.IH" [OF Some] "2.prems" by (auto simp: sorted_wrt_drop)
    have split: "x # xs = (x # take k xs) @ ?rest" by simp
    have last: "x + k \<in> set (x # take k xs)" using k by simp
    then have "x + k < max64" using "2.prems"(2) by (metis UnCI set_append split)
    moreover have "\<forall>y\<in>set ?rest. x + k + 1 < y"
    proof -
      have "\<forall>y\<in>set ?rest. x + k < y" using "2.prems"(1) last split by (metis sorted_wrt_append)
      moreover have "?rest = xs ! k # drop (Suc k) xs" using k by (simp add: Cons_nth_drop_Suc)
      moreover have "sorted_wrt (<) ?rest" using "2.prems"(1) by (simp add: sorted_wrt_drop)
      ultimately show ?thesis using k by fastforce
    qed
    moreover have "\<forall>r\<in>set (ranges_of ?rest). fst r \<in> set ?rest"
      using rest(2) set_cs_elems [of "ranges_of ?rest"] by (auto simp: cs_set_def range_set_def)
    moreover have "[x ..< Suc (x + k)] = x # take k xs" using k by simp
    moreover have "ranges_of (x # xs) = (x, k) # ranges_of ?rest" using Some by simp
    ultimately show ?thesis using rest by (simp add: gap_def del: upt_Suc ranges_of.simps)
  qed
qed simp

lemma cs_size_correct: "cs_inv rs \<Longrightarrow> cs_size rs = length (cs_elems rs) mod 2 ^ 32"
proof -
  assume inv: "cs_inv rs"
  have "foldl (\<lambda>n r. add64 (add64 n (snd r)) 1 mod 2 ^ 32) (m mod 2 ^ 32) rs =
      (m + length (cs_elems rs)) mod 2 ^ 32" for m
  proof (induction rs arbitrary: m)
    case (Cons r rs)
    have "add64 (add64 (m mod 2 ^ 32) (snd r)) 1 mod 2 ^ 32 = (m + snd r + 1) mod 2 ^ 32"
      using mod_add_left_eq [of m "2 ^ 32" "snd r + 1"]
      by (simp add: add64_def two64_def mod_mod_cancel mod_simps)
    then show ?case using Cons.IH [of "m + snd r + 1"] by (simp add: ac_simps)
  qed simp
  from this [of 0] show ?thesis by (simp add: cs_size_def)
qed

lemma elems_sorted_list: "cs_inv rs \<Longrightarrow> cs_elems rs = sorted_list_of_set (cs_set rs)"
  using sorted_cs_elems [of rs]
  by (metis set_cs_elems sorted_list_of_set_unique strict_sorted_iff sorted_list_of_set.idem_if_sorted_distinct)

section \<open>Properties\<close>

text \<open>
  C21. The container of ranges implements a set. Every sequence of insertions, removals and membership
  tests, from the empty container and with values below the largest of the type, returns the same
  answers as on a mathematical set, and leaves exactly the elements of that set, in ascending order.
\<close>

theorem contiguous_set_refines:
  assumes "list_all (\<lambda>p. op_value p < max64) ps"
  shows "snd (run_ops cs_insert cs_erase cs_contains [] ps) =
      snd (run_ops set_ins set_del (\<lambda>A t. t \<in> A) {} ps) \<and>
    cs_elems (fst (run_ops cs_insert cs_erase cs_contains [] ps)) =
      sorted_list_of_set (fst (run_ops set_ins set_del (\<lambda>A t. t \<in> A) {} ps))"
  using cs.run_ops_refines [of "[]" ps] assms by (simp add: list_all_iff elems_sorted_list)

theorem contiguous_set_refines_witness:
  "run_ops cs_insert cs_erase cs_contains []
      [Insert 2, Insert 5, Insert 3, Insert 4, Erase 3, Contains 3, Contains 4, Insert 2] =
     ([(2, 0), (4, 1)], [True, True, True, True, True, False, True, False]) \<and>
   snd (run_ops set_ins set_del (\<lambda>A t. t \<in> A) {}
      [Insert 2, Insert 5, Insert 3, Insert 4, Erase 3, Contains 3, Contains 4, Insert 2]) =
     [True, True, True, True, True, False, True, False]"
proof -
  let ?ps = "[Insert 2, Insert 5, Insert 3, Insert 4, Erase 3, Contains 3, Contains 4, Insert 2]"
  have "list_all (\<lambda>p. op_value p < max64) ?ps" by (simp add: max64_def two64_def)
  from contiguous_set_refines [OF this]
  have "snd (run_ops cs_insert cs_erase cs_contains [] ?ps) =
      snd (run_ops set_ins set_del (\<lambda>A t. t \<in> A) {} ?ps)" by (rule conjunct1)
  moreover have "run_ops cs_insert cs_erase cs_contains [] ?ps =
     ([(2, 0), (4, 1)], [True, True, True, True, True, False, True, False])" by code_simp
  ultimately show ?thesis by simp
qed

text \<open>
  Outside that range the container is not a set: the value after the largest one is the smallest, which
  \<^verbatim>\<open>insert\<close> takes for a neighbour. It joins the range of 0, and the result is neither 0 nor a range
  that ascends.
\<close>

lemma insert_max_wraps: "cs_insert [(0, 0)] max64 = ([(max64, 1)], True)"
  by code_simp

text \<open>
  A sequence with a repeated value is accepted as sorted, and gives two ranges with the same element.
\<close>

lemma repeated_value_kept: "init_from_values [3, 3] = Some [(3, 0), (3, 0)]"
  by code_simp

end
