(* ===== verification/Seqno_Index.thy ===== *)
theory Seqno_Index
  imports Contiguous_Set Serialized Tx_Status
begin

text \<open>
  The index of the writes to a map that is kept in memory
  (\<^verbatim>\<open>src/indexing/strategies/seqnos_by_key_in_memory.cpp\<close> and its header), over the base strategy
  \<^verbatim>\<open>visit_each_entry_in_map.cpp\<close>: for each key, the set of the sequence numbers at which it was
  written. A committed transaction is its identifier and the keys that it writes in the indexed map, in
  the order in which \<^verbatim>\<open>foreach\<close> visits them.
\<close>

type_synonym committed_tx = "tx_id \<times> bytes list"

record seqno_index =
  seqnos_by_key :: "(bytes \<times> contiguous_set) list"
  current_txid :: tx_id

definition new_index :: seqno_index where
  "new_index = \<lparr>seqnos_by_key = [], current_txid = \<lparr>tx_view = VIEW_UNKNOWN, tx_seqno = 0\<rparr>\<rparr>"

definition visit_entry :: "tx_id \<Rightarrow> seqno_index \<Rightarrow> bytes \<Rightarrow> seqno_index" where
  "visit_entry tx idx k =
     (let seqnos = (case map_of (seqnos_by_key idx) k of Some s \<Rightarrow> s | None \<Rightarrow> [])
      in idx\<lparr>seqnos_by_key := AList.update k (fst (cs_insert seqnos (tx_seqno tx))) (seqnos_by_key idx)\<rparr>)"

definition handle_committed_transaction :: "seqno_index \<Rightarrow> committed_tx \<Rightarrow> seqno_index" where
  "handle_committed_transaction idx tx =
     (foldl (visit_entry (fst tx)) idx (snd tx))\<lparr>current_txid := fst tx\<rparr>"

definition next_requested :: "seqno_index \<Rightarrow> nat option" where
  "next_requested idx = Some (add64 (tx_seqno (current_txid idx)) 1)"

datatype query_result = RangeGoesBackwards | NotYetIndexed | Seqnos contiguous_set | Undefined

definition get_write_txs_impl ::
  "seqno_index \<Rightarrow> bytes \<Rightarrow> nat \<Rightarrow> nat \<Rightarrow> nat option \<Rightarrow> query_result"
where
  "get_write_txs_impl idx k from to max_seqnos =
     (case map_of (seqnos_by_key idx) k of
        None \<Rightarrow> Seqnos []
      | Some seqnos \<Rightarrow>
          (case cs_lower_bound seqnos from of
             None \<Rightarrow> Undefined
           | Some from_it \<Rightarrow>
               (case (case max_seqnos of
                        Some m \<Rightarrow>
                          if m < it_diff seqnos (cs_end seqnos) from_it
                          then it_advance seqnos from_it m
                          else cs_upper_bound seqnos to
                      | None \<Rightarrow> cs_upper_bound seqnos to)
                of
                  None \<Rightarrow> Undefined
                | Some to_it \<Rightarrow>
                    (case init_from_iterators seqnos from_it to_it of
                       None \<Rightarrow> Undefined
                     | Some sub_range \<Rightarrow> Seqnos sub_range))))"

definition get_write_txs_in_range ::
  "seqno_index \<Rightarrow> bytes \<Rightarrow> nat \<Rightarrow> nat \<Rightarrow> nat option \<Rightarrow> query_result"
where
  "get_write_txs_in_range idx k from to max_seqnos =
     (if to < from then RangeGoesBackwards
      else if tx_seqno (current_txid idx) < to then NotYetIndexed
      else get_write_txs_impl idx k from to max_seqnos)"

definition get_all_write_txs :: "seqno_index \<Rightarrow> bytes \<Rightarrow> query_result" where
  "get_all_write_txs idx k = get_write_txs_in_range idx k 0 (tx_seqno (current_txid idx)) None"

section \<open>What the index holds\<close>

text \<open>
  The reference: the sequence numbers of the transactions that write a key, in their order, and the
  index that has been given a sequence of transactions.
\<close>

definition writes_of :: "committed_tx list \<Rightarrow> bytes \<Rightarrow> nat list" where
  "writes_of txs k = map (\<lambda>tx. tx_seqno (fst tx)) (filter (\<lambda>tx. k \<in> set (snd tx)) txs)"

definition index_run :: "committed_tx list \<Rightarrow> seqno_index" where
  "index_run txs = foldl handle_committed_transaction new_index txs"

definition in_order :: "committed_tx list \<Rightarrow> bool" where
  "in_order txs \<longleftrightarrow> sorted_wrt (<) (map (\<lambda>tx. tx_seqno (fst tx)) txs) \<and>
     list_all (\<lambda>tx. tx_seqno (fst tx) < max64) txs"

text \<open>The collection of a key, empty for a key that has none.\<close>

definition seqnos_of :: "seqno_index \<Rightarrow> bytes \<Rightarrow> contiguous_set" where
  "seqnos_of idx k = (case map_of (seqnos_by_key idx) k of Some s \<Rightarrow> s | None \<Rightarrow> [])"

lemma seqnos_of_visit:
  "seqnos_of (visit_entry tx idx k) k' =
     (if k' = k then fst (cs_insert (seqnos_of idx k) (tx_seqno tx)) else seqnos_of idx k')"
  by (simp add: seqnos_of_def visit_entry_def Let_def)

lemma visit_entries:
  assumes "tx_seqno tx < max64" "\<And>k. cs_inv (seqnos_of idx k)"
  shows "cs_inv (seqnos_of (foldl (visit_entry tx) idx ks) k) \<and>
    cs_set (seqnos_of (foldl (visit_entry tx) idx ks) k) =
      cs_set (seqnos_of idx k) \<union> (if k \<in> set ks then {tx_seqno tx} else {})"
  using assms(2)
proof (induction ks arbitrary: idx)
  case (Cons k' ks)
  have "cs_inv (seqnos_of (visit_entry tx idx k') j) \<and>
      cs_set (seqnos_of (visit_entry tx idx k') j) =
        cs_set (seqnos_of idx j) \<union> (if j = k' then {tx_seqno tx} else {})" for j
    using cs_insert_correct [OF Cons.prems assms(1)] Cons.prems by (simp add: seqnos_of_visit)
  then show ?case using Cons.IH [of "visit_entry tx idx k'"] by auto
qed simp

lemma index_run_snoc: "index_run (txs @ [tx]) = handle_committed_transaction (index_run txs) tx"
  by (simp add: index_run_def)

lemma index_run_current:
  "txs \<noteq> [] \<Longrightarrow> current_txid (index_run txs) = fst (last txs)"
  by (cases txs rule: rev_cases) (simp_all add: index_run_snoc handle_committed_transaction_def)

lemma index_run_holds:
  "in_order txs \<Longrightarrow> cs_inv (seqnos_of (index_run txs) k) \<and>
     cs_set (seqnos_of (index_run txs) k) = set (writes_of txs k)"
proof (induction txs arbitrary: k rule: rev_induct)
  case Nil
  then show ?case by (simp add: index_run_def new_index_def seqnos_of_def writes_of_def)
next
  case (snoc tx txs)
  then have o: "in_order txs" "tx_seqno (fst tx) < max64" by (auto simp: in_order_def sorted_wrt_append)
  have "cs_inv (seqnos_of (index_run txs) j)" for j using snoc.IH [OF o(1)] by blast
  from visit_entries [OF o(2) this, of "snd tx" k]
  show ?case
    using snoc.IH [OF o(1)]
    by (auto simp: index_run_snoc handle_committed_transaction_def seqnos_of_def writes_of_def)
qed

lemma index_run_elems:
  assumes "in_order txs"
  shows "cs_elems (seqnos_of (index_run txs) k) = writes_of txs k"
proof -
  have "sorted_wrt (<) (writes_of txs k)"
    using assms by (simp add: in_order_def writes_of_def sorted_wrt_map sorted_wrt_filter)
  then have "writes_of txs k = sorted_list_of_set (set (writes_of txs k))"
    by (metis sorted_list_of_set.idem_if_sorted_distinct strict_sorted_iff)
  then show ?thesis using index_run_holds [OF assms, of k] elems_sorted_list by metis
qed

section \<open>Queries\<close>

lemma lower_bound_position:
  assumes "cs_inv s"
  obtains it where "cs_lower_bound s n = Some it" "it_valid s it"
    "it_pos s it = length (filter (\<lambda>x. x < n) (cs_elems s))"
  using cs_search_correct [OF assms, of "\<lambda>x. x < n"] by (auto simp: cs_lower_bound_def)

lemma upper_bound_position:
  assumes "cs_inv s"
  obtains it where "cs_upper_bound s n = Some it" "it_valid s it"
    "it_pos s it = length (filter (\<lambda>x. x \<le> n) (cs_elems s))"
  using cs_search_correct [OF assms, of "\<lambda>x. x \<le> n"] by (auto simp: cs_upper_bound_def)

lemma filter_below_le: "a \<le> b \<Longrightarrow> length (filter (\<lambda>x. x < a) xs) \<le> length (filter (\<lambda>x. x \<le> b) xs)"
  for a b :: nat
  by (induction xs) auto

lemma segment_between:
  fixes xs :: "nat list"
  assumes "sorted_wrt (<) xs" "a \<le> b"
  shows "drop (length (filter (\<lambda>x. x < a) xs)) (take (length (filter (\<lambda>x. x \<le> b) xs)) xs) =
    filter (\<lambda>x. a \<le> x \<and> x \<le> b) xs"
proof -
  let ?ys = "filter (\<lambda>x. x \<le> b) xs"
  have "filter (\<lambda>x. x < a) xs = filter (\<lambda>x. x < a) ?ys"
    using assms(2) by (auto intro!: filter_cong)
  moreover have "drop (length (filter (\<lambda>x. x < a) ?ys)) ?ys = filter (\<lambda>x. \<not> x < a) ?ys"
    using assms(1) by (intro drop_initial) (auto simp: sorted_wrt_filter)
  moreover have "take (length ?ys) xs = ?ys" using assms(1) by (intro take_initial) auto
  ultimately show ?thesis by (simp add: not_less conj_commute)
qed

text \<open>Both searches of a query, on the collection of one key.\<close>

lemma query_unlimited:
  assumes "cs_inv s" "from \<le> to"
  shows "\<exists>b e r. cs_lower_bound s from = Some b \<and> cs_upper_bound s to = Some e \<and>
    init_from_iterators s b e = Some r \<and> cs_inv r \<and>
    cs_elems r = filter (\<lambda>n. from \<le> n \<and> n \<le> to) (cs_elems s)"
proof -
  obtain b where b: "cs_lower_bound s from = Some b" "it_valid s b"
    "it_pos s b = length (filter (\<lambda>x. x < from) (cs_elems s))"
    using lower_bound_position [OF assms(1)] .
  obtain e where e: "cs_upper_bound s to = Some e" "it_valid s e"
    "it_pos s e = length (filter (\<lambda>x. x \<le> to) (cs_elems s))"
    using upper_bound_position [OF assms(1)] .
  have "it_pos s b \<le> it_pos s e" using b e filter_below_le [OF assms(2)] by simp
  then show ?thesis
    using init_from_iterators_correct [OF assms(1) b(2) e(2)] b e
      segment_between [OF sorted_cs_elems [OF assms(1)] assms(2)] by auto
qed

lemma query_limited:
  assumes "cs_inv s" "m < length (filter (\<lambda>n. from \<le> n) (cs_elems s))"
  shows "\<exists>b e r. cs_lower_bound s from = Some b \<and> m < it_diff s (cs_end s) b \<and>
    it_advance s b m = Some e \<and> init_from_iterators s b e = Some r \<and> cs_inv r \<and>
    cs_elems r = take m (filter (\<lambda>n. from \<le> n) (cs_elems s))"
proof -
  let ?xs = "cs_elems s"
  obtain b where b: "cs_lower_bound s from = Some b" "it_valid s b"
    "it_pos s b = length (filter (\<lambda>x. x < from) ?xs)"
    using lower_bound_position [OF assms(1)] .
  have rest: "drop (it_pos s b) ?xs = filter (\<lambda>n. from \<le> n) ?xs"
    using drop_initial [OF sorted_cs_elems [OF assms(1)], of "\<lambda>x. x < from"] b(3)
    by (simp add: not_less)
  then have len: "length ?xs - it_pos s b = length (filter (\<lambda>n. from \<le> n) ?xs)"
    by (metis length_drop)
  have d: "it_diff s (cs_end s) b = length ?xs - it_pos s b"
    using it_diff_correct [OF assms(1) _ b(2), of "cs_end s"] it_pos_le [OF b(2)] it_pos_end by simp
  have "it_pos s b + m < length ?xs" using len assms(2) by linarith
  then obtain e where e: "it_advance s b m = Some e" "it_valid s e" "it_pos s e = it_pos s b + m"
    using it_advance_correct [OF assms(1) b(2)] by blast
  have "drop (it_pos s b) (take (it_pos s e) ?xs) = take m (drop (it_pos s b) ?xs)"
    using e(3) by (simp add: take_drop add.commute)
  then have "drop (it_pos s b) (take (it_pos s e) ?xs) = take m (filter (\<lambda>n. from \<le> n) ?xs)"
    by (simp only: rest)
  then have "\<exists>r. init_from_iterators s b e = Some r \<and> cs_inv r \<and>
      cs_elems r = take m (filter (\<lambda>n. from \<le> n) ?xs)"
    using init_from_iterators_correct [OF assms(1) b(2) e(2)] e(3) by simp
  moreover have "m < it_diff s (cs_end s) b" using d len assms(2) by simp
  ultimately show ?thesis using b(1) e(1) by blast
qed

lemma limit_distance:
  assumes "cs_inv s" "cs_lower_bound s from = Some b"
  shows "it_diff s (cs_end s) b = length (filter (\<lambda>n. from \<le> n) (cs_elems s))"
proof -
  obtain b' where b: "cs_lower_bound s from = Some b'" "it_valid s b'"
    "it_pos s b' = length (filter (\<lambda>x. x < from) (cs_elems s))"
    using lower_bound_position [OF assms(1)] .
  have "length (cs_elems s) - it_pos s b' = length (filter (\<lambda>n. from \<le> n) (cs_elems s))"
    using drop_initial [OF sorted_cs_elems [OF assms(1)], of "\<lambda>x. x < from"] b(3)
    by (metis (no_types, lifting) filter_cong length_drop less_trans not_less)
  then show ?thesis
    using it_diff_correct [OF assms(1) _ b(2), of "cs_end s"] it_pos_le [OF b(2)] it_pos_end assms(2) b(1)
    by simp
qed

text \<open>
  The number of results is bounded first, and the end of the range is looked at only when there are
  no more than that many sequence numbers from \<^verbatim>\<open>from\<close> to the end of the index.
\<close>

definition query_spec :: "nat list \<Rightarrow> nat \<Rightarrow> nat \<Rightarrow> nat option \<Rightarrow> nat list" where
  "query_spec xs from to max_seqnos =
     (let rest = filter (\<lambda>n. from \<le> n) xs in
      case max_seqnos of
        Some m \<Rightarrow> if m < length rest then take m rest else filter (\<lambda>n. n \<le> to) rest
      | None \<Rightarrow> filter (\<lambda>n. n \<le> to) rest)"

lemma query_impl:
  assumes "cs_inv (seqnos_of idx k)" "from \<le> to"
  shows "\<exists>r. get_write_txs_impl idx k from to lim = Seqnos r \<and> cs_inv r \<and>
    cs_elems r = query_spec (cs_elems (seqnos_of idx k)) from to lim"
proof (cases "map_of (seqnos_by_key idx) k")
  case None
  then show ?thesis
    by (simp add: get_write_txs_impl_def seqnos_of_def query_spec_def split: option.splits)
next
  case (Some s)
  then have s: "seqnos_of idx k = s" "cs_inv s" using assms(1) by (simp_all add: seqnos_of_def)
  let ?over = "\<lambda>m. m < length (filter (\<lambda>n. from \<le> n) (cs_elems s))"
  have conj: "filter (\<lambda>n. n \<le> to) (filter (\<lambda>n. from \<le> n) (cs_elems s)) =
      filter (\<lambda>n. from \<le> n \<and> n \<le> to) (cs_elems s)" by (simp add: conj_commute)
  show ?thesis
  proof (cases "\<exists>m. lim = Some m \<and> ?over m")
    case True
    then obtain m where m: "lim = Some m" "?over m" by blast
    from query_limited [OF s(2) m(2)] show ?thesis
      using Some s m by (auto simp: get_write_txs_impl_def query_spec_def)
  next
    case False
    obtain b e r where r: "cs_lower_bound s from = Some b" "cs_upper_bound s to = Some e"
      "init_from_iterators s b e = Some r" "cs_inv r"
      "cs_elems r = filter (\<lambda>n. from \<le> n \<and> n \<le> to) (cs_elems s)"
      using query_unlimited [OF s(2) assms(2)] by blast
    then show ?thesis
      using Some s False conj limit_distance [OF s(2) r(1)]
      by (cases lim) (auto simp: get_write_txs_impl_def query_spec_def Let_def)
  qed
qed

section \<open>Properties\<close>

definition sample_txs :: "committed_tx list" where
  "sample_txs =
     [(\<lparr>tx_view = 2, tx_seqno = 1\<rparr>, [[1], [2]]), (\<lparr>tx_view = 2, tx_seqno = 2\<rparr>, [[1]]),
      (\<lparr>tx_view = 2, tx_seqno = 3\<rparr>, [[2]]), (\<lparr>tx_view = 2, tx_seqno = 4\<rparr>, [[1]]),
      (\<lparr>tx_view = 3, tx_seqno = 5\<rparr>, [[1]])]"

text \<open>
  C23. A query of the index in memory is exact. After the committed transactions have been handled in the
  order of their sequence numbers, a query for a key without a limit returns precisely the sequence
  numbers in the range at which the key was written, in ascending order; a range that goes backwards
  throws, and one that reaches beyond the last transaction handled has no answer yet.
\<close>

theorem index_query_exact:
  assumes "in_order txs" "txs \<noteq> []"
  shows "(if to < from then get_write_txs_in_range (index_run txs) k from to None = RangeGoesBackwards
    else if tx_seqno (fst (last txs)) < to
    then get_write_txs_in_range (index_run txs) k from to None = NotYetIndexed
    else \<exists>r. get_write_txs_in_range (index_run txs) k from to None = Seqnos r \<and>
      cs_elems r = filter (\<lambda>n. from \<le> n \<and> n \<le> to) (writes_of txs k))"
proof -
  have "cs_inv (seqnos_of (index_run txs) k)" using index_run_holds [OF assms(1)] by blast
  from query_impl [OF this, of "from" to None] show ?thesis
    by (auto simp: get_write_txs_in_range_def index_run_current [OF assms(2)] index_run_elems [OF assms(1)]
        query_spec_def conj_commute)
qed

theorem index_query_exact_witness:
  "\<exists>r. get_write_txs_in_range (index_run sample_txs) [1] 2 4 None = Seqnos r \<and> cs_elems r = [2, 4]"
proof -
  have "in_order sample_txs" "sample_txs \<noteq> []" by (code_simp, code_simp)
  from index_query_exact [OF this, of 4 2 "[1]"]
  have "\<exists>r. get_write_txs_in_range (index_run sample_txs) [1] 2 4 None = Seqnos r \<and>
      cs_elems r = filter (\<lambda>n. 2 \<le> n \<and> n \<le> 4) (writes_of sample_txs [1])"
    by (simp add: sample_txs_def)
  moreover have "filter (\<lambda>n. 2 \<le> n \<and> n \<le> 4) (writes_of sample_txs [1]) = [2, 4]" by code_simp
  ultimately show ?thesis by simp
qed

text \<open>
  C24. A query with a limit bounds the number of its results but not, then, their range: whenever more than
  that many writes of the key are indexed from the start of the range on, it returns the first ones of
  them, up to the limit, without regard to the end of the range.
\<close>

theorem limited_query_ignores_end:
  assumes "in_order txs" "txs \<noteq> []" "from \<le> to" "to \<le> tx_seqno (fst (last txs))"
  shows "\<exists>r. get_write_txs_in_range (index_run txs) k from to (Some m) = Seqnos r \<and>
    cs_elems r = (let rest = filter (\<lambda>n. from \<le> n) (writes_of txs k)
      in if m < length rest then take m rest else filter (\<lambda>n. n \<le> to) rest)"
proof -
  have "cs_inv (seqnos_of (index_run txs) k)" using index_run_holds [OF assms(1)] by blast
  from query_impl [OF this assms(3), of "Some m"] show ?thesis
    using assms(3,4)
    by (auto simp: get_write_txs_in_range_def index_run_current [OF assms(2)] index_run_elems [OF assms(1)]
        query_spec_def Let_def)
qed

theorem limited_query_ignores_end_witness:
  "\<exists>r. get_write_txs_in_range (index_run sample_txs) [1] 1 2 (Some 3) = Seqnos r \<and> cs_elems r = [1, 2, 4]"
proof -
  have h: "in_order sample_txs" "sample_txs \<noteq> []" "(1::nat) \<le> 2"
    "2 \<le> tx_seqno (fst (last sample_txs))" by (code_simp, code_simp, simp, code_simp)
  have "(let rest = filter (\<lambda>n. 1 \<le> n) (writes_of sample_txs [1])
      in if 3 < length rest then take 3 rest else filter (\<lambda>n. n \<le> 2) rest) = [1, 2, 4]" by code_simp
  then show ?thesis using limited_query_ignores_end [OF h, of "[1]" 3] by simp
qed

end
