(* ===== verification/Lru.thy ===== *)
theory Lru
  imports CCF_Prelude "HOL-Library.Multiset"
begin

text \<open>
  The cache of \<^verbatim>\<open>src/ds/lru.h\<close>: a list of entries, most recent first, and a map from keys to
  iterators into that list. A list node has an identity that survives every operation on the other
  nodes, as the iterators of \<^verbatim>\<open>std::list\<close> do; \<^verbatim>\<open>end()\<close> is \<^const>\<open>None\<close>.
\<close>

record ('k, 'v) lru =
  entries_list :: "(nat \<times> 'k \<times> 'v) list"
  iter_map :: "('k \<times> nat) list"
  lru_max_size :: nat
  next_node :: nat

definition lru_new :: "nat \<Rightarrow> ('k, 'v) lru" where
  "lru_new ms = \<lparr>entries_list = [], iter_map = [], lru_max_size = ms, next_node = 0\<rparr>"

function cull_loop ::
  "nat \<Rightarrow> (nat \<times> 'k \<times> 'v) list \<times> ('k \<times> nat) list \<Rightarrow> (nat \<times> 'k \<times> 'v) list \<times> ('k \<times> nat) list"
where
  "cull_loop ms (es, im) =
     (if ms < length es then cull_loop ms (butlast es, AList.delete (fst (snd (last es))) im)
      else (es, im))"
  by pat_completeness auto
termination
  by (relation "measure (\<lambda>(ms, es, im). length es)") auto

declare cull_loop.simps [simp del]

definition cull :: "('k, 'v) lru \<Rightarrow> ('k, 'v) lru" where
  "cull c =
     (let (es, im) = cull_loop (lru_max_size c) (entries_list c, iter_map c)
      in c\<lparr>entries_list := es, iter_map := im\<rparr>)"

definition lru_size :: "('k, 'v) lru \<Rightarrow> nat" where
  "lru_size c = length (iter_map c)"

definition set_max_size :: "('k, 'v) lru \<Rightarrow> nat \<Rightarrow> ('k, 'v) lru" where
  "set_max_size c ms = cull (c\<lparr>lru_max_size := ms\<rparr>)"

definition lru_find :: "('k, 'v) lru \<Rightarrow> 'k \<Rightarrow> nat option" where
  "lru_find c k = map_of (iter_map c) k"

definition lru_contains :: "('k, 'v) lru \<Rightarrow> 'k \<Rightarrow> bool" where
  "lru_contains c k \<longleftrightarrow> map_of (iter_map c) k \<noteq> None"

definition deref :: "('k, 'v) lru \<Rightarrow> nat \<Rightarrow> ('k \<times> 'v) option" where
  "deref c it = map_of (entries_list c) it"

definition assign :: "('k, 'v) lru \<Rightarrow> nat \<Rightarrow> 'v \<Rightarrow> ('k, 'v) lru" where
  "assign c it v =
     c\<lparr>entries_list := map (\<lambda>(n, k, w). (n, k, if n = it then v else w)) (entries_list c)\<rparr>"

definition promote :: "('k, 'v) lru \<Rightarrow> nat \<Rightarrow> ('k, 'v) lru" where
  "promote c it =
     c\<lparr>entries_list := filter (\<lambda>e. fst e = it) (entries_list c) @
        filter (\<lambda>e. fst e \<noteq> it) (entries_list c)\<rparr>"

definition lru_insert :: "('k, 'v) lru \<Rightarrow> 'k \<Rightarrow> 'v \<Rightarrow> ('k, 'v) lru \<times> nat option" where
  "lru_insert c k v =
     (let c' =
        (case map_of (iter_map c) k of
           Some it \<Rightarrow> promote c it
         | None \<Rightarrow>
             cull (c\<lparr>entries_list := (next_node c, k, v) # entries_list c,
                     iter_map := AList.update k (next_node c) (iter_map c),
                     next_node := Suc (next_node c)\<rparr>))
      in (c', if entries_list c' = [] then None else Some (fst (hd (entries_list c')))))"

text \<open>\<^verbatim>\<open>operator[]\<close> inserts the default \<^verbatim>\<open>V{}\<close> of the type, the argument \<open>v0\<close> here.\<close>

definition lru_subscript :: "('k, 'v) lru \<Rightarrow> 'k \<Rightarrow> 'v \<Rightarrow> ('k, 'v) lru \<times> nat option" where
  "lru_subscript c k v0 = lru_insert c k v0"

definition lru_clear :: "('k, 'v) lru \<Rightarrow> ('k, 'v) lru" where
  "lru_clear c = c\<lparr>entries_list := [], iter_map := []\<rparr>"

section \<open>Invariant\<close>

abbreviation lru_keys :: "('k, 'v) lru \<Rightarrow> 'k list" where
  "lru_keys c \<equiv> map (\<lambda>e. fst (snd e)) (entries_list c)"

text \<open>The value the cache holds for a key, from the list alone.\<close>

definition lru_value :: "('k, 'v) lru \<Rightarrow> 'k \<Rightarrow> 'v option" where
  "lru_value c k = map_of (map snd (entries_list c)) k"

text \<open>The list and the map hold the same nodes, one for each key.\<close>

definition linked :: "(nat \<times> 'k \<times> 'v) list \<Rightarrow> ('k \<times> nat) list \<Rightarrow> bool" where
  "linked es im \<longleftrightarrow>
     distinct (map (\<lambda>e. fst (snd e)) es) \<and> distinct (map fst es) \<and> distinct (map fst im) \<and>
     (\<forall>k n. (k, n) \<in> set im \<longleftrightarrow> (\<exists>v. (n, k, v) \<in> set es))"

definition lru_inv :: "('k, 'v) lru \<Rightarrow> bool" where
  "lru_inv c \<longleftrightarrow>
     linked (entries_list c) (iter_map c) \<and> (\<forall>e\<in>set (entries_list c). fst e < next_node c) \<and>
     length (entries_list c) \<le> lru_max_size c"

lemma linked_find:
  "linked es im \<Longrightarrow> map_of im k = Some n \<longleftrightarrow> (\<exists>v. (n, k, v) \<in> set es)"
  by (simp add: linked_def)

lemma linked_absent:
  assumes "linked es im"
  shows "map_of im k = None \<longleftrightarrow> (\<forall>e\<in>set es. fst (snd e) \<noteq> k)"
proof -
  have "map_of im k = None \<longleftrightarrow> (\<forall>n v. (n, k, v) \<notin> set es)"
    using linked_find [OF assms] by (metis not_None_eq)
  then show ?thesis by auto
qed

lemma linked_value:
  assumes "linked es im"
  shows "map_of (map snd es) k = Some v \<longleftrightarrow> (\<exists>n. (n, k, v) \<in> set es)"
proof -
  have "distinct (map fst (map snd es))" using assms by (simp add: linked_def comp_def)
  then have "map_of (map snd es) k = Some v \<longleftrightarrow> (k, v) \<in> set (map snd es)" by (rule map_of_eq_Some_iff)
  then show ?thesis by (force simp: image_iff)
qed

lemma linked_butlast:
  assumes "linked es im" "es \<noteq> []"
  shows "linked (butlast es) (AList.delete (fst (snd (last es))) im)"
proof -
  obtain n k v where l: "last es = (n, k, v)" by (cases "last es")
  define fs where "fs = butlast es"
  have es: "es = fs @ [(n, k, v)]" using assms(2) l by (metis append_butlast_last_id fs_def)
  have fs: "\<And>n' v'. (n', k, v') \<notin> set fs" using assms(1) es by (force simp: linked_def)
  have "(k', n') \<in> set (AList.delete k im) \<longleftrightarrow> (\<exists>v. (n', k', v) \<in> set fs)" for k' n'
    using assms(1) es fs by (auto simp: AList.delete_eq linked_def)
  moreover have "distinct (map fst (AList.delete k im))"
    using assms(1) by (simp add: linked_def distinct_delete)
  ultimately show ?thesis using assms(1) es l by (simp add: linked_def fs_def [symmetric])
qed

lemma cull_loop_correct:
  "linked es im \<Longrightarrow> fst (cull_loop ms (es, im)) = take ms es \<and>
     linked (take ms es) (snd (cull_loop ms (es, im)))"
proof (induction ms "(es, im)" arbitrary: es im rule: cull_loop.induct)
  case (1 ms es im)
  show ?case
  proof (cases "ms < length es")
    case True
    then have "es \<noteq> []" by auto
    then have "linked (butlast es) (AList.delete (fst (snd (last es))) im)"
      using "1.prems" by (rule linked_butlast [rotated])
    then show ?thesis
      using "1.hyps" [OF True] True by (simp add: cull_loop.simps [of ms es] butlast_conv_take)
  next
    case False
    then show ?thesis using "1.prems" by (simp add: cull_loop.simps)
  qed
qed

lemma cull_correct:
  assumes "linked (entries_list c) (iter_map c)" "\<forall>e\<in>set (entries_list c). fst e < next_node c"
  shows "lru_inv (cull c) \<and> entries_list (cull c) = take (lru_max_size c) (entries_list c)
    \<and> lru_max_size (cull c) = lru_max_size c"
  using cull_loop_correct [OF assms(1), of "lru_max_size c"] assms(2)
  by (auto simp: cull_def lru_inv_def case_prod_beta dest: in_set_takeD)

lemma linked_split:
  assumes "linked es im" "(n, k, v) \<in> set es"
  obtains ys zs where "es = ys @ (n, k, v) # zs" "\<forall>e\<in>set (ys @ zs). fst e \<noteq> n \<and> fst (snd e) \<noteq> k"
proof -
  obtain ys zs where es: "es = ys @ (n, k, v) # zs" using assms(2) by (auto simp: in_set_conv_decomp)
  moreover have "distinct (map fst es)" "distinct (map (\<lambda>e. fst (snd e)) es)"
    using assms(1) by (simp_all add: linked_def)
  ultimately have "\<forall>e\<in>set (ys @ zs). fst e \<noteq> n \<and> fst (snd e) \<noteq> k" by auto
  then show thesis using es by (rule that [rotated])
qed

lemma linked_promote:
  assumes "linked es im" "map_of im k = Some n"
  shows "\<exists>v. filter (\<lambda>e. fst e = n) es @ filter (\<lambda>e. fst e \<noteq> n) es =
      (n, k, v) # filter (\<lambda>e. fst (snd e) \<noteq> k) es \<and> map_of (map snd es) k = Some v"
proof -
  obtain v where v: "(n, k, v) \<in> set es" using assms linked_find by metis
  from linked_split [OF assms(1) v] obtain ys zs
    where es: "es = ys @ (n, k, v) # zs" "\<forall>e\<in>set (ys @ zs). fst e \<noteq> n \<and> fst (snd e) \<noteq> k" .
  have "filter (\<lambda>e. fst e = n) ys = []" "filter (\<lambda>e. fst e = n) zs = []"
    "filter (\<lambda>e. fst e \<noteq> n) ys = ys" "filter (\<lambda>e. fst e \<noteq> n) zs = zs"
    "filter (\<lambda>e. fst (snd e) \<noteq> k) ys = ys" "filter (\<lambda>e. fst (snd e) \<noteq> k) zs = zs"
    using es(2) by (auto simp: filter_empty_conv filter_id_conv)
  then show ?thesis using es(1) linked_value [OF assms(1), of k v] v by auto
qed

lemma linked_reorder:
  assumes "linked es im" "mset fs = mset es"
  shows "linked fs im"
proof -
  have "distinct (map fst fs) = distinct (map fst es)"
    by (rule mset_eq_imp_distinct_iff) (simp only: mset_map assms(2))
  moreover have "distinct (map (\<lambda>e. fst (snd e)) fs) = distinct (map (\<lambda>e. fst (snd e)) es)"
    by (rule mset_eq_imp_distinct_iff) (simp only: mset_map assms(2))
  moreover have "set fs = set es" using assms(2) by (rule mset_eq_setD)
  ultimately show ?thesis using assms(1) by (simp add: linked_def)
qed

lemma linked_push:
  assumes "linked es im" "map_of im k = None" "\<forall>e\<in>set es. fst e < n"
  shows "linked ((n, k, v) # es) (AList.update k n im)"
proof -
  have "(k', n') \<in> set (AList.update k n im) \<longleftrightarrow> (k', n') = (k, n) \<or> (k', n') \<in> set im" for k' n'
    using assms(2) by (induction im) auto
  then show ?thesis
    using assms linked_absent [OF assms(1), of k] by (auto simp: linked_def distinct_update)
qed

lemma insert_absent:
  fixes c :: "('k, 'v) lru" and v :: 'v
  assumes inv: "lru_inv c" and None: "map_of (iter_map c) k = None"
  defines "c' \<equiv> fst (lru_insert c k v)"
  shows "lru_inv c' \<and> lru_max_size c' = lru_max_size c \<and>
    entries_list c' = take (lru_max_size c) ((next_node c, k, v) # entries_list c)"
proof -
  let ?c = "c\<lparr>entries_list := (next_node c, k, v) # entries_list c,
     iter_map := AList.update k (next_node c) (iter_map c), next_node := Suc (next_node c)\<rparr>"
  have "linked (entries_list ?c) (iter_map ?c)" "\<forall>e\<in>set (entries_list ?c). fst e < next_node ?c"
    using linked_push [of "entries_list c" "iter_map c" k "next_node c"] None inv
    by (auto simp: lru_inv_def less_Suc_eq)
  from cull_correct [OF this] show ?thesis using None by (simp add: c'_def lru_insert_def Let_def)
qed

lemma insert_present:
  fixes c :: "('k, 'v) lru" and v :: 'v
  assumes inv: "lru_inv c" and Some: "map_of (iter_map c) k = Some n"
  defines "c' \<equiv> fst (lru_insert c k v)"
  shows "\<exists>w. lru_value c k = Some w \<and> lru_inv c' \<and> lru_max_size c' = lru_max_size c \<and>
    entries_list c' = (n, k, w) # filter (\<lambda>e. fst (snd e) \<noteq> k) (entries_list c)"
proof -
  let ?es = "entries_list c"
  have l: "linked ?es (iter_map c)" using inv by (simp add: lru_inv_def)
  from linked_promote [OF l Some] obtain w where
    w: "filter (\<lambda>e. fst e = n) ?es @ filter (\<lambda>e. fst e \<noteq> n) ?es =
      (n, k, w) # filter (\<lambda>e. fst (snd e) \<noteq> k) ?es" "map_of (map snd ?es) k = Some w" by blast
  have m: "mset (filter (\<lambda>e. fst e = n) ?es @ filter (\<lambda>e. fst e \<noteq> n) ?es) = mset ?es" by simp
  have "lru_inv (promote c n)"
    using inv linked_reorder [OF l m] mset_eq_setD [OF m] mset_eq_length [OF m]
    by (simp add: lru_inv_def promote_def)
  then show ?thesis
    using Some w by (simp add: c'_def lru_insert_def Let_def lru_value_def promote_def)
qed

text \<open>
  What an insertion leaves: the key at the front, with the value it already had if it was there, then
  the other keys in their order, cut at the capacity.
\<close>

lemma lru_insert_correct:
  fixes c :: "('k, 'v) lru" and k :: 'k and v :: 'v
  assumes inv: "lru_inv c"
  defines "c' \<equiv> fst (lru_insert c k v)"
    and "w \<equiv> (case lru_value c k of Some w \<Rightarrow> w | None \<Rightarrow> v)"
  shows "lru_inv c' \<and> lru_max_size c' = lru_max_size c \<and> (\<exists>n. entries_list c' =
      take (lru_max_size c) ((n, k, w) # filter (\<lambda>e. fst (snd e) \<noteq> k) (entries_list c)))"
proof (cases "map_of (iter_map c) k")
  case None
  have "\<forall>e\<in>set (entries_list c). fst (snd e) \<noteq> k"
    using linked_absent [of "entries_list c" "iter_map c" k] inv None by (simp add: lru_inv_def)
  then have "lru_value c k = None" "filter (\<lambda>e. fst (snd e) \<noteq> k) (entries_list c) = entries_list c"
    by (auto simp: lru_value_def map_of_eq_None_iff filter_id_conv)
  then show ?thesis using insert_absent [OF inv None, of v] by (auto simp: c'_def w_def)
next
  case (Some n)
  from insert_present [OF inv Some, of v] obtain u where
    u: "lru_value c k = Some u" "lru_inv c'" "lru_max_size c' = lru_max_size c"
      "entries_list c' = (n, k, u) # filter (\<lambda>e. fst (snd e) \<noteq> k) (entries_list c)"
    by (auto simp: c'_def)
  then have "length (entries_list c') \<le> lru_max_size c" by (simp add: lru_inv_def)
  then show ?thesis using u by (auto simp: w_def)
qed

lemma lru_new_inv: "lru_inv (lru_new ms)"
  by (simp add: lru_inv_def lru_new_def linked_def)

lemma lru_clear_inv: "lru_inv c \<Longrightarrow> lru_inv (lru_clear c)"
  by (simp add: lru_inv_def lru_clear_def linked_def)

lemma set_max_size_correct:
  "lru_inv c \<Longrightarrow> lru_inv (set_max_size c ms) \<and>
     entries_list (set_max_size c ms) = take ms (entries_list c)"
proof -
  assume "lru_inv c"
  then have "linked (entries_list (c\<lparr>lru_max_size := ms\<rparr>)) (iter_map (c\<lparr>lru_max_size := ms\<rparr>))"
    "\<forall>e\<in>set (entries_list (c\<lparr>lru_max_size := ms\<rparr>)). fst e < next_node (c\<lparr>lru_max_size := ms\<rparr>)"
    by (simp_all add: lru_inv_def)
  from cull_correct [OF this] show ?thesis by (simp add: set_max_size_def)
qed

lemma lru_find_correct:
  assumes "lru_inv c"
  shows "(case lru_find c k of
      None \<Rightarrow> lru_value c k = None
    | Some it \<Rightarrow> \<exists>v. deref c it = Some (k, v) \<and> lru_value c k = Some v)"
proof -
  have l: "linked (entries_list c) (iter_map c)" using assms by (simp add: lru_inv_def)
  show ?thesis
  proof (cases "lru_find c k")
    case None
    then have "lru_value c k = None"
      using linked_absent [OF l, of k] by (auto simp: lru_find_def lru_value_def map_of_eq_None_iff)
    then show ?thesis using None by simp
  next
    case (Some it)
    then obtain v where v: "(it, k, v) \<in> set (entries_list c)"
      using linked_find [OF l] by (auto simp: lru_find_def)
    then have "deref c it = Some (k, v)" using l by (simp add: deref_def linked_def)
    moreover have "lru_value c k = Some v" using linked_value [OF l] v by (auto simp: lru_value_def)
    ultimately show ?thesis using Some by simp
  qed
qed

lemma lru_value_node:
  assumes "lru_inv c"
  shows "lru_value c k = Some v \<longleftrightarrow> (\<exists>n. (n, k, v) \<in> set (entries_list c))"
  using linked_value [of "entries_list c" "iter_map c"] assms by (simp add: lru_inv_def lru_value_def)

lemma option_ext: "(\<And>u. a = Some u \<longleftrightarrow> b = Some u) \<Longrightarrow> a = b"
  by (cases a; cases b) auto

lemma assign_correct:
  fixes c :: "('k, 'v) lru"
  assumes "lru_inv c" "lru_find c k = Some it"
  shows "lru_inv (assign c it v) \<and> lru_max_size (assign c it v) = lru_max_size c \<and>
    lru_value (assign c it v) = (lru_value c)(k \<mapsto> v)"
proof -
  let ?es = "entries_list c" and ?f = "\<lambda>(n, k, w). (n, k, if n = it then v else w)"
  have l: "linked ?es (iter_map c)" using assms by (simp add: lru_inv_def)
  have fst_map: "map fst (map ?f es) = map fst es"
    "map (\<lambda>e. fst (snd e)) (map ?f es) = map (\<lambda>e. fst (snd e)) es" for es :: "(nat \<times> 'k \<times> 'v) list"
    by (induction es) auto
  have mem: "(n, k', u) \<in> set (map ?f ?es) \<longleftrightarrow>
      (\<exists>w. (n, k', w) \<in> set ?es \<and> u = (if n = it then v else w))" for n k' u by force
  have "linked (map ?f ?es) (iter_map c)"
    unfolding linked_def fst_map mem using l by (simp add: linked_def)
  then have inv: "lru_inv (assign c it v)" using assms(1) by (auto simp: lru_inv_def assign_def)
  obtain w where w: "(it, k, w) \<in> set ?es"
    using assms(2) linked_find [OF l] by (auto simp: lru_find_def)
  have k1: "(it, k', x) \<in> set ?es \<Longrightarrow> k' = k" for k' x
    using w l eq_key_imp_eq_value [of ?es it] by (auto simp: linked_def)
  have k2: "(n, k, x) \<in> set ?es \<Longrightarrow> n = it" for n x
    using linked_find [OF l, of k n] assms(2) by (auto simp: lru_find_def)
  have "lru_value (assign c it v) k' = Some u \<longleftrightarrow> ((lru_value c)(k \<mapsto> v)) k' = Some u" for k' u
  proof -
    have "lru_value (assign c it v) k' = Some u \<longleftrightarrow> (\<exists>n. (n, k', u) \<in> set (map ?f ?es))"
      unfolding lru_value_node [OF inv] by (simp add: assign_def)
    also have "\<dots> \<longleftrightarrow> (\<exists>n w. (n, k', w) \<in> set ?es \<and> u = (if n = it then v else w))" by (simp only: mem)
    also have "\<dots> \<longleftrightarrow> ((lru_value c)(k \<mapsto> v)) k' = Some u"
    proof (cases "k' = k")
      case True
      have "(\<exists>n w. (n, k, w) \<in> set ?es \<and> u = (if n = it then v else w)) \<longleftrightarrow> u = v" using w k2 by metis
      then show ?thesis using True by auto
    next
      case False
      then have "(\<exists>n w. (n, k', w) \<in> set ?es \<and> u = (if n = it then v else w)) \<longleftrightarrow>
          (\<exists>n. (n, k', u) \<in> set ?es)" using k1 by metis
      then show ?thesis using False lru_value_node [OF assms(1), of k' u] by simp
    qed
    finally show ?thesis .
  qed
  then have "lru_value (assign c it v) k' = ((lru_value c)(k \<mapsto> v)) k'" for k'
    by (rule option_ext)
  then have "lru_value (assign c it v) = (lru_value c)(k \<mapsto> v)" by (rule ext)
  then show ?thesis using inv by (simp add: assign_def)
qed

lemma map_values_correct:
  fixes c :: "('k, 'v) lru" and f :: "'v \<Rightarrow> 'v"
  assumes "lru_inv c"
  defines "c' \<equiv> c\<lparr>entries_list := map (\<lambda>(n, k, v). (n, k, f v)) (entries_list c)\<rparr>"
  shows "lru_inv c' \<and> lru_value c' k = map_option f (lru_value c k)"
proof -
  let ?f = "\<lambda>(n, k, v). (n, k, f v)"
  have l: "linked (entries_list c) (iter_map c)" using assms by (simp add: lru_inv_def)
  have keys: "map fst (map ?f es) = map fst es"
    "map (\<lambda>e. fst (snd e)) (map ?f es) = map (\<lambda>e. fst (snd e)) es" for es :: "(nat \<times> 'k \<times> 'v) list"
    by (induction es) auto
  have mem: "(\<exists>u. (n, k', u) \<in> set (map ?f (entries_list c))) \<longleftrightarrow> (\<exists>u. (n, k', u) \<in> set (entries_list c))"
    for n k' by force
  have "linked (map ?f (entries_list c)) (iter_map c)"
    unfolding linked_def keys mem using l by (simp add: linked_def)
  moreover have "map_of (map snd (map ?f es)) k = map_option f (map_of (map snd es) k)"
    for es :: "(nat \<times> 'k \<times> 'v) list" by (induction es) auto
  ultimately show ?thesis using assms(1) by (auto simp: lru_inv_def lru_value_def c'_def)
qed

section \<open>The cache interface\<close>

text \<open>
  What a client relies on: the cache may forget any key at any insertion, but the values it does hold
  are ones the client gave it. Hence a property that holds of each value when it is put in holds of every
  value that is found.
\<close>

locale cache =
  fixes value_of :: "'c \<Rightarrow> 'k \<Rightarrow> 'v option"
    and inv :: "'c \<Rightarrow> bool"
    and ins :: "'c \<Rightarrow> 'k \<Rightarrow> 'v \<Rightarrow> 'c"
    and clr :: "'c \<Rightarrow> 'c"
  assumes ins_inv: "inv c \<Longrightarrow> inv (ins c k v)"
    and ins_value: "inv c \<Longrightarrow> value_of (ins c k v) k' = Some w \<Longrightarrow>
      value_of c k' = Some w \<or> k' = k \<and> w = v"
    and clr_inv: "inv c \<Longrightarrow> inv (clr c)"
    and clr_value: "value_of (clr c) k = None"
begin

lemma ins_all:
  assumes "inv c" "\<And>k w. value_of c k = Some w \<Longrightarrow> P k w" "P k v"
  shows "value_of (ins c k v) k' = Some w \<Longrightarrow> P k' w"
  using ins_value [OF assms(1)] assms(2,3) by metis

lemma fold_ins_all:
  assumes "inv c" "\<And>k w. value_of c k = Some w \<Longrightarrow> P k w" "\<forall>(k, v)\<in>set kvs. P k v"
  shows "inv (foldl (\<lambda>c (k, v). ins c k v) c kvs) \<and>
    (\<forall>k w. value_of (foldl (\<lambda>c (k, v). ins c k v) c kvs) k = Some w \<longrightarrow> P k w)"
  using assms
proof (induction kvs arbitrary: c)
  case (Cons kv kvs)
  obtain k v where kv: "kv = (k, v)" by fastforce
  have "inv (ins c k v)" using Cons.prems(1) by (rule ins_inv)
  moreover have "value_of (ins c k v) k' = Some w \<Longrightarrow> P k' w" for k' w
    using ins_all [OF Cons.prems(1,2)] Cons.prems(3) kv by auto
  ultimately show ?case using Cons.IH [of "ins c k v"] Cons.prems(3) kv by simp
qed auto

end

lemma lru_insert_value:
  assumes "lru_inv c" "lru_value (fst (lru_insert c k v)) k' = Some w"
  shows "lru_value c k' = Some w \<or> k' = k \<and> w = v"
proof -
  have c': "lru_inv (fst (lru_insert c k v))" using lru_insert_correct [OF assms(1)] by blast
  obtain n where n: "entries_list (fst (lru_insert c k v)) = take (lru_max_size c)
      ((n, k, case lru_value c k of Some w \<Rightarrow> w | None \<Rightarrow> v) # filter (\<lambda>e. fst (snd e) \<noteq> k) (entries_list c))"
    using lru_insert_correct [OF assms(1)] by blast
  obtain m where "(m, k', w) \<in> set (entries_list (fst (lru_insert c k v)))"
    using assms(2) lru_value_node [OF c'] by blast
  then have "k' = k \<and> w = (case lru_value c k of Some w \<Rightarrow> w | None \<Rightarrow> v) \<or> (m, k', w) \<in> set (entries_list c)"
    unfolding n by (auto dest!: in_set_takeD)
  then show ?thesis
    using lru_value_node [OF assms(1), of k' w] by (auto split: option.splits)
qed

interpretation lc: cache lru_value lru_inv "\<lambda>c k v. fst (lru_insert c k v)" lru_clear
proof
  show "lru_value c k' = Some w \<or> k' = k \<and> w = v"
    if "lru_inv c" "lru_value (fst (lru_insert c k v)) k' = Some w" for c :: "('a, 'b) lru" and k v k' w
    using that by (rule lru_insert_value)
  show "lru_inv (fst (lru_insert c k v))" if "lru_inv c" for c :: "('a, 'b) lru" and k v
    using lru_insert_correct [OF that] by blast
qed (simp add: lru_clear_inv, simp add: lru_value_def lru_clear_def)

section \<open>Recency\<close>

lemma take_filter_neq:
  "distinct xs \<Longrightarrow> take m (filter (\<lambda>x. x \<noteq> k) (take (Suc m) xs)) = take m (filter (\<lambda>x. x \<noteq> k) xs)"
proof (induction xs arbitrary: m)
  case (Cons x xs)
  show ?case
  proof (cases "x = k")
    case True
    then have "filter (\<lambda>x. x \<noteq> k) xs = xs" "filter (\<lambda>x. x \<noteq> k) (take m xs) = take m xs"
      using Cons.prems by (auto simp: filter_id_conv dest: in_set_takeD)
    then show ?thesis using True by simp
  next
    case False
    then show ?thesis using Cons by (cases m) auto
  qed
qed simp

lemma remdups_snoc: "remdups (xs @ [x]) = filter (\<lambda>y. y \<noteq> x) (remdups xs) @ [x]"
  by (induction xs) auto

lemma lru_keys_insert:
  assumes "lru_inv c"
  shows "lru_keys (fst (lru_insert c k v)) =
    take (lru_max_size c) (k # filter (\<lambda>x. x \<noteq> k) (lru_keys c))"
proof -
  have "map (\<lambda>e. fst (snd e)) (filter (\<lambda>e. fst (snd e) \<noteq> k) es) =
      filter (\<lambda>x. x \<noteq> k) (map (\<lambda>e. fst (snd e)) es)" for es :: "(nat \<times> 'a \<times> 'b) list"
    by (induction es) auto
  then show ?thesis using lru_insert_correct [OF assms, of k v] by (auto simp: take_map [symmetric])
qed

definition lru_run :: "nat \<Rightarrow> ('k \<times> 'v) list \<Rightarrow> ('k, 'v) lru" where
  "lru_run ms kvs = foldl (\<lambda>c (k, v). fst (lru_insert c k v)) (lru_new ms) kvs"

text \<open>
  C26. The cache holds the most recently used keys. After any sequence of insertions into an empty cache,
  its keys are the distinct keys of the sequence in the order of their last insertion, the most recent
  first, cut at the capacity.
\<close>

theorem lru_keeps_recent: "lru_keys (lru_run ms kvs) = take ms (rev (remdups (map fst kvs)))"
proof -
  have "lru_inv (lru_run ms kvs) \<and> lru_max_size (lru_run ms kvs) = ms \<and>
      lru_keys (lru_run ms kvs) = take ms (rev (remdups (map fst kvs)))"
  proof (induction kvs rule: rev_induct)
    case Nil
    have "lru_inv (lru_new ms :: ('a, 'b) lru)" by (rule lru_new_inv)
    then show ?case by (simp add: lru_run_def) (simp add: lru_new_def)
  next
    case (snoc kv kvs)
    obtain k v where kv: "kv = (k, v)" by fastforce
    let ?c = "lru_run ms kvs" and ?ks = "rev (remdups (map fst kvs))"
    have run: "lru_run ms (kvs @ [kv]) = fst (lru_insert ?c k v)" by (simp add: lru_run_def kv)
    have "lru_keys (fst (lru_insert ?c k v)) = take ms (k # filter (\<lambda>x. x \<noteq> k) (take ms ?ks))"
      using lru_keys_insert [of ?c k v] snoc by simp
    also have "\<dots> = take ms (k # filter (\<lambda>x. x \<noteq> k) ?ks)"
      using take_filter_neq [of ?ks _ k] by (cases ms) auto
    also have "\<dots> = take ms (rev (remdups (map fst (kvs @ [kv]))))"
      by (simp add: remdups_snoc kv rev_filter)
    finally show ?case using run snoc lru_insert_correct [of ?c k v] by simp
  qed
  then show ?thesis by blast
qed

end
