(* ===== verification/Hex.thy ===== *)
theory Hex
  imports Serialized
begin

text \<open>
  The hexadecimal text of \<^verbatim>\<open>include/ccf/ds/hex.h\<close>. A \<^verbatim>\<open>char\<close> is
  signed, so a code of 128 or more compares as a negative number, and \<^verbatim>\<open>hex_char_to_int\<close> returns
  a byte, so its differences wrap at 256.
\<close>

definition ascii_offset :: nat where
  "ascii_offset = 10"

definition hex_char_to_int :: "char \<Rightarrow> byte" where
  "hex_char_to_int c =
     (let n = (of_char c :: nat) in
      if n \<le> 57 \<or> 128 \<le> n then of_nat n - of_nat 48
      else if n \<le> 70 then of_nat n - of_nat 65 + of_nat ascii_offset
      else if n \<le> 102 then of_nat n - of_nat 97 + of_nat ascii_offset
      else of_nat n)"

text \<open>The format \<^verbatim>\<open>{:02x}\<close> of a byte: two digits in lower case.\<close>

definition hex_digit :: "nat \<Rightarrow> char" where
  "hex_digit d = (if d < 10 then char_of (48 + d) else char_of (87 + d))"

definition byte_hex :: "byte \<Rightarrow> string" where
  "byte_hex b = [hex_digit (unat b div 16), hex_digit (unat b mod 16)]"

definition to_hex :: "bytes \<Rightarrow> string" where
  "to_hex bs = concat (map byte_hex bs)"

datatype hex_error = OddLength | WrongSize

fun decode_pairs :: "string \<Rightarrow> bytes" where
  "decode_pairs (a # b # s) = (16 * hex_char_to_int a + hex_char_to_int b) # decode_pairs s"
| "decode_pairs _ = []"

definition from_hex_into :: "string \<Rightarrow> nat \<Rightarrow> hex_error + bytes" where
  "from_hex_into str sz =
     (if odd (length str) then Inl OddLength
      else if sz \<noteq> length str div 2 then Inl WrongSize
      else Inr (decode_pairs str))"

definition from_hex :: "string \<Rightarrow> hex_error + bytes" where
  "from_hex str = from_hex_into str (length str div 2)"

lemma hex_digit_value: "d < 16 \<Longrightarrow> hex_char_to_int (hex_digit d) = of_nat d"
proof -
  assume "d < 16"
  then have "d \<in> set [0 ..< 16]" by simp
  moreover have "list_all (\<lambda>d. hex_char_to_int (hex_digit d) = of_nat d) [0 ..< 16]" by code_simp
  ultimately show ?thesis by (simp only: list_all_iff)
qed

lemma decode_byte_hex:
  "decode_pairs (byte_hex b @ s) = b # decode_pairs s"
proof -
  have b: "unat b < 256" using unsigned_less [of b, where ?'a = nat] by simp
  then have "hex_char_to_int (hex_digit (unat b div 16)) = of_nat (unat b div 16)"
    "hex_char_to_int (hex_digit (unat b mod 16)) = of_nat (unat b mod 16)"
    by (simp_all add: hex_digit_value)
  moreover have "16 * of_nat (unat b div 16) + of_nat (unat b mod 16) = b"
  proof -
    have "(16 * of_nat (unat b div 16) + of_nat (unat b mod 16) :: byte) =
        of_nat (16 * (unat b div 16) + unat b mod 16)" by (simp only: of_nat_add of_nat_mult of_nat_numeral)
    then show ?thesis by simp
  qed
  ultimately show ?thesis by (simp add: byte_hex_def)
qed

lemma length_to_hex: "length (to_hex bs) = 2 * length bs"
  by (induction bs) (auto simp: to_hex_def byte_hex_def)

lemma from_hex_to_hex: "from_hex (to_hex bs) = Inr bs"
proof -
  have "decode_pairs (to_hex bs) = bs"
    by (induction bs) (simp_all add: to_hex_def decode_byte_hex)
  then show ?thesis by (simp add: from_hex_def from_hex_into_def length_to_hex)
qed

lemma to_hex_inj: "to_hex a = to_hex b \<longleftrightarrow> a = b"
  by (metis from_hex_to_hex sum.inject(2))

end
