(* ===== verification/Seqno_Buckets.thy ===== *)
theory Seqno_Buckets
  imports Seqno_Index Lru Hex
begin

text \<open>
  The index of \<^verbatim>\<open>src/indexing/strategies/seqnos_by_key_bucketed.cpp\<close>. The sequence numbers of a
  key are kept in buckets of fixed size; only the last bucket of each key is in memory, the earlier ones
  are stored through the large-file interface (\<^verbatim>\<open>src/indexing/lfs_interface.h\<close>) and fetched back
  asynchronously into a cache. The model records every blob that was stored; an answer to a fetch is an
  event of its own.
\<close>

section \<open>State\<close>

type_synonym bucket_key = "bytes \<times> range"

datatype fetch_result = Fetching | Loaded bytes | NotFound | Corrupt

text \<open>
  A bucket of the cache: the name and the state of the fetch while there is one, then the parsed result.
\<close>

type_synonym bucket_value = "(string \<times> fetch_result) option \<times> contiguous_set"

record bucket_index =
  bi_name :: string
  seqnos_per_bucket :: nat
  current_results :: "(bytes \<times> range \<times> contiguous_set) list"
  old_results :: "(bucket_key, bucket_value) lru"
  bi_txid :: tx_id
  lfs_stored :: "(string \<times> bytes) list"

definition no_txid :: tx_id where
  "no_txid = \<lparr>tx_view = VIEW_UNKNOWN, tx_seqno = 0\<rparr>"

definition new_bucket_index :: "string \<Rightarrow> nat \<Rightarrow> nat \<Rightarrow> bucket_index" where
  "new_bucket_index name p max_buckets =
     \<lparr>bi_name = name, seqnos_per_bucket = p, current_results = [], old_results = lru_new max_buckets,
      bi_txid = no_txid, lfs_stored = []\<rparr>"

section \<open>Blobs\<close>

definition serialise :: "contiguous_set \<Rightarrow> bytes" where
  "serialise seqnos = le_bytes 8 (cs_size seqnos) @ concat (map (le_bytes 8) (cs_elems seqnos))"

datatype parsed = Parsed contiguous_set | CorruptBlob | ReadThrows

fun read_seqnos :: "nat \<Rightarrow> bytes \<Rightarrow> contiguous_set \<Rightarrow> ser_error + (contiguous_set \<times> bytes)" where
  "read_seqnos 0 data seqnos = Inr (seqnos, data)"
| "read_seqnos (Suc n) data seqnos =
     (case ser_read 8 data of
        Inl e \<Rightarrow> Inl e
      | Inr (s, data') \<Rightarrow> read_seqnos n data' (fst (cs_insert seqnos s)))"

text \<open>
  The handler catches \<^verbatim>\<open>std::logic_error\<close>, of which the exception of
  \<^verbatim>\<open>serialized::read\<close> is not a subclass: it leaves the function.
\<close>

definition deserialise :: "bytes \<Rightarrow> parsed" where
  "deserialise raw =
     (case ser_read 8 raw of
        Inl e \<Rightarrow> ReadThrows
      | Inr (seqno_count, data) \<Rightarrow>
          (case read_seqnos seqno_count data [] of
             Inl e \<Rightarrow> ReadThrows
           | Inr (seqnos, rest) \<Rightarrow> if rest \<noteq> [] then CorruptBlob else Parsed seqnos))"

definition get_blob_name :: "string \<Rightarrow> bucket_key \<Rightarrow> string" where
  "get_blob_name name bk =
     name @ '': '' @ to_string (fst (snd bk)) @ '' -> '' @ to_string (snd (snd bk)) @ '' for '' @
       to_hex (fst bk)"

definition get_range_for :: "bucket_index \<Rightarrow> nat \<Rightarrow> range" where
  "get_range_for st seqno =
     (let b = (seqno div seqnos_per_bucket st) * seqnos_per_bucket st
      in (b, add64 b (seqnos_per_bucket st)))"

definition store_to_disk :: "bucket_index \<Rightarrow> bytes \<Rightarrow> range \<Rightarrow> contiguous_set \<Rightarrow> bucket_index" where
  "store_to_disk st k rng seqnos =
     st\<lparr>lfs_stored := lfs_stored st @ [(get_blob_name (bi_name st) (k, rng), serialise seqnos)]\<rparr>"

partial_function (option) store_empty_buckets ::
  "bucket_index \<Rightarrow> bytes \<Rightarrow> range \<Rightarrow> range \<Rightarrow> bucket_index option"
where
  "store_empty_buckets st k b e =
     (if b \<noteq> e then store_empty_buckets (store_to_disk st k b []) k (get_range_for st (snd b)) e
      else Some st)"

declare store_empty_buckets.simps [code]

section \<open>Writes\<close>

definition visit_bucket_entry :: "tx_id \<Rightarrow> bytes \<Rightarrow> bucket_index \<Rightarrow> bucket_index option" where
  "visit_bucket_entry tx k st =
     (let rng = get_range_for st (tx_seqno tx);
          insert_into = (\<lambda>st seqnos.
            st\<lparr>current_results := AList.update k (rng, fst (cs_insert seqnos (tx_seqno tx))) (current_results st)\<rparr>)
      in
      case map_of (current_results st) k of
        Some (current_range, seqnos) \<Rightarrow>
          if rng \<noteq> current_range then
            (let st1 = store_to_disk st k current_range seqnos;
                 next_range = get_range_for st (snd current_range)
             in
             if next_range \<noteq> rng then
               map_option (\<lambda>st2. insert_into st2 []) (store_empty_buckets st1 k next_range rng)
             else Some (insert_into st1 []))
          else Some (insert_into st seqnos)
      | None \<Rightarrow>
          map_option (\<lambda>st1. insert_into st1 []) (store_empty_buckets st k (get_range_for st 0) rng))"

fun visit_keys :: "tx_id \<Rightarrow> bytes list \<Rightarrow> bucket_index \<Rightarrow> bucket_index option" where
  "visit_keys tx [] st = Some st"
| "visit_keys tx (k # ks) st =
     (case visit_bucket_entry tx k st of None \<Rightarrow> None | Some st' \<Rightarrow> visit_keys tx ks st')"

definition bucket_handle_tx :: "bucket_index \<Rightarrow> committed_tx \<Rightarrow> bucket_index option" where
  "bucket_handle_tx st tx =
     map_option (\<lambda>st'. st'\<lparr>bi_txid := fst tx\<rparr>) (visit_keys (fst tx) (snd tx) st)"

section \<open>Queries\<close>

definition append_bucket_result ::
  "nat \<Rightarrow> nat \<Rightarrow> contiguous_set \<Rightarrow> contiguous_set \<Rightarrow> contiguous_set"
where
  "append_bucket_result from to result seqnos =
     foldl (\<lambda>r n. if from \<le> n \<and> n \<le> to then fst (cs_insert r n) else r) result (cs_elems seqnos)"

definition max_requestable_range :: "bucket_index \<Rightarrow> nat" where
  "max_requestable_range st =
     (sub64 (lru_max_size (old_results st)) 1 * seqnos_per_bucket st) mod two64"

datatype step_result =
  Reindex | Rethrow | Break contiguous_set bool | Next contiguous_set bool

definition reset_index :: "bucket_index \<Rightarrow> bucket_index" where
  "reset_index st =
     st\<lparr>bi_txid := no_txid, old_results := lru_clear (old_results st), current_results := []\<rparr>"

text \<open>One turn of the loop over the buckets of a range.\<close>

definition query_step ::
  "bucket_index \<Rightarrow> bytes \<Rightarrow> nat \<Rightarrow> nat \<Rightarrow> range \<Rightarrow> contiguous_set \<Rightarrow> bool \<Rightarrow> bucket_index \<times> step_result"
where
  "query_step st k from to rng result complete =
     (let use = (\<lambda>seqnos. Next (if complete then append_bucket_result from to result seqnos else result) complete)
      in
      case lru_find (old_results st) (k, rng) of
        Some it \<Rightarrow>
          (case deref (old_results st) it of
             None \<Rightarrow> (st, Rethrow)
           | Some (bk, None, seqnos) \<Rightarrow> (st, use seqnos)
           | Some (bk, Some (nm, fr), seqnos) \<Rightarrow>
               (case fr of
                  Fetching \<Rightarrow> (st, Next result False)
                | Loaded contents \<Rightarrow>
                    (case deserialise contents of
                       ReadThrows \<Rightarrow> (st, Rethrow)
                     | CorruptBlob \<Rightarrow> (reset_index st, Reindex)
                     | Parsed s \<Rightarrow>
                         (st\<lparr>old_results := assign (old_results st) it (None, s)\<rparr>, use s))
                | NotFound \<Rightarrow> (reset_index st, Reindex)
                | Corrupt \<Rightarrow> (reset_index st, Reindex)))
      | None \<Rightarrow>
          (case map_of (current_results st) k of
             None \<Rightarrow> (st, Break result complete)
           | Some (current_range, seqnos) \<Rightarrow>
               if current_range = rng then (st, use seqnos)
               else if fst current_range < fst rng then (st, Break result complete)
               else
                 (st\<lparr>old_results := fst (lru_insert (old_results st) (k, rng)
                     (Some (get_blob_name (bi_name st) (k, rng), Fetching), []))\<rparr>,
                  Next result False)))"

datatype bucket_result = BackwardsRange | RangeTooLarge | NoResult | Result contiguous_set | Uncaught

partial_function (option) query_loop ::
  "bucket_index \<Rightarrow> bytes \<Rightarrow> nat \<Rightarrow> nat \<Rightarrow> range \<Rightarrow> range \<Rightarrow> contiguous_set \<Rightarrow> bool \<Rightarrow>
    (bucket_index \<times> bucket_result) option"
where
  "query_loop st k from to rng to_range result complete =
     (case query_step st k from to rng result complete of
        (st', Reindex) \<Rightarrow> Some (st', NoResult)
      | (st', Rethrow) \<Rightarrow> Some (st', Uncaught)
      | (st', Break r c) \<Rightarrow> Some (st', if c then Result r else NoResult)
      | (st', Next r c) \<Rightarrow>
          if rng = to_range then Some (st', if c then Result r else NoResult)
          else query_loop st' k from to
            (add64 (fst rng) (seqnos_per_bucket st'), add64 (snd rng) (seqnos_per_bucket st')) to_range r c)"

declare query_loop.simps [code]

definition bucket_query ::
  "bucket_index \<Rightarrow> bytes \<Rightarrow> nat \<Rightarrow> nat \<Rightarrow> (bucket_index \<times> bucket_result) option"
where
  "bucket_query st k from to =
     (if to < from then Some (st, BackwardsRange)
      else if tx_seqno (bi_txid st) < to then Some (st, NoResult)
      else if max_requestable_range st < sub64 to from then Some (st, RangeTooLarge)
      else query_loop st k from to (get_range_for st from) (get_range_for st to) [] True)"

section \<open>Fetches\<close>

text \<open>The answer to a fetch: every bucket of the cache that waits for the blob sees it.\<close>

definition lfs_answer :: "bucket_index \<Rightarrow> string \<Rightarrow> fetch_result \<Rightarrow> bucket_index" where
  "lfs_answer st nm fr =
     st\<lparr>old_results := (old_results st)\<lparr>entries_list :=
        map (\<lambda>(n, bk, h, s). (n, bk, if h = Some (nm, Fetching) then Some (nm, fr) else h, s))
          (entries_list (old_results st))\<rparr>\<rparr>"

section \<open>Blobs are parsed back, and have names of their own\<close>

lemma read_seqnos_written:
  assumes "\<forall>x\<in>set xs. x < max64" "cs_inv s"
  shows "\<exists>s'. read_seqnos (length xs) (concat (map (le_bytes 8) xs) @ rest) s = Inr (s', rest) \<and>
    cs_inv s' \<and> cs_set s' = cs_set s \<union> set xs"
  using assms
proof (induction xs arbitrary: s)
  case (Cons x xs)
  have x: "x < 256 ^ 8" using Cons.prems(1) by (simp only: two64_bytes) (auto simp: max64_def)
  have "cs_inv (fst (cs_insert s x)) \<and> cs_set (fst (cs_insert s x)) = insert x (cs_set s)"
    using cs_insert_correct [OF Cons.prems(2), of x] Cons.prems(1) by simp
  then show ?case using Cons.IH [of "fst (cs_insert s x)"] Cons.prems(1) x by (auto simp: append_assoc)
qed simp

lemma deserialise_serialise:
  assumes "cs_inv s" "length (cs_elems s) < 2 ^ 32"
  shows "\<exists>s'. deserialise (serialise s) = Parsed s' \<and> cs_inv s' \<and> cs_set s' = cs_set s"
proof -
  have bounds: "\<forall>x\<in>set (cs_elems s). x < max64"
    using assms(1) by (fastforce simp: cs_set_bounds cs_inv_def)
  have size: "cs_size s = length (cs_elems s)" using cs_size_correct [OF assms(1)] assms(2) by simp
  have "cs_size s < 256 ^ 8" using size assms(2) by simp
  then show ?thesis
    using read_seqnos_written [OF bounds, of "[]" "[]"] size
    by (auto simp: deserialise_def serialise_def)
qed

lemma takeWhile_digits: "\<not> is_digit c \<Longrightarrow> takeWhile is_digit (to_string n @ c # s) = to_string n"
  by (subst takeWhile_append2) (auto dest: to_string_digits)

lemma to_string_inj: "to_string m = to_string n \<longleftrightarrow> m = n"
  by (metis digits_value_to_string)

lemma digits_then:
  assumes "to_string m @ c # s = to_string n @ c # t" "\<not> is_digit c"
  shows "m = n \<and> s = t"
proof -
  have "to_string m = to_string n" using assms takeWhile_digits [OF assms(2)] by metis
  then show ?thesis using assms(1) to_string_inj by simp
qed

lemma blob_name_inj:
  assumes "get_blob_name nm a = get_blob_name nm b"
  shows "a = b"
proof -
  obtain k f e k' f' e' where ab: "a = (k, f, e)" "b = (k', f', e')" by (metis prod.collapse)
  have sp: "\<not> is_digit (CHR '' '')" by (simp add: is_digit_def)
  have 1: "to_string f @ CHR '' '' # ''-> '' @ to_string e @ '' for '' @ to_hex k =
      to_string f' @ CHR '' '' # ''-> '' @ to_string e' @ '' for '' @ to_hex k'"
    using assms ab by (simp add: get_blob_name_def)
  then have 2: "f = f'" "to_string e @ CHR '' '' # ''for '' @ to_hex k =
      to_string e' @ CHR '' '' # ''for '' @ to_hex k'"
    using digits_then [OF 1 sp] by auto
  from digits_then [OF 2(2) sp] have "e = e'" "to_hex k = to_hex k'" by auto
  then show ?thesis using ab 2(1) to_hex_inj by simp
qed

section \<open>Invariant\<close>

text \<open>
  The ledger is the sequence of all committed transactions, numbered from 1, of which the index has
  handled an initial part. A bucket of the ledger is final once a later bucket of the key is begun, so
  that blobs stored before and after the index starts again hold the same elements.
\<close>

definition consecutive :: "committed_tx list \<Rightarrow> bool" where
  "consecutive ledger \<longleftrightarrow> map (\<lambda>tx. tx_seqno (fst tx)) ledger = [1 ..< Suc (length ledger)]"

definition bucket_writes :: "nat list \<Rightarrow> range \<Rightarrow> nat set" where
  "bucket_writes ws rng = {x \<in> set ws. fst rng \<le> x \<and> x < snd rng}"

definition bucket_of :: "nat \<Rightarrow> nat \<Rightarrow> range" where
  "bucket_of p x = (x div p * p, x div p * p + p)"

definition holds_bucket :: "nat list \<Rightarrow> range \<Rightarrow> contiguous_set \<Rightarrow> bool" where
  "holds_bucket ws rng s \<longleftrightarrow> cs_inv s \<and> cs_set s = bucket_writes ws rng"

definition current_ok :: "nat \<Rightarrow> nat list \<Rightarrow> (range \<times> contiguous_set) option \<Rightarrow> bool" where
  "current_ok p ws cur \<longleftrightarrow>
     (case cur of
        None \<Rightarrow> ws = []
      | Some (rng, s) \<Rightarrow> ws \<noteq> [] \<and> rng = bucket_of p (last ws) \<and> holds_bucket ws rng s)"

definition stored_ok :: "committed_tx list \<Rightarrow> bucket_index \<Rightarrow> bool" where
  "stored_ok ledger st \<longleftrightarrow>
     (\<forall>(nm, c)\<in>set (lfs_stored st). \<exists>k i s. nm = get_blob_name (bi_name st) (k, bucket_of (seqnos_per_bucket st) i) \<and>
        c = serialise s \<and> holds_bucket (writes_of ledger k) (bucket_of (seqnos_per_bucket st) i) s)"

definition entry_ok :: "committed_tx list \<Rightarrow> bucket_index \<Rightarrow> bucket_key \<Rightarrow> bucket_value \<Rightarrow> bool" where
  "entry_ok ledger st bk v \<longleftrightarrow>
     (case fst v of
        None \<Rightarrow> holds_bucket (writes_of ledger (fst bk)) (snd bk) (snd v)
      | Some (nm, fr) \<Rightarrow> nm = get_blob_name (bi_name st) bk \<and>
          (\<forall>c. fr = Loaded c \<longrightarrow> (nm, c) \<in> set (lfs_stored st)))"

definition bucket_params_ok :: "committed_tx list \<Rightarrow> nat \<Rightarrow> bool" where
  "bucket_params_ok ledger p \<longleftrightarrow>
     0 < p \<and> p < 2 ^ 32 \<and> consecutive ledger \<and> list_all (\<lambda>tx. distinct (snd tx)) ledger \<and>
     length ledger + 2 * p \<le> max64"

definition bucket_inv :: "committed_tx list \<Rightarrow> bucket_index \<Rightarrow> bool" where
  "bucket_inv ledger st \<longleftrightarrow>
     bucket_params_ok ledger (seqnos_per_bucket st) \<and> tx_seqno (bi_txid st) \<le> length ledger \<and>
     lru_inv (old_results st) \<and> stored_ok ledger st \<and>
     (\<forall>bk v. lru_value (old_results st) bk = Some v \<longrightarrow> entry_ok ledger st bk v) \<and>
     (\<forall>k. current_ok (seqnos_per_bucket st) (writes_of (take (tx_seqno (bi_txid st)) ledger) k)
        (map_of (current_results st) k))"

lemma bucket_of_mem: "0 < p \<Longrightarrow> fst (bucket_of p x) \<le> x \<and> x < snd (bucket_of p x)"
  using dividend_less_div_times [of p x] by (simp add: bucket_of_def add.commute)

lemma bucket_of_eq: "0 < p \<Longrightarrow> fst (bucket_of p x) \<le> y \<Longrightarrow> y < snd (bucket_of p x) \<Longrightarrow> bucket_of p y = bucket_of p x"
  unfolding bucket_of_def fst_conv snd_conv
  by (metis div_nat_eqI mult.commute mult_Suc_right add.commute)

lemma bucket_before:
  assumes "0 < p" "bucket_of p x \<noteq> bucket_of p y" "x \<le> y"
  shows "snd (bucket_of p x) \<le> fst (bucket_of p y)"
proof -
  have "x div p \<le> y div p" using assms(3) by (rule div_le_mono)
  moreover have "x div p \<noteq> y div p" using assms(2) by (auto simp: bucket_of_def)
  ultimately have "Suc (x div p) \<le> y div p" by simp
  then have "Suc (x div p) * p \<le> y div p * p" by (rule mult_le_mono1)
  then show ?thesis by (simp add: bucket_of_def)
qed

lemma get_range_for_eq:
  "x + seqnos_per_bucket st \<le> max64 \<Longrightarrow> get_range_for st x = bucket_of (seqnos_per_bucket st) x"
proof -
  assume a: "x + seqnos_per_bucket st \<le> max64"
  have "x div seqnos_per_bucket st * seqnos_per_bucket st \<le> x" by simp
  then have "x div seqnos_per_bucket st * seqnos_per_bucket st + seqnos_per_bucket st \<le> max64"
    using a by linarith
  then show ?thesis by (simp add: get_range_for_def bucket_of_def Let_def add64_no_wrap)
qed

lemma consecutive_nth: "consecutive ledger \<Longrightarrow> i < length ledger \<Longrightarrow> tx_seqno (fst (ledger ! i)) = Suc i"
proof -
  assume a: "consecutive ledger" "i < length ledger"
  then have "map (\<lambda>tx. tx_seqno (fst tx)) ledger ! i = [1 ..< Suc (length ledger)] ! i"
    by (simp add: consecutive_def)
  then show ?thesis using a(2) by (simp del: upt_Suc)
qed

lemma consecutive_take: "consecutive ledger \<Longrightarrow> consecutive (take n ledger)"
  by (simp add: consecutive_def take_map [symmetric] take_upt min_def del: upt_Suc)

lemma mem_writes_of:
  assumes "consecutive ledger"
  shows "x \<in> set (writes_of ledger k) \<longleftrightarrow> 0 < x \<and> x \<le> length ledger \<and> k \<in> set (snd (ledger ! (x - 1)))"
proof -
  have "x \<in> set (writes_of ledger k) \<longleftrightarrow>
      (\<exists>i < length ledger. x = tx_seqno (fst (ledger ! i)) \<and> k \<in> set (snd (ledger ! i)))"
  proof -
    have "x \<in> set (writes_of ledger k) \<longleftrightarrow> (\<exists>tx\<in>set ledger. x = tx_seqno (fst tx) \<and> k \<in> set (snd tx))"
      by (auto simp: writes_of_def)
    then show ?thesis by (metis in_set_conv_nth nth_mem)
  qed
  also have "\<dots> \<longleftrightarrow> (\<exists>i < length ledger. x = Suc i \<and> k \<in> set (snd (ledger ! i)))"
    using consecutive_nth [OF assms] by auto
  also have "\<dots> \<longleftrightarrow> 0 < x \<and> x \<le> length ledger \<and> k \<in> set (snd (ledger ! (x - 1)))"
    by (cases x) (auto simp: Suc_le_eq)
  finally show ?thesis .
qed

lemma writes_of_take:
  assumes "consecutive ledger"
  shows "set (writes_of (take n ledger) k) = {x \<in> set (writes_of ledger k). x \<le> n}"
  by (auto simp: mem_writes_of [OF assms] mem_writes_of [OF consecutive_take [OF assms]])

lemma sorted_writes_of: "consecutive ledger \<Longrightarrow> sorted_wrt (<) (writes_of ledger k)"
proof -
  assume "consecutive ledger"
  then have "sorted_wrt (<) (map (\<lambda>tx. tx_seqno (fst tx)) ledger)"
    by (simp add: consecutive_def strict_sorted_iff del: upt_Suc)
  then show ?thesis by (simp add: writes_of_def sorted_wrt_map sorted_wrt_filter)
qed

lemma append_result_correct:
  assumes "cs_inv r" "cs_inv s"
  shows "cs_inv (append_bucket_result from to r s) \<and>
    cs_set (append_bucket_result from to r s) = cs_set r \<union> {x \<in> cs_set s. from \<le> x \<and> x \<le> to}"
proof -
  have "foldl (\<lambda>r n. if from \<le> n \<and> n \<le> to then fst (cs_insert r n) else r) r xs =
      foldl (\<lambda>r n. fst (cs_insert r n)) r (filter (\<lambda>n. from \<le> n \<and> n \<le> to) xs)" for xs
    by (induction xs arbitrary: r) auto
  moreover have "\<forall>x\<in>set (filter (\<lambda>n. from \<le> n \<and> n \<le> to) (cs_elems s)). x < max64"
    using assms(2) by (fastforce simp: cs_set_bounds cs_inv_def)
  ultimately show ?thesis
    using cs.fold_ins [OF assms(1)] by (simp add: append_bucket_result_def)
qed

subsection \<open>Queries keep the invariant and collect the writes\<close>

text \<open>The writes of the key in the range that lie below a bound have been collected.\<close>

definition covered :: "nat list \<Rightarrow> nat \<Rightarrow> nat \<Rightarrow> nat \<Rightarrow> contiguous_set \<Rightarrow> bool" where
  "covered ws from to b r \<longleftrightarrow> cs_inv r \<and> cs_set r = {x \<in> set ws. from \<le> x \<and> x \<le> to \<and> x < b}"

lemma covered_append:
  assumes "covered ws from to (fst rng) r" "holds_bucket ws' rng s" "fst rng \<le> snd rng"
    and "\<forall>x \<le> to. x \<in> set ws' \<longleftrightarrow> x \<in> set ws"
  shows "covered ws from to (snd rng) (append_bucket_result from to r s)"
proof -
  have "cs_inv r" "cs_inv s" using assms(1,2) by (simp_all add: covered_def holds_bucket_def)
  from append_result_correct [OF this, of "from" to] show ?thesis
    using assms unfolding covered_def holds_bucket_def bucket_writes_def by auto
qed

lemma covered_whole:
  assumes "to < b" "covered ws from to b r"
  shows "covered ws from to (Suc to) r"
proof -
  have "(from \<le> x \<and> x \<le> to \<and> x < b) = (from \<le> x \<and> x \<le> to \<and> x < Suc to)" for x
    using assms(1) by linarith
  then show ?thesis using assms(2) by (simp only: covered_def)
qed

lemma bucket_inv_agree:
  assumes "bucket_inv ledger st" "to \<le> tx_seqno (bi_txid st)"
  shows "\<forall>x \<le> to. x \<in> set (writes_of (take (tx_seqno (bi_txid st)) ledger) k) \<longleftrightarrow> x \<in> set (writes_of ledger k)"
  using assms writes_of_take [of ledger "tx_seqno (bi_txid st)" k]
  by (auto simp: bucket_inv_def bucket_params_ok_def)

lemma reset_index_inv: "bucket_inv ledger st \<Longrightarrow> bucket_inv ledger (reset_index st)"
  unfolding bucket_inv_def
  by (auto simp: reset_index_def no_txid_def writes_of_def current_ok_def lru_clear_inv lc.clr_value
      stored_ok_def)

lemma old_results_inv:
  assumes "bucket_inv ledger st" "lru_inv old"
    and "\<And>bk v. lru_value old bk = Some v \<Longrightarrow> entry_ok ledger st bk v"
  shows "bucket_inv ledger (st\<lparr>old_results := old\<rparr>)"
proof -
  have "entry_ok ledger (st\<lparr>old_results := old\<rparr>) = entry_ok ledger st"
    "stored_ok ledger (st\<lparr>old_results := old\<rparr>) = stored_ok ledger st"
    by (simp_all add: fun_eq_iff entry_ok_def stored_ok_def split: option.splits)
  then show ?thesis using assms unfolding bucket_inv_def by simp
qed

lemma bucket_inv_entry:
  "bucket_inv ledger st \<Longrightarrow> lru_value (old_results st) bk = Some v \<Longrightarrow> entry_ok ledger st bk v"
  unfolding bucket_inv_def by blast

lemma fetch_inv:
  assumes "bucket_inv ledger st"
  shows "bucket_inv ledger (st\<lparr>old_results := fst (lru_insert (old_results st) (k, rng)
     (Some (get_blob_name (bi_name st) (k, rng), Fetching), []))\<rparr>)"
proof (rule old_results_inv [OF assms])
  have l: "lru_inv (old_results st)" using assms by (simp add: bucket_inv_def)
  then show "lru_inv (fst (lru_insert (old_results st) (k, rng)
     (Some (get_blob_name (bi_name st) (k, rng), Fetching), [])))" by (rule lc.ins_inv)
  show "entry_ok ledger st bk v" if "lru_value (fst (lru_insert (old_results st) (k, rng)
     (Some (get_blob_name (bi_name st) (k, rng), Fetching), []))) bk = Some v" for bk v
    by (rule lc.ins_all [OF l _ _ that])
      (rule bucket_inv_entry [OF assms], assumption, simp add: entry_ok_def)
qed

lemma parsed_inv:
  assumes "bucket_inv ledger st" "lru_find (old_results st) (k, rng) = Some it"
    and "holds_bucket (writes_of ledger k) rng s"
  shows "bucket_inv ledger (st\<lparr>old_results := assign (old_results st) it (None, s)\<rparr>)"
proof (rule old_results_inv [OF assms(1)])
  have l: "lru_inv (old_results st)" using assms(1) by (simp add: bucket_inv_def)
  note a = assign_correct [OF l assms(2), of "(None, s)"]
  then show "lru_inv (assign (old_results st) it (None, s))" by blast
  show "entry_ok ledger st bk v" if "lru_value (assign (old_results st) it (None, s)) bk = Some v" for bk v
  proof (cases "bk = (k, rng)")
    case True
    then have "v = (None, s)" using that a by simp
    then show ?thesis using True assms(3) by (simp add: entry_ok_def)
  next
    case False
    then show ?thesis using that a bucket_inv_entry [OF assms(1)] by simp
  qed
qed

lemma bucket_size:
  assumes "holds_bucket ws (bucket_of p i) s"
  shows "length (cs_elems s) \<le> p"
proof -
  have inv: "cs_inv s" and set: "cs_set s = bucket_writes ws (bucket_of p i)"
    using assms by (simp_all add: holds_bucket_def)
  have "length (cs_elems s) = card (cs_set s)"
    using distinct_card [OF sorted_less_distinct [OF sorted_cs_elems [OF inv]]] by simp
  moreover have "cs_set s \<subseteq> {i div p * p ..< i div p * p + p}"
    unfolding set bucket_writes_def bucket_of_def by auto
  then have "card (cs_set s) \<le> card {i div p * p ..< i div p * p + p}" by (intro card_mono) simp_all
  ultimately show ?thesis by simp
qed

lemma loaded_blob:
  assumes "bucket_inv ledger st" "(get_blob_name (bi_name st) (k, rng), c) \<in> set (lfs_stored st)"
  shows "\<exists>s. deserialise c = Parsed s \<and> holds_bucket (writes_of ledger k) rng s"
proof -
  obtain k' i s where s: "get_blob_name (bi_name st) (k, rng) =
      get_blob_name (bi_name st) (k', bucket_of (seqnos_per_bucket st) i)" "c = serialise s"
      "holds_bucket (writes_of ledger k') (bucket_of (seqnos_per_bucket st) i) s"
    using assms by (auto simp: bucket_inv_def stored_ok_def)
  have "k' = k" "rng = bucket_of (seqnos_per_bucket st) i" using blob_name_inj [OF s(1)] by auto
  moreover have "length (cs_elems s) < 2 ^ 32"
    using bucket_size [OF s(3)] assms(1) by (simp add: bucket_inv_def bucket_params_ok_def)
  ultimately show ?thesis
    using deserialise_serialise [of s] s(2,3) by (auto simp: holds_bucket_def)
qed

text \<open>What a turn of the loop on a bucket guarantees.\<close>

definition step_ok ::
  "committed_tx list \<Rightarrow> bucket_index \<Rightarrow> nat list \<Rightarrow> nat \<Rightarrow> nat \<Rightarrow> range \<Rightarrow> bucket_index \<times> step_result \<Rightarrow> bool"
where
  "step_ok ledger st ws from to rng out \<longleftrightarrow>
     bucket_inv ledger (fst out) \<and> seqnos_per_bucket (fst out) = seqnos_per_bucket st \<and>
     (case snd out of
        Reindex \<Rightarrow> True
      | Rethrow \<Rightarrow> False
      | Break r c \<Rightarrow> c \<longrightarrow> covered ws from to (Suc to) r
      | Next r c \<Rightarrow> bi_txid (fst out) = bi_txid st \<and> (c \<longrightarrow> covered ws from to (snd rng) r))"

lemma query_step_cached:
  assumes inv: "bucket_inv ledger st" and to: "to \<le> tx_seqno (bi_txid st)"
    and rng: "rng = bucket_of (seqnos_per_bucket st) i"
    and res: "complete \<longrightarrow> covered (writes_of ledger k) from to (fst rng) result"
    and it: "lru_find (old_results st) (k, rng) = Some it"
  shows "step_ok ledger st (writes_of ledger k) from to rng (query_step st k from to rng result complete)"
proof -
  have l: "lru_inv (old_results st)" using inv by (simp add: bucket_inv_def)
  have le: "fst rng \<le> snd rng" using rng by (simp add: bucket_of_def)
  have use: "complete \<longrightarrow> covered (writes_of ledger k) from to (snd rng) (append_bucket_result from to result s)"
    if "holds_bucket (writes_of ledger k) rng s" for s
    using covered_append [OF _ that le] res by blast
  obtain h s where v: "deref (old_results st) it = Some ((k, rng), h, s)"
    "lru_value (old_results st) (k, rng) = Some (h, s)"
    using lru_find_correct [OF l, of "(k, rng)"] it by auto
  have e: "entry_ok ledger st (k, rng) (h, s)" using bucket_inv_entry [OF inv v(2)] .
  note q = query_step_def Let_def it v(1) step_ok_def
  show ?thesis
  proof (cases h)
    case None
    then have "holds_bucket (writes_of ledger k) rng s" using e by (simp add: entry_ok_def)
    from use [OF this] show ?thesis using None inv by (simp add: q)
  next
    case (Some nf)
    obtain fr where nf: "nf = (get_blob_name (bi_name st) (k, rng), fr)"
      and ld: "\<And>c. fr = Loaded c \<Longrightarrow> (get_blob_name (bi_name st) (k, rng), c) \<in> set (lfs_stored st)"
      using e Some by (cases nf) (auto simp: entry_ok_def)
    show ?thesis
    proof (cases fr)
      case (Loaded c)
      obtain s' where s': "deserialise c = Parsed s'" "holds_bucket (writes_of ledger k) rng s'"
        using loaded_blob [OF inv ld [OF Loaded]] by blast
      from use [OF this(2)] show ?thesis
        using parsed_inv [OF inv it s'(2)] s'(1) Some nf Loaded by (simp add: q)
    qed (use Some nf inv reset_index_inv [OF inv] in \<open>simp_all add: q, simp_all add: reset_index_def\<close>)
  qed
qed

lemma query_step_uncached:
  assumes inv: "bucket_inv ledger st" and to: "to \<le> tx_seqno (bi_txid st)"
    and rng: "rng = bucket_of (seqnos_per_bucket st) i"
    and res: "complete \<longrightarrow> covered (writes_of ledger k) from to (fst rng) result"
    and it: "lru_find (old_results st) (k, rng) = None"
  shows "step_ok ledger st (writes_of ledger k) from to rng (query_step st k from to rng result complete)"
proof -
  let ?n = "tx_seqno (bi_txid st)" and ?p = "seqnos_per_bucket st"
  let ?ws = "writes_of (take ?n ledger) k"
  have p: "0 < ?p" "consecutive ledger" using inv by (simp_all add: bucket_inv_def bucket_params_ok_def)
  have cur: "current_ok ?p ?ws (map_of (current_results st) k)" using inv by (simp add: bucket_inv_def)
  note agree = bucket_inv_agree [OF inv to, of k]
  have all: "covered (writes_of ledger k) from to (Suc to) result"
    if "complete" "\<forall>x\<in>set ?ws. x < fst rng"
    using that res agree by (auto simp: covered_def)
  note q = query_step_def Let_def it step_ok_def
  show ?thesis
  proof (cases "map_of (current_results st) k")
    case None
    then have "?ws = []" using cur by (simp add: current_ok_def)
    then show ?thesis using None inv all by (simp add: q)
  next
    case (Some cr)
    obtain cr_rng s where cr: "cr = (cr_rng, s)" by fastforce
    have c: "?ws \<noteq> []" "cr_rng = bucket_of ?p (last ?ws)" "holds_bucket ?ws cr_rng s"
      using cur Some cr by (auto simp: current_ok_def)
    show ?thesis
    proof (cases "cr_rng = rng")
      case True
      have "fst rng \<le> snd rng" using rng by (simp add: bucket_of_def)
      then have "complete \<longrightarrow> covered (writes_of ledger k) from to (snd rng) (append_bucket_result from to result s)"
        using covered_append [OF _ c(3) _ agree] res True by blast
      then show ?thesis using Some cr True inv by (simp add: q)
    next
      case False
      show ?thesis
      proof (cases "fst cr_rng < fst rng")
        case True
        have "last ?ws \<le> i"
        proof (rule ccontr)
          assume "\<not> last ?ws \<le> i"
          then have "snd rng \<le> fst cr_rng" using bucket_before [OF p(1), of i "last ?ws"] False c(2) rng by simp
          then show False using True rng by (simp add: bucket_of_def)
        qed
        then have "snd cr_rng \<le> fst rng" using bucket_before [OF p(1)] False c(2) rng by metis
        moreover have "\<forall>x\<in>set ?ws. x < snd cr_rng"
          using c(2) bucket_of_mem [OF p(1)] last_in_set_sorted [OF sorted_writes_of [OF consecutive_take [OF p(2)]]]
          by (metis le_less_trans)
        ultimately have "\<forall>x\<in>set ?ws. x < fst rng" by fastforce
        then show ?thesis using Some cr False True inv all by (simp add: q)
      next
        case False': False
        then show ?thesis using Some cr False fetch_inv [OF inv, of k rng] by (simp add: q)
      qed
    qed
  qed
qed

lemma query_step_correct:
  assumes "bucket_inv ledger st" "to \<le> tx_seqno (bi_txid st)" "rng = bucket_of (seqnos_per_bucket st) i"
    and "complete \<longrightarrow> covered (writes_of ledger k) from to (fst rng) result"
  shows "step_ok ledger st (writes_of ledger k) from to rng (query_step st k from to rng result complete)"
  using query_step_cached [OF assms] query_step_uncached [OF assms]
  by (cases "lru_find (old_results st) (k, rng)") auto

lemma bucket_start: "0 < p \<Longrightarrow> bucket_of p (i * p) = (i * p, i * p + p)"
  by (simp add: bucket_of_def)

definition query_ok :: "committed_tx list \<Rightarrow> nat list \<Rightarrow> nat \<Rightarrow> nat \<Rightarrow> (bucket_index \<times> bucket_result) option \<Rightarrow> bool" where
  "query_ok ledger ws from to out \<longleftrightarrow>
     (\<exists>st' res. out = Some (st', res) \<and> bucket_inv ledger st' \<and>
        (res = NoResult \<or> (\<exists>r. res = Result r \<and> covered ws from to (Suc to) r)))"

lemma query_loop_correct:
  assumes "bucket_inv ledger st" "to \<le> tx_seqno (bi_txid st)" "i \<le> to div seqnos_per_bucket st"
    and "complete \<longrightarrow> covered (writes_of ledger k) from to (i * seqnos_per_bucket st) result"
  shows "query_ok ledger (writes_of ledger k) from to
    (query_loop st k from to (i * seqnos_per_bucket st, i * seqnos_per_bucket st + seqnos_per_bucket st)
      (bucket_of (seqnos_per_bucket st) to) result complete)"
  using assms
proof (induction "to div seqnos_per_bucket st - i" arbitrary: st i result complete)
  case (0 st i result complete)
  let ?p = "seqnos_per_bucket st" and ?ws = "writes_of ledger k"
  let ?rng = "bucket_of ?p to"
  have p: "0 < ?p" using 0 by (simp add: bucket_inv_def bucket_params_ok_def)
  have i: "(i * ?p, i * ?p + ?p) = ?rng" using 0 by (simp add: bucket_of_def)
  have step: "step_ok ledger st ?ws from to ?rng (query_step st k from to ?rng result complete)"
    using query_step_correct [OF "0.prems"(1,2) refl, of complete k "from" to result] "0.prems"(4)
      arg_cong [OF i, of fst] by simp
  obtain st' out where q: "query_step st k from to ?rng result complete = (st', out)" by (rule prod.exhaust)
  have whole: "covered ?ws from to (snd ?rng) r \<Longrightarrow> covered ?ws from to (Suc to) r" for r
    using bucket_of_mem [OF p, of to] by (rule covered_whole [OF conjunct2])
  show ?case
    unfolding i using step q whole
    by (cases out) (auto simp: query_loop.simps [of st k "from" to ?rng] step_ok_def query_ok_def)
next
  case (Suc d st i result complete)
  let ?p = "seqnos_per_bucket st" and ?ws = "writes_of ledger k"
  let ?rng = "(i * ?p, i * ?p + ?p)"
  have p: "0 < ?p" "length ledger + 2 * ?p \<le> max64" "tx_seqno (bi_txid st) \<le> length ledger"
    using Suc.prems(1) by (simp_all add: bucket_inv_def bucket_params_ok_def)
  have step: "step_ok ledger st ?ws from to ?rng (query_step st k from to ?rng result complete)"
    using query_step_correct [OF Suc.prems(1,2) bucket_start [OF p(1), of i, symmetric]] Suc.prems(4) by simp
  obtain st' out where q: "query_step st k from to ?rng result complete = (st', out)" by (rule prod.exhaust)
  have lt: "Suc i \<le> to div ?p" using Suc.hyps(2) by linarith
  then have "Suc i * ?p \<le> to div ?p * ?p" by (rule mult_le_mono1)
  also have "\<dots> \<le> to" by (rule div_times_less_eq_dividend)
  finally have le: "i * ?p + ?p \<le> to" by (simp add: add.commute)
  have ne: "?rng \<noteq> bucket_of ?p to" using lt p(1) by (simp add: bucket_of_def)
  have bounds: "i * ?p + ?p + ?p \<le> max64" using le Suc.prems(2) p(2,3) by linarith
  have nxt: "add64 (i * ?p) ?p = Suc i * ?p" "add64 (i * ?p + ?p) ?p = Suc i * ?p + ?p"
    using bounds by (simp_all add: u64_simps)
  note unf = query_loop.simps [of st k "from" to ?rng]
  show ?case
  proof (cases out)
    case (Next r c)
    have s: "bucket_inv ledger st'" "seqnos_per_bucket st' = ?p" "bi_txid st' = bi_txid st"
      "c \<longrightarrow> covered ?ws from to (Suc i * ?p) r"
      using step Next q by (auto simp: step_ok_def add.commute)
    have "query_ok ledger ?ws from to
        (query_loop st' k from to (Suc i * ?p, Suc i * ?p + ?p) (bucket_of ?p to) r c)"
      using Suc.hyps(1) [of st' "Suc i" c r] Suc.hyps(2) Suc.prems(2) s lt by simp
    then show ?thesis using q Next ne nxt s(2) by (simp add: unf)
  next
    case (Break r c)
    then show ?thesis using step q by (auto simp: unf step_ok_def query_ok_def)
  qed (use step q in \<open>auto simp: unf step_ok_def query_ok_def\<close>)
qed

lemma bucket_query_correct:
  assumes inv: "bucket_inv ledger st"
  shows "\<exists>st' out. bucket_query st k from to = Some (st', out) \<and> bucket_inv ledger st' \<and>
    (case out of
       Result r \<Rightarrow> from \<le> to \<and> to \<le> tx_seqno (bi_txid st) \<and> cs_inv r \<and>
         cs_set r = {x \<in> set (writes_of ledger k). from \<le> x \<and> x \<le> to}
     | BackwardsRange \<Rightarrow> to < from
     | Uncaught \<Rightarrow> False
     | _ \<Rightarrow> from \<le> to)"
proof (cases "to < from \<or> tx_seqno (bi_txid st) < to \<or> max_requestable_range st < sub64 to from")
  case True
  then show ?thesis using inv by (auto simp: bucket_query_def)
next
  case False
  let ?p = "seqnos_per_bucket st"
  have p: "0 < ?p" "length ledger + 2 * ?p \<le> max64" "tx_seqno (bi_txid st) \<le> length ledger"
    using inv by (simp_all add: bucket_inv_def bucket_params_ok_def)
  have rngs: "get_range_for st from = bucket_of ?p from" "get_range_for st to = bucket_of ?p to"
    using False p by (simp_all add: get_range_for_eq)
  have "\<not> x < from div ?p * ?p" if "from \<le> x" for x
    using that div_times_less_eq_dividend [of "from" ?p] by linarith
  then have none: "covered (writes_of ledger k) from to (from div ?p * ?p) []"
    by (auto simp: covered_def)
  have "query_ok ledger (writes_of ledger k) from to
      (query_loop st k from to (bucket_of ?p from) (bucket_of ?p to) [] True)"
    using query_loop_correct [OF inv, of to "from div ?p" True k "from" "[]"] none False
    by (simp add: bucket_of_def div_le_mono)
  then show ?thesis
    using False rngs by (auto simp: bucket_query_def query_ok_def covered_def less_Suc_eq_le)
qed

subsection \<open>Transactions keep the invariant\<close>

definition core_inv :: "committed_tx list \<Rightarrow> bucket_index \<Rightarrow> bool" where
  "core_inv ledger st \<longleftrightarrow>
     bucket_params_ok ledger (seqnos_per_bucket st) \<and> lru_inv (old_results st) \<and> stored_ok ledger st \<and>
     (\<forall>bk v. lru_value (old_results st) bk = Some v \<longrightarrow> entry_ok ledger st bk v)"

lemma bucket_inv_core:
  "bucket_inv ledger st \<longleftrightarrow> core_inv ledger st \<and> tx_seqno (bi_txid st) \<le> length ledger \<and>
     (\<forall>k. current_ok (seqnos_per_bucket st) (writes_of (take (tx_seqno (bi_txid st)) ledger) k)
        (map_of (current_results st) k))"
  by (auto simp: bucket_inv_def core_inv_def)

lemma entry_ok_more:
  "entry_ok ledger st bk v \<Longrightarrow> entry_ok ledger (st\<lparr>lfs_stored := lfs_stored st @ bs\<rparr>) bk v"
  by (auto simp: entry_ok_def split: option.splits)

lemma store_blobs_inv:
  assumes "core_inv ledger st"
    and "\<forall>(i, s)\<in>set bs. holds_bucket (writes_of ledger k) (bucket_of (seqnos_per_bucket st) i) s"
  shows "core_inv ledger (st\<lparr>lfs_stored := lfs_stored st @
    map (\<lambda>(i, s). (get_blob_name (bi_name st) (k, bucket_of (seqnos_per_bucket st) i), serialise s)) bs\<rparr>)"
proof -
  let ?st = "st\<lparr>lfs_stored := lfs_stored st @
    map (\<lambda>(i, s). (get_blob_name (bi_name st) (k, bucket_of (seqnos_per_bucket st) i), serialise s)) bs\<rparr>"
  have "stored_ok ledger ?st" using assms by (fastforce simp: core_inv_def stored_ok_def)
  moreover have "entry_ok ledger ?st bk v" if "lru_value (old_results st) bk = Some v" for bk v
    using assms(1) that unfolding core_inv_def by (intro entry_ok_more) blast
  ultimately show ?thesis using assms(1) unfolding core_inv_def by simp
qed

lemma store_empty_eq:
  assumes "0 < seqnos_per_bucket st" "i \<le> j" "j * seqnos_per_bucket st + seqnos_per_bucket st \<le> max64"
  shows "store_empty_buckets st k (bucket_of (seqnos_per_bucket st) (i * seqnos_per_bucket st))
      (bucket_of (seqnos_per_bucket st) (j * seqnos_per_bucket st)) =
    Some (st\<lparr>lfs_stored := lfs_stored st @ map (\<lambda>(i, s).
      (get_blob_name (bi_name st) (k, bucket_of (seqnos_per_bucket st) i), serialise s))
        (map (\<lambda>m. (m * seqnos_per_bucket st, [])) [i ..< j])\<rparr>)"
  using assms
proof (induction "j - i" arbitrary: i st)
  case 0
  then show ?case by (simp add: store_empty_buckets.simps)
next
  case (Suc d i st)
  let ?p = "seqnos_per_bucket st" and ?b = "\<lambda>i. bucket_of (seqnos_per_bucket st) (i * seqnos_per_bucket st)"
  have lt: "i < j" using Suc.hyps(2) by simp
  then have ne: "?b i \<noteq> ?b j" using Suc.prems(1) by (simp add: bucket_start)
  have "Suc i * ?p \<le> j * ?p" using lt by (intro mult_le_mono1) simp
  then have "Suc i * ?p + ?p \<le> max64" using Suc.prems(3) by linarith
  then have nxt: "get_range_for st (snd (?b i)) = ?b (Suc i)"
    using Suc.prems(1) by (simp add: bucket_start get_range_for_eq add.commute)
  have "[i ..< j] = i # [Suc i ..< j]" using lt by (rule upt_conv_Cons)
  then show ?case
    using Suc.hyps(1) [of "Suc i" "store_to_disk st k (?b i) []"] Suc.hyps(2) Suc.prems lt ne nxt
    by (simp add: store_empty_buckets.simps [of st k "?b i"] store_to_disk_def)
qed

text \<open>
  A write of the key at \<open>x\<close>, when the current bucket reflects all earlier writes of the key.
\<close>

lemma no_writes_between:
  assumes "0 < p" "i \<in> {m. j \<le> m \<and> m < x div p}"
    and "\<And>y. y \<in> set W \<Longrightarrow> y < x \<Longrightarrow> y < j * p"
  shows "holds_bucket W (bucket_of p (i * p)) []"
proof -
  have "i * p + p \<le> x div p * p" using assms(2) mult_le_mono1 [of "Suc i" "x div p" p] by simp
  also have "\<dots> \<le> x" by (rule div_times_less_eq_dividend)
  finally have le: "i * p + p \<le> x" .
  have "j * p \<le> i * p" using assms(2) by simp
  then have "\<not> (i * p \<le> y \<and> y < i * p + p)" if "y \<in> set W" for y
    using assms(3) [OF that] le by linarith
  then show ?thesis using assms(1) by (auto simp: holds_bucket_def bucket_writes_def bucket_start)
qed

lemma insert_holds:
  assumes "holds_bucket ws rng s" "x < max64" "fst rng \<le> x" "x < snd rng"
  shows "holds_bucket (ws @ [x]) rng (fst (cs_insert s x))"
  using cs_insert_correct [of s x] assms by (auto simp: holds_bucket_def bucket_writes_def)

definition written_before :: "nat list \<Rightarrow> nat \<Rightarrow> nat list \<Rightarrow> bool" where
  "written_before W x ws \<longleftrightarrow> x \<in> set W \<and> sorted_wrt (<) ws \<and> set ws = {y \<in> set W. y < x}"

definition with_blobs :: "bucket_index \<Rightarrow> bytes \<Rightarrow> (nat \<times> contiguous_set) list \<Rightarrow> bucket_index" where
  "with_blobs st k bs = st\<lparr>lfs_stored := lfs_stored st @
    map (\<lambda>(i, s). (get_blob_name (bi_name st) (k, bucket_of (seqnos_per_bucket st) i), serialise s)) bs\<rparr>"

definition empty_blobs :: "nat \<Rightarrow> nat \<Rightarrow> nat \<Rightarrow> (nat \<times> contiguous_set) list" where
  "empty_blobs p i j = map (\<lambda>m. (m * p, [])) [i ..< j]"

lemma with_blobs_append: "with_blobs (with_blobs st k as) k bs = with_blobs st k (as @ bs)"
  by (simp add: with_blobs_def)

lemma bucket_of_start: "bucket_of p (x div p * p) = bucket_of p x"
  by (cases "p = 0") (simp_all add: bucket_of_def)

lemma store_empty_with:
  assumes "0 < seqnos_per_bucket st" "i \<le> x div seqnos_per_bucket st" "x + seqnos_per_bucket st \<le> max64"
  shows "store_empty_buckets st k (bucket_of (seqnos_per_bucket st) (i * seqnos_per_bucket st))
      (bucket_of (seqnos_per_bucket st) x) =
    Some (with_blobs st k (empty_blobs (seqnos_per_bucket st) i (x div seqnos_per_bucket st)))"
proof -
  have "x div seqnos_per_bucket st * seqnos_per_bucket st \<le> x" by (rule div_times_less_eq_dividend)
  then have "x div seqnos_per_bucket st * seqnos_per_bucket st + seqnos_per_bucket st \<le> max64"
    using assms(3) by linarith
  from store_empty_eq [OF assms(1,2) this, of k] show ?thesis
    by (simp add: bucket_of_start with_blobs_def empty_blobs_def)
qed

lemma visit_effect:
  assumes core: "core_inv ledger st" and x: "x + 2 * seqnos_per_bucket st \<le> max64"
    and bs: "\<forall>(i, s)\<in>set bs. holds_bucket (writes_of ledger k) (bucket_of (seqnos_per_bucket st) i) s"
    and s: "holds_bucket ws (bucket_of (seqnos_per_bucket st) x) s"
    and cr: "cr = (bucket_of (seqnos_per_bucket st) x, fst (cs_insert s x))"
  defines "st' \<equiv> (with_blobs st k bs)\<lparr>current_results := AList.update k cr (current_results st)\<rparr>"
  shows "core_inv ledger st' \<and> map_of (current_results st') = (map_of (current_results st))(k \<mapsto> cr) \<and>
    current_ok (seqnos_per_bucket st) (ws @ [x]) (Some cr) \<and>
    seqnos_per_bucket st' = seqnos_per_bucket st \<and> bi_txid st' = bi_txid st"
proof -
  have p: "0 < seqnos_per_bucket st" using core by (simp add: core_inv_def bucket_params_ok_def)
  have "core_inv ledger (with_blobs st k bs)"
    unfolding with_blobs_def by (rule store_blobs_inv [OF core bs])
  moreover have "core_inv ledger (s\<lparr>current_results := c\<rparr>) = core_inv ledger s" for s c
    by (simp add: core_inv_def stored_ok_def entry_ok_def cong: option.case_cong)
  moreover have "holds_bucket (ws @ [x]) (bucket_of (seqnos_per_bucket st) x) (fst (cs_insert s x))"
    using insert_holds [OF s] bucket_of_mem [OF p, of x] x p by simp
  ultimately show ?thesis using cr by (simp add: st'_def current_ok_def with_blobs_def)
qed

lemma written_last:
  assumes "written_before W x ws" "ws \<noteq> []"
  shows "last ws < x" "\<And>y. y \<in> set W \<Longrightarrow> y < x \<Longrightarrow> y \<le> last ws"
proof -
  have "last ws \<in> set ws" using assms(2) by simp
  then show "last ws < x" using assms(1) by (simp add: written_before_def)
  show "y \<le> last ws" if "y \<in> set W" "y < x" for y
    using last_in_set_sorted [of ws y] assms(1) that by (simp add: written_before_def)
qed

lemma visit_next_bucket:
  assumes core: "core_inv ledger st" and ws: "written_before (writes_of ledger k) x ws" "ws \<noteq> []"
    and ne: "bucket_of (seqnos_per_bucket st) x \<noteq> bucket_of (seqnos_per_bucket st) (last ws)"
    and s: "holds_bucket ws (bucket_of (seqnos_per_bucket st) (last ws)) s"
  defines "bs \<equiv> (last ws, s) # empty_blobs (seqnos_per_bucket st)
    (Suc (last ws div seqnos_per_bucket st)) (x div seqnos_per_bucket st)"
  shows "(\<forall>(i, s)\<in>set bs. holds_bucket (writes_of ledger k) (bucket_of (seqnos_per_bucket st) i) s) \<and>
    holds_bucket ws (bucket_of (seqnos_per_bucket st) x) []"
proof -
  let ?p = "seqnos_per_bucket st" and ?W = "writes_of ledger k" and ?l = "last ws"
  have p: "0 < ?p" using core by (simp add: core_inv_def bucket_params_ok_def)
  note l = written_last [OF ws]
  have bef: "snd (bucket_of ?p ?l) \<le> fst (bucket_of ?p x)"
    using bucket_before [OF p, of ?l x] ne l(1) by simp
  have memx: "fst (bucket_of ?p x) \<le> x" and meml: "?l < snd (bucket_of ?p ?l)"
    using bucket_of_mem [OF p] by blast+
  have "\<And>y. y \<in> set ?W \<Longrightarrow> y < x \<Longrightarrow> y < Suc (?l div ?p) * ?p"
    using l(2) meml by (fastforce simp: bucket_of_def)
  from no_writes_between [OF p _ this] have "holds_bucket ?W (bucket_of ?p (m * ?p)) []"
    if "Suc (?l div ?p) \<le> m" "m < x div ?p" for m using that by simp
  moreover have set: "set ws = {y \<in> set ?W. y < x}" using ws(1) by (simp add: written_before_def)
  have "y < x" if "y < snd (bucket_of ?p ?l)" for y using that bef memx by linarith
  then have "bucket_writes ?W (bucket_of ?p ?l) = bucket_writes ws (bucket_of ?p ?l)"
    unfolding bucket_writes_def set by blast
  then have "holds_bucket ?W (bucket_of ?p ?l) s" using s by (simp add: holds_bucket_def)
  moreover have "\<not> fst (bucket_of ?p x) \<le> y" if "y \<in> set ws" for y
    using that l(2) [of y] bef meml unfolding set by simp
  then have "bucket_writes ws (bucket_of ?p x) = {}" unfolding bucket_writes_def by blast
  ultimately show ?thesis by (auto simp: bs_def empty_blobs_def holds_bucket_def)
qed

lemma visit_later:
  fixes k :: bytes and s :: contiguous_set
  assumes p: "0 < seqnos_per_bucket st" and x: "x + 2 * seqnos_per_bucket st \<le> max64"
    and l: "l < x" "bucket_of (seqnos_per_bucket st) x \<noteq> bucket_of (seqnos_per_bucket st) l"
  defines "es \<equiv> empty_blobs (seqnos_per_bucket st) (Suc (l div seqnos_per_bucket st)) (x div seqnos_per_bucket st)"
    and "nx \<equiv> get_range_for st (snd (bucket_of (seqnos_per_bucket st) l))"
    and "st1 \<equiv> store_to_disk st k (bucket_of (seqnos_per_bucket st) l) s"
  shows "(if nx \<noteq> bucket_of (seqnos_per_bucket st) x
      then store_empty_buckets st1 k nx (bucket_of (seqnos_per_bucket st) x) else Some st1) =
    Some (with_blobs st k ((l, s) # es))"
proof -
  let ?p = "seqnos_per_bucket st"
  have st1: "st1 = with_blobs st k [(l, s)]" "seqnos_per_bucket st1 = ?p"
    by (simp_all add: st1_def store_to_disk_def with_blobs_def)
  have "l div ?p \<le> x div ?p" "l div ?p \<noteq> x div ?p"
    using l by (auto simp: div_le_mono bucket_of_def)
  then have lt: "Suc (l div ?p) \<le> x div ?p" by simp
  have le: "Suc (l div ?p) * ?p \<le> x"
    using mult_le_mono1 [OF lt, of ?p] div_times_less_eq_dividend [of x ?p] by linarith
  then have nx: "nx = bucket_of ?p (Suc (l div ?p) * ?p)"
    unfolding nx_def using x by (subst get_range_for_eq) (auto simp: bucket_of_def add.commute)
  show ?thesis
  proof (cases "nx = bucket_of ?p x")
    case True
    then have "Suc (l div ?p) * ?p = x div ?p * ?p"
      using nx bucket_start [OF p, of "Suc (l div ?p)"] by (simp only: bucket_of_def prod.inject)
    then have "x div ?p = Suc (l div ?p)" using p by (metis mult_cancel2 not_gr0)
    then show ?thesis using True st1 by (simp add: es_def empty_blobs_def)
  next
    case False
    then show ?thesis
      using store_empty_with [of st1 "Suc (l div ?p)" x k] st1 lt x p nx
      by (simp add: with_blobs_append es_def)
  qed
qed

lemma visit_eq:
  assumes core: "core_inv ledger st" and x: "tx_seqno tx + 2 * seqnos_per_bucket st \<le> max64"
    and cur: "current_ok (seqnos_per_bucket st) ws (map_of (current_results st) k)"
    and ws: "written_before (writes_of ledger k) (tx_seqno tx) ws"
  shows "\<exists>bs s. visit_bucket_entry tx k st = Some ((with_blobs st k bs)\<lparr>current_results :=
      AList.update k (bucket_of (seqnos_per_bucket st) (tx_seqno tx), fst (cs_insert s (tx_seqno tx)))
        (current_results st)\<rparr>) \<and>
    (\<forall>(i, s)\<in>set bs. holds_bucket (writes_of ledger k) (bucket_of (seqnos_per_bucket st) i) s) \<and>
    holds_bucket ws (bucket_of (seqnos_per_bucket st) (tx_seqno tx)) s"
proof -
  let ?p = "seqnos_per_bucket st" and ?x = "tx_seqno tx" and ?W = "writes_of ledger k"
  have p: "0 < ?p" using core by (simp add: core_inv_def bucket_params_ok_def)
  have rng: "get_range_for st ?x = bucket_of ?p ?x" using x by (simp add: get_range_for_eq)
  note v = visit_bucket_entry_def Let_def rng
  show ?thesis
  proof (cases "map_of (current_results st) k")
    case None
    then have ws0: "ws = []" using cur by (simp add: current_ok_def)
    let ?bs = "empty_blobs ?p 0 (?x div ?p)"
    have "holds_bucket ?W (bucket_of ?p (m * ?p)) []" if "m < ?x div ?p" for m
      using no_writes_between [OF p, of m 0 ?x ?W] that ws ws0 by (auto simp: written_before_def)
    then have "\<forall>(i, s)\<in>set ?bs. holds_bucket ?W (bucket_of ?p i) s" by (auto simp: empty_blobs_def)
    moreover have "holds_bucket ws (bucket_of ?p ?x) []" by (simp add: ws0 holds_bucket_def bucket_writes_def)
    moreover have "store_empty_buckets st k (get_range_for st 0) (bucket_of ?p ?x) = Some (with_blobs st k ?bs)"
      using store_empty_with [OF p, of 0 ?x k] x p by (simp add: get_range_for_eq)
    then have "visit_bucket_entry tx k st = Some ((with_blobs st k ?bs)\<lparr>current_results :=
        AList.update k (bucket_of ?p ?x, fst (cs_insert [] ?x)) (current_results st)\<rparr>)"
      using None by (simp add: v with_blobs_def)
    ultimately show ?thesis by blast
  next
    case (Some cr)
    obtain rng0 s where cr: "cr = (rng0, s)" by (rule prod.exhaust)
    have c: "ws \<noteq> []" "rng0 = bucket_of ?p (last ws)" "holds_bucket ws rng0 s"
      using cur Some cr by (auto simp: current_ok_def)
    show ?thesis
    proof (cases "bucket_of ?p ?x = rng0")
      case True
      then have "visit_bucket_entry tx k st = Some ((with_blobs st k [])\<lparr>current_results :=
          AList.update k (bucket_of ?p ?x, fst (cs_insert s ?x)) (current_results st)\<rparr>)"
        using Some cr by (simp add: v with_blobs_def)
      moreover have "\<forall>(i, s)\<in>set []. holds_bucket ?W (bucket_of ?p i) s" by simp
      ultimately show ?thesis using c(3) True by blast
    next
      case False
      let ?bs = "(last ws, s) # empty_blobs ?p (Suc (last ws div ?p)) (?x div ?p)"
      note later = visit_later [OF p x written_last(1) [OF ws c(1)] False [unfolded c(2)], of k s]
      have "visit_bucket_entry tx k st = map_option (\<lambda>st2. st2\<lparr>current_results :=
          AList.update k (bucket_of ?p ?x, fst (cs_insert [] ?x)) (current_results st2)\<rparr>)
        (if get_range_for st (snd rng0) \<noteq> bucket_of ?p ?x
         then store_empty_buckets (store_to_disk st k rng0 s) k (get_range_for st (snd rng0)) (bucket_of ?p ?x)
         else Some (store_to_disk st k rng0 s))"
        using Some cr False by (simp add: v)
      then have "visit_bucket_entry tx k st = Some ((with_blobs st k ?bs)\<lparr>current_results :=
          AList.update k (bucket_of ?p ?x, fst (cs_insert [] ?x)) (current_results st)\<rparr>)"
        unfolding c(2) later by (simp add: with_blobs_def)
      moreover note visit_next_bucket [OF core ws c(1) False [unfolded c(2)] c(3) [unfolded c(2)]]
      ultimately show ?thesis by blast
    qed
  qed
qed

lemma visit_bucket_entry_correct:
  assumes "core_inv ledger st" "tx_seqno tx + 2 * seqnos_per_bucket st \<le> max64"
    and "current_ok (seqnos_per_bucket st) ws (map_of (current_results st) k)"
    and "written_before (writes_of ledger k) (tx_seqno tx) ws"
  shows "\<exists>st' cr. visit_bucket_entry tx k st = Some st' \<and> core_inv ledger st' \<and>
    map_of (current_results st') = (map_of (current_results st))(k \<mapsto> cr) \<and>
    current_ok (seqnos_per_bucket st) (ws @ [tx_seqno tx]) (Some cr) \<and>
    seqnos_per_bucket st' = seqnos_per_bucket st \<and> bi_txid st' = bi_txid st"
  using visit_eq [OF assms] visit_effect [OF assms(1,2) _ _ refl, of _ k ws] by blast

lemma visit_keys_correct:
  assumes "core_inv ledger st" "tx_seqno tx + 2 * seqnos_per_bucket st \<le> max64" "distinct ks"
    and "\<And>k. current_ok (seqnos_per_bucket st) (ws k) (map_of (current_results st) k)"
    and "\<And>k. k \<in> set ks \<Longrightarrow> written_before (writes_of ledger k) (tx_seqno tx) (ws k)"
  shows "\<exists>st'. visit_keys tx ks st = Some st' \<and> core_inv ledger st' \<and>
    seqnos_per_bucket st' = seqnos_per_bucket st \<and>
    (\<forall>k. current_ok (seqnos_per_bucket st) (if k \<in> set ks then ws k @ [tx_seqno tx] else ws k)
      (map_of (current_results st') k))"
  using assms
proof (induction ks arbitrary: st ws)
  case (Cons k ks)
  have "written_before (writes_of ledger k) (tx_seqno tx) (ws k)" using Cons.prems(5) by simp
  from visit_bucket_entry_correct [OF Cons.prems(1,2,4) this] obtain st' cr where
    st': "visit_bucket_entry tx k st = Some st'" "core_inv ledger st'"
      "map_of (current_results st') = (map_of (current_results st))(k \<mapsto> cr)"
      "current_ok (seqnos_per_bucket st) (ws k @ [tx_seqno tx]) (Some cr)"
      "seqnos_per_bucket st' = seqnos_per_bucket st" by blast
  let ?ws = "ws(k := ws k @ [tx_seqno tx])"
  have "\<exists>st''. visit_keys tx ks st' = Some st'' \<and> core_inv ledger st'' \<and>
      seqnos_per_bucket st'' = seqnos_per_bucket st' \<and>
      (\<forall>j. current_ok (seqnos_per_bucket st') (if j \<in> set ks then ?ws j @ [tx_seqno tx] else ?ws j)
        (map_of (current_results st'') j))"
  proof (rule Cons.IH)
    show "current_ok (seqnos_per_bucket st') (?ws j) (map_of (current_results st') j)" for j
      using st' Cons.prems(4) by simp
    show "written_before (writes_of ledger j) (tx_seqno tx) (?ws j)" if "j \<in> set ks" for j
      using that Cons.prems(3,5) by auto
  qed (use st' Cons.prems in auto)
  then obtain st'' where st'': "visit_keys tx ks st' = Some st''" "core_inv ledger st''"
      "seqnos_per_bucket st'' = seqnos_per_bucket st'"
      "\<And>j. current_ok (seqnos_per_bucket st') (if j \<in> set ks then ?ws j @ [tx_seqno tx] else ?ws j)
        (map_of (current_results st'') j)" by blast
  have "current_ok (seqnos_per_bucket st) (if j \<in> set (k # ks) then ws j @ [tx_seqno tx] else ws j)
      (map_of (current_results st'') j)" for j
    using st''(4) [of j] st'(5) Cons.prems(3) by (auto split: if_splits)
  then show ?case using st' st'' by simp
qed simp

lemma writes_of_Suc:
  assumes "n < length ledger" "consecutive ledger"
  shows "writes_of (take (Suc n) ledger) k =
    writes_of (take n ledger) k @ (if k \<in> set (snd (ledger ! n)) then [Suc n] else [])"
  using assms consecutive_nth [OF assms(2,1)] by (simp add: take_Suc_conv_app_nth writes_of_def)

lemma bucket_handle_correct:
  assumes inv: "bucket_inv ledger st" and n: "tx_seqno (bi_txid st) < length ledger"
  shows "\<exists>st'. bucket_handle_tx st (ledger ! tx_seqno (bi_txid st)) = Some st' \<and> bucket_inv ledger st' \<and>
    tx_seqno (bi_txid st') = Suc (tx_seqno (bi_txid st))"
proof -
  let ?n = "tx_seqno (bi_txid st)" and ?p = "seqnos_per_bucket st"
  obtain tx ks where tx: "ledger ! ?n = (tx, ks)" by (rule prod.exhaust)
  have p: "bucket_params_ok ledger ?p" "core_inv ledger st"
    and cur: "\<And>k. current_ok ?p (writes_of (take ?n ledger) k) (map_of (current_results st) k)"
    using inv unfolding bucket_inv_core by (simp_all add: core_inv_def)
  have c: "consecutive ledger" "length ledger + 2 * ?p \<le> max64" "distinct ks"
    using p(1) n tx by (auto simp: bucket_params_ok_def list_all_length)
  have seq: "tx_seqno tx = Suc ?n" using consecutive_nth [OF c(1) n] tx by simp
  have wb: "written_before (writes_of ledger k) (tx_seqno tx) (writes_of (take ?n ledger) k)"
    if "k \<in> set ks" for k
    using that n tx seq mem_writes_of [OF c(1), of "Suc ?n" k] writes_of_take [OF c(1), of ?n k]
      sorted_writes_of [OF consecutive_take [OF c(1)]]
    by (auto simp: written_before_def)
  have "tx_seqno tx + 2 * ?p \<le> max64" using seq n c(2) by linarith
  from visit_keys_correct [OF p(2) this c(3) cur wb] obtain st' where
    st': "visit_keys tx ks st = Some st'" "core_inv ledger st'" "seqnos_per_bucket st' = ?p"
      "\<And>k. current_ok ?p (if k \<in> set ks then writes_of (take ?n ledger) k @ [tx_seqno tx]
         else writes_of (take ?n ledger) k) (map_of (current_results st') k)" by blast
  have "current_ok ?p (writes_of (take (Suc ?n) ledger) k) (map_of (current_results st') k)" for k
    using st'(4) [of k] writes_of_Suc [OF n c(1), of k] tx seq by (simp split: if_splits)
  moreover have "core_inv ledger (st'\<lparr>bi_txid := tx\<rparr>)"
    using st'(2) by (simp add: core_inv_def stored_ok_def entry_ok_def cong: option.case_cong)
  ultimately show ?thesis
    using st' tx seq n by (simp add: bucket_handle_tx_def bucket_inv_core)
qed

subsection \<open>Answers keep the invariant\<close>

lemma lfs_answer_inv:
  assumes "bucket_inv ledger st" "\<forall>c. fr = Loaded c \<longrightarrow> (nm, c) \<in> set (lfs_stored st)"
  shows "bucket_inv ledger (lfs_answer st nm fr)"
proof -
  define f :: "bucket_value \<Rightarrow> bucket_value" where
    "f = (\<lambda>(h, s). (if h = Some (nm, Fetching) then Some (nm, fr) else h, s))"
  let ?old = "(old_results st)\<lparr>entries_list := map (\<lambda>(n, k, v). (n, k, f v)) (entries_list (old_results st))\<rparr>"
  have l: "lru_inv (old_results st)" using assms(1) by (simp add: bucket_inv_def)
  have "lfs_answer st nm fr = st\<lparr>old_results := ?old\<rparr>"
    by (simp add: lfs_answer_def f_def case_prod_beta)
  moreover have "bucket_inv ledger (st\<lparr>old_results := ?old\<rparr>)"
  proof (rule old_results_inv [OF assms(1)])
    show "lru_inv ?old" using map_values_correct [OF l, of f] by blast
    show "entry_ok ledger st bk v" if v: "lru_value ?old bk = Some v" for bk v
    proof -
      obtain u where u: "lru_value (old_results st) bk = Some u" "v = f u"
        using v map_values_correct [OF l, of f bk] by auto
      then show ?thesis
        using bucket_inv_entry [OF assms(1) u(1)] assms(2)
        by (cases u) (auto simp: f_def entry_ok_def split: if_splits option.splits)
    qed
  qed
  ultimately show ?thesis by simp
qed

section \<open>Runs\<close>

text \<open>
  The index is given the transactions of the ledger in order, is queried, and receives answers to its
  fetches. The host may withhold a blob or fail to produce it, at any time; a blob that is loaded is one
  that was stored under that name, not necessarily the last one.
\<close>

inductive bucket_step :: "committed_tx list \<Rightarrow> bucket_index \<Rightarrow> bucket_index \<Rightarrow> bool" for ledger where
  step_tx: "tx_seqno (bi_txid st) < length ledger \<Longrightarrow>
    bucket_handle_tx st (ledger ! tx_seqno (bi_txid st)) = Some st' \<Longrightarrow> bucket_step ledger st st'"
| step_query: "bucket_query st k from to = Some (st', out) \<Longrightarrow> bucket_step ledger st st'"
| step_answer: "\<forall>c. fr = Loaded c \<longrightarrow> (nm, c) \<in> set (lfs_stored st) \<Longrightarrow>
    bucket_step ledger st (lfs_answer st nm fr)"

lemma bucket_step_inv: "bucket_step ledger st st' \<Longrightarrow> bucket_inv ledger st \<Longrightarrow> bucket_inv ledger st'"
proof (induction rule: bucket_step.induct)
  case (step_tx st st')
  then show ?case using bucket_handle_correct [of ledger st] by auto
next
  case (step_query st k "from" to st' out)
  then show ?case using bucket_query_correct [of ledger st k "from" to] by auto
next
  case (step_answer fr nm st)
  then show ?case by (intro lfs_answer_inv)
qed

lemma new_bucket_inv: "bucket_params_ok ledger p \<Longrightarrow> bucket_inv ledger (new_bucket_index name p m)"
  by (simp add: bucket_inv_def new_bucket_index_def no_txid_def lru_new_inv stored_ok_def writes_of_def
      current_ok_def lru_value_def) (simp add: lru_new_def)

lemma bucket_run_inv:
  assumes "(bucket_step ledger)\<^sup>*\<^sup>* (new_bucket_index name p m) st" "bucket_params_ok ledger p"
  shows "bucket_inv ledger st"
  using assms by (induction rule: rtranclp_induct) (auto intro: new_bucket_inv bucket_step_inv)

lemma read_seqnos_outcome:
  "case read_seqnos n data s of
     Inl e \<Rightarrow> length data < 8 * n
   | Inr (s', rest) \<Rightarrow> 8 * n \<le> length data \<and> rest = drop (8 * n) data"
proof (induction n data s rule: read_seqnos.induct)
  case (2 n data seqnos)
  show ?case
  proof (cases "length data < 8")
    case False
    then have "ser_read 8 data = Inr (le_value (take 8 data), drop 8 data)" by (simp add: ser_read_def)
    then show ?thesis
      using "2.IH" [OF _ refl] False by (fastforce split: sum.splits simp: add.commute)
  qed (simp add: ser_read_def)
qed simp

lemma index_run_seqno:
  assumes "consecutive ledger" "n \<le> length ledger"
  shows "tx_seqno (current_txid (index_run (take n ledger))) = n"
proof (cases n)
  case 0
  then show ?thesis by (simp add: index_run_def new_index_def)
next
  case (Suc m)
  then have "take n ledger \<noteq> []" "last (take n ledger) = ledger ! m"
    using assms(2) by (auto simp: take_Suc_conv_app_nth)
  then show ?thesis using index_run_current consecutive_nth [OF assms(1), of m] Suc assms(2) by simp
qed

lemma consecutive_in_order:
  assumes "consecutive ledger" "length ledger < max64"
  shows "in_order ledger"
  using assms consecutive_nth [OF assms(1)]
  by (simp add: in_order_def consecutive_def strict_sorted_iff list_all_length del: upt_Suc)

fun handle_all :: "bucket_index \<Rightarrow> committed_tx list \<Rightarrow> bucket_index option" where
  "handle_all st [] = Some st"
| "handle_all st (tx # txs) =
     (case bucket_handle_tx st tx of None \<Rightarrow> None | Some st' \<Rightarrow> handle_all st' txs)"

lemma handle_all_run:
  assumes "handle_all st (drop (tx_seqno (bi_txid st)) ledger) = Some st'" "bucket_inv ledger st"
  shows "(bucket_step ledger)\<^sup>*\<^sup>* st st'"
  using assms
proof (induction "length ledger - tx_seqno (bi_txid st)" arbitrary: st)
  case (Suc d)
  let ?n = "tx_seqno (bi_txid st)"
  have n: "?n < length ledger" using Suc.hyps(2) by simp
  obtain st1 where st1: "bucket_handle_tx st (ledger ! ?n) = Some st1" "bucket_inv ledger st1"
    "tx_seqno (bi_txid st1) = Suc ?n"
    using bucket_handle_correct [OF Suc.prems(2) n] by blast
  have "drop ?n ledger = ledger ! ?n # drop (Suc ?n) ledger" using n by (rule Cons_nth_drop_Suc [symmetric])
  then have "handle_all st1 (drop (tx_seqno (bi_txid st1)) ledger) = Some st'"
    using Suc.prems(1) st1 by simp
  then have "(bucket_step ledger)\<^sup>*\<^sup>* st1 st'" using Suc.hyps st1 by simp
  then show ?case using step_tx [OF n st1(1)] by (rule converse_rtranclp_into_rtranclp [rotated])
qed simp

definition sample_ledger :: "committed_tx list" where
  "sample_ledger =
     [(\<lparr>tx_view = 2, tx_seqno = 1\<rparr>, [[1]]), (\<lparr>tx_view = 2, tx_seqno = 2\<rparr>, [[1]]),
      (\<lparr>tx_view = 2, tx_seqno = 3\<rparr>, [[1]])]"

definition sample_bucket0 :: bucket_index where
  "sample_bucket0 = new_bucket_index [] 2 3"

definition sample_blob :: string where
  "sample_blob = get_blob_name [] ([1], 0, 2)"

text \<open>After the three transactions: the first bucket of the key is stored, the second is current.\<close>

definition sample_bucket1 :: bucket_index where
  "sample_bucket1 = sample_bucket0\<lparr>current_results := [([1], (2, 4), [(2, 1)])],
     bi_txid := \<lparr>tx_view = 2, tx_seqno = 3\<rparr>, lfs_stored := [(sample_blob, serialise [(1, 0)])]\<rparr>"

text \<open>After a first query the bucket is being fetched, and then it is loaded.\<close>

definition sample_fetch :: "fetch_result \<Rightarrow> bucket_index" where
  "sample_fetch fr = sample_bucket1\<lparr>old_results :=
     \<lparr>entries_list = [(0, ([1], 0, 2), Some (sample_blob, fr), [])], iter_map = [(([1], 0, 2), 0)],
      lru_max_size = 3, next_node = 1\<rparr>\<rparr>"

lemma sample_params: "bucket_params_ok sample_ledger 2"
  by code_simp

lemma sample_handled: "handle_all sample_bucket0 sample_ledger = Some sample_bucket1"
  by code_simp

lemma sample_fetching: "bucket_query sample_bucket1 [1] 1 3 = Some (sample_fetch Fetching, NoResult)"
  by code_simp

lemma sample_loaded: "lfs_answer (sample_fetch Fetching) sample_blob fr = sample_fetch fr"
  by (simp add: lfs_answer_def sample_fetch_def)

lemma sample_bucket_run:
  "(bucket_step sample_ledger)\<^sup>*\<^sup>* (new_bucket_index [] 2 3) (sample_fetch (Loaded (serialise [(1, 0)])))"
proof -
  have "(bucket_step sample_ledger)\<^sup>*\<^sup>* sample_bucket0 sample_bucket1"
    using new_bucket_inv [OF sample_params] sample_handled
    by (intro handle_all_run) (simp_all add: sample_bucket0_def new_bucket_index_def no_txid_def)
  moreover have "bucket_step sample_ledger sample_bucket1 (sample_fetch Fetching)"
    using sample_fetching by (rule step_query)
  moreover have "bucket_step sample_ledger (sample_fetch Fetching) (sample_fetch (Loaded (serialise [(1, 0)])))"
    using step_answer [of "Loaded (serialise [(1, 0)])" sample_blob "sample_fetch Fetching" sample_ledger]
    by (simp add: sample_loaded) (simp add: sample_fetch_def sample_bucket1_def)
  ultimately show ?thesis
    unfolding sample_bucket0_def by (metis rtranclp.rtrancl_into_rtrancl)
qed

section \<open>Properties\<close>

text \<open>
  C22. The bucketed index answers as the index in memory does. In every state that it reaches from the
  empty one by transactions in the order of the ledger, queries and answers of the host, a query ends; if
  it has a result, that is precisely the set of the sequence numbers of the ledger in the range at which
  the key was written, the same as that of the index in memory after the same transactions. Blobs
  that the host loses, withholds or replaces by earlier versions only delay a result.
\<close>

theorem bucket_index_exact:
  assumes "(bucket_step ledger)\<^sup>*\<^sup>* (new_bucket_index name p m) st" "bucket_params_ok ledger p"
  shows "\<exists>st' out. bucket_query st k from to = Some (st', out) \<and> out \<noteq> Uncaught \<and>
    (case out of
       Result r \<Rightarrow> cs_elems r = filter (\<lambda>x. from \<le> x \<and> x \<le> to) (writes_of ledger k) \<and>
         (\<exists>r'. get_write_txs_in_range (index_run (take (tx_seqno (bi_txid st)) ledger)) k from to None = Seqnos r' \<and>
           cs_elems r' = cs_elems r)
     | _ \<Rightarrow> True)"
proof -
  let ?n = "tx_seqno (bi_txid st)"
  have inv: "bucket_inv ledger st" using assms by (rule bucket_run_inv)
  then have c: "consecutive ledger" "length ledger < max64" "?n \<le> length ledger"
    by (auto simp: bucket_inv_def bucket_params_ok_def)
  obtain st' out where q: "bucket_query st k from to = Some (st', out)" "out \<noteq> Uncaught"
    "\<And>r. out = Result r \<Longrightarrow> from \<le> to \<and> to \<le> ?n \<and> cs_inv r \<and>
      cs_set r = {x \<in> set (writes_of ledger k). from \<le> x \<and> x \<le> to}"
    using bucket_query_correct [OF inv, of k "from" to] by (force split: bucket_result.splits)
  have o: "in_order (take ?n ledger)"
    using consecutive_in_order [OF consecutive_take [OF c(1)]] c by simp
  have "cs_elems r = filter (\<lambda>x. from \<le> x \<and> x \<le> to) (writes_of ledger k) \<and>
      (\<exists>r'. get_write_txs_in_range (index_run (take ?n ledger)) k from to None = Seqnos r' \<and>
        cs_elems r' = cs_elems r)" if r: "out = Result r" for r
  proof -
    note s = q(3) [OF r]
    let ?f = "filter (\<lambda>x. from \<le> x \<and> x \<le> to)"
    have e: "cs_elems r = ?f (writes_of ledger k)"
      using s sorted_writes_of [OF c(1), of k] sorted_list_of_ascending [of "?f (writes_of ledger k)"]
      by (simp add: elems_sorted_list sorted_wrt_filter)
    have "?f (writes_of (take ?n ledger) k) = ?f (writes_of ledger k)"
      using sorted_writes_of [OF c(1), of k] sorted_writes_of [OF consecutive_take [OF c(1)], of ?n k] s
        writes_of_take [OF c(1), of ?n k]
      by (intro strict_sorted_equal) (auto simp: sorted_wrt_filter)
    moreover have "cs_inv (seqnos_of (index_run (take ?n ledger)) k)" using index_run_holds [OF o] by blast
    from query_impl [OF this, of "from" to None] obtain r' where
      "get_write_txs_impl (index_run (take ?n ledger)) k from to None = Seqnos r'"
      "cs_elems r' = ?f (writes_of (take ?n ledger) k)"
      using s by (auto simp: index_run_elems [OF o] query_spec_def conj_commute)
    ultimately show ?thesis
      using e s index_run_seqno [OF c(1,3)] by (simp add: get_write_txs_in_range_def)
  qed
  then show ?thesis using q(1,2) by (auto split: bucket_result.splits)
qed

theorem bucket_index_exact_witness:
  "\<exists>st st' r r'. bucket_query st [1] 1 3 = Some (st', Result r) \<and> cs_elems r = [1, 2, 3] \<and>
    get_write_txs_in_range (index_run sample_ledger) [1] 1 3 None = Seqnos r' \<and> cs_elems r' = [1, 2, 3]"
proof -
  let ?st = "sample_fetch (Loaded (serialise [(1, 0)]))"
  have res: "(case bucket_query ?st [1] 1 3 of
      Some (st', Result r) \<Rightarrow> cs_elems r = [1, 2, 3] | _ \<Rightarrow> False)" by code_simp
  then obtain st' out where out: "bucket_query ?st [1] 1 3 = Some (st', out)"
    by (cases "bucket_query ?st [1] 1 3") auto
  then obtain r where "out = Result r" "cs_elems r = [1, 2, 3]" using res by (cases out) auto
  then have r: "bucket_query ?st [1] 1 3 = Some (st', Result r)" "cs_elems r = [1, 2, 3]"
    using out by auto
  have "take (tx_seqno (bi_txid ?st)) sample_ledger = sample_ledger"
    by (simp add: sample_fetch_def sample_bucket1_def sample_ledger_def)
  then have "\<exists>r'. get_write_txs_in_range (index_run sample_ledger) [1] 1 3 None = Seqnos r' \<and> cs_elems r' = cs_elems r"
    using bucket_index_exact [OF sample_bucket_run sample_params, of "[1]" 1 3] r(1) by auto
  then show ?thesis using r by auto
qed


end
