(* ===== verification/Ledger_Chunker.thy ===== *)
theory Ledger_Chunker
  imports CCF_Prelude
begin

text \<open>
  The component that decides where the chunks of the ledger end (\<^verbatim>\<open>src/kv/ledger_chunker.h\<close>).
  The ordered containers are ascending lists. The sizes are added up by \<^verbatim>\<open>std::accumulate\<close> with
  the initial value \<^verbatim>\<open>0\<close>, so the running sum is a 32-bit \<^verbatim>\<open>int\<close>: each addition is done in
  64 bits and then cut to the signed 32-bit range.
\<close>

record ledger_chunker =
  chunk_threshold :: nat
  current_tx_version :: nat
  transaction_sizes :: "(nat \<times> nat) list"
  chunk_ends :: "nat list"
  forced_chunk_versions :: "nat list"

definition max_chunk_threshold_size :: nat where
  "max_chunk_threshold_size = 2 ^ 32 - 1"

definition new_chunker :: "nat \<Rightarrow> nat \<Rightarrow> ledger_chunker option" where
  "new_chunker threshold start_from =
     (if threshold = 0 \<or> max_chunk_threshold_size < threshold then None
      else Some \<lparr>chunk_threshold = threshold, current_tx_version = start_from, transaction_sizes = [],
        chunk_ends = [], forced_chunk_versions = []\<rparr>)"

section \<open>Ordered containers\<close>

text \<open>The part of an ordered container up to \<^verbatim>\<open>upper_bound(v)\<close>, and from it on.\<close>

definition upto_key :: "nat \<Rightarrow> (nat \<times> nat) list \<Rightarrow> (nat \<times> nat) list" where
  "upto_key v m = takeWhile (\<lambda>p. fst p \<le> v) m"

definition after_key :: "nat \<Rightarrow> (nat \<times> nat) list \<Rightarrow> (nat \<times> nat) list" where
  "after_key v m = dropWhile (\<lambda>p. fst p \<le> v) m"

fun set_insert :: "nat \<Rightarrow> nat list \<Rightarrow> nat list" where
  "set_insert v [] = [v]"
| "set_insert v (x # xs) = (if v < x then v # x # xs else if v = x then x # xs else x # set_insert v xs)"

definition prev_of :: "nat list \<Rightarrow> nat \<Rightarrow> nat option" where
  "prev_of xs pos = (if pos = 0 then None else Some (xs ! (pos - 1)))"

section \<open>Operations\<close>

definition size_to_int :: "nat \<Rightarrow> int" where
  "size_to_int n = (let m = int (n mod 2 ^ 32) in if m < 2 ^ 31 then m else m - 2 ^ 32)"

definition to_size :: "int \<Rightarrow> nat" where
  "to_size i = nat (i mod 2 ^ 64)"

definition accumulate_sizes :: "(nat \<times> nat) list \<Rightarrow> nat" where
  "accumulate_sizes ps = to_size (foldl (\<lambda>n p. size_to_int (add64 (to_size n) (snd p))) 0 ps)"

definition get_unchunked_size :: "ledger_chunker \<Rightarrow> nat \<Rightarrow> nat" where
  "get_unchunked_size c up_to =
     (let up = upto_key up_to (transaction_sizes c) in
      accumulate_sizes
        (case prev_of (chunk_ends c) (lower_bound (chunk_ends c) up_to) of
           None \<Rightarrow> up
         | Some e \<Rightarrow> after_key e up))"

definition append_entry_size :: "ledger_chunker \<Rightarrow> nat \<Rightarrow> ledger_chunker" where
  "append_entry_size c n =
     (let v = add64 (current_tx_version c) 1
      in c\<lparr>current_tx_version := v, transaction_sizes := omap_set v n (transaction_sizes c)\<rparr>)"

definition force_end_of_chunk :: "ledger_chunker \<Rightarrow> nat \<Rightarrow> ledger_chunker" where
  "force_end_of_chunk c v = c\<lparr>forced_chunk_versions := set_insert v (forced_chunk_versions c)\<rparr>"

definition is_chunk_end_requested :: "ledger_chunker \<Rightarrow> nat \<Rightarrow> bool" where
  "is_chunk_end_requested c v =
     (if (case prev_of (forced_chunk_versions c) (upper_bound (forced_chunk_versions c) v) of
            None \<Rightarrow> False
          | Some f \<Rightarrow> lower_bound (chunk_ends c) f = length (chunk_ends c))
      then True
      else chunk_threshold c \<le> get_unchunked_size c v)"

definition rolled_back_to :: "ledger_chunker \<Rightarrow> nat \<Rightarrow> ledger_chunker" where
  "rolled_back_to c v =
     c\<lparr>current_tx_version := v, transaction_sizes := upto_key v (transaction_sizes c),
       chunk_ends := takeWhile (\<lambda>e. e \<le> v) (chunk_ends c),
       forced_chunk_versions := takeWhile (\<lambda>f. f \<le> v) (forced_chunk_versions c)\<rparr>"

definition compacted_to :: "ledger_chunker \<Rightarrow> nat \<Rightarrow> ledger_chunker" where
  "compacted_to c v =
     (let compactable_v =
        (case prev_of (chunk_ends c) (lower_bound (chunk_ends c) v) of None \<Rightarrow> 0 | Some e \<Rightarrow> e)
      in c\<lparr>transaction_sizes := after_key compactable_v (transaction_sizes c),
           chunk_ends := dropWhile (\<lambda>e. e \<le> compactable_v) (chunk_ends c),
           forced_chunk_versions := dropWhile (\<lambda>f. f \<le> compactable_v) (forced_chunk_versions c)\<rparr>)"

definition produced_chunk_at :: "ledger_chunker \<Rightarrow> nat \<Rightarrow> ledger_chunker" where
  "produced_chunk_at c v = c\<lparr>chunk_ends := set_insert v (chunk_ends c)\<rparr>"

section \<open>Invariant\<close>

definition chunker_inv :: "ledger_chunker \<Rightarrow> bool" where
  "chunker_inv c \<longleftrightarrow>
     sorted_wrt (<) (map fst (transaction_sizes c)) \<and> sorted_wrt (<) (chunk_ends c) \<and>
     sorted_wrt (<) (forced_chunk_versions c) \<and> current_tx_version c < max64 \<and>
     (\<forall>p\<in>set (transaction_sizes c). 0 < fst p \<and> fst p \<le> current_tx_version c) \<and>
     (\<forall>f\<in>set (forced_chunk_versions c). 0 < f)"

lemma sorted_set_insert: "sorted_wrt (<) xs \<Longrightarrow> sorted_wrt (<) (set_insert v xs) \<and> set (set_insert v xs) = insert v (set xs)"
  by (induction v xs rule: set_insert.induct) auto

lemma filter_keys:
  assumes "sorted_wrt (<) (map fst m)"
  shows "upto_key v m = filter (\<lambda>p. fst p \<le> v) m" "after_key v m = filter (\<lambda>p. v < fst p) m"
  using assms
proof (induction m)
  case (Cons p m)
  case 1
  have "\<not> fst q \<le> v" if "\<not> fst p \<le> v" "q \<in> set m" for q using that 1 by force
  then show ?case using Cons 1 by (auto simp: upto_key_def filter_empty_conv)
  case 2
  have "v < fst q" if "\<not> fst p \<le> v" "q \<in> set m" for q using that 2 by force
  then show ?case using Cons 2 by (auto simp: after_key_def not_le filter_id_conv)
qed (simp_all add: upto_key_def after_key_def)

lemma takeWhile_le:
  fixes xs :: "nat list"
  assumes "sorted_wrt (<) xs"
  shows "takeWhile (\<lambda>x. x \<le> v) xs = filter (\<lambda>x. x \<le> v) xs"
  using filter_initial [OF assms, of "\<lambda>x. x \<le> v"] by simp

text \<open>The element before a bound of an ascending list is the largest one below it.\<close>

lemma prev_of_initial:
  fixes xs :: "nat list"
  assumes "sorted_wrt (<) xs" "\<And>u v. P v \<Longrightarrow> u < v \<Longrightarrow> P u"
  shows "prev_of xs (length (takeWhile P xs)) =
    (if filter P xs = [] then None else Some (Max (set (filter P xs))))"
proof (cases "filter P xs = []")
  case True
  then show ?thesis using filter_initial [OF assms] by (simp add: prev_of_def)
next
  case False
  let ?ys = "filter P xs"
  have ys: "takeWhile P xs = ?ys" using filter_initial [OF assms] by simp
  have "xs ! (length ?ys - 1) = ?ys ! (length ?ys - 1)"
    using ys False takeWhile_nth [of "length ?ys - 1" P xs] by simp
  also have "\<dots> = last ?ys" using False by (simp add: last_conv_nth)
  also have "\<dots> = Max (set ?ys)"
  proof (rule Max_eqI [symmetric])
    show "y \<le> last ?ys" if "y \<in> set ?ys" for y
      using last_in_set_sorted [of ?ys y] that assms(1) by (simp add: sorted_wrt_filter)
    show "last ?ys \<in> set ?ys" using False by (rule last_in_set)
  qed simp
  finally show ?thesis using False ys by (simp add: prev_of_def)
qed

lemma prev_end:
  assumes "sorted_wrt (<) xs"
  shows "prev_of xs (lower_bound xs v) =
    (if filter (\<lambda>e. e < v) xs = [] then None else Some (Max (set (filter (\<lambda>e. e < v) xs))))"
  using prev_of_initial [OF assms, of "\<lambda>e. e < v"] by (simp add: lower_bound_def)

lemma prev_forced:
  assumes "sorted_wrt (<) xs"
  shows "prev_of xs (upper_bound xs v) =
    (if filter (\<lambda>f. f \<le> v) xs = [] then None else Some (Max (set (filter (\<lambda>f. f \<le> v) xs))))"
  using prev_of_initial [OF assms, of "\<lambda>f. f \<le> v"] by (simp add: upper_bound_def)

section \<open>The size that is not yet in a chunk\<close>

definition unchunked :: "ledger_chunker \<Rightarrow> nat \<Rightarrow> (nat \<times> nat) list" where
  "unchunked c v =
     filter (\<lambda>p. fst p \<le> v \<and> list_all (\<lambda>e. e < v \<longrightarrow> e < fst p) (chunk_ends c)) (transaction_sizes c)"

lemma get_unchunked_size_eq:
  assumes "chunker_inv c"
  shows "get_unchunked_size c v = accumulate_sizes (unchunked c v)"
proof -
  have s: "sorted_wrt (<) (map fst (transaction_sizes c))" "sorted_wrt (<) (chunk_ends c)"
    using assms by (simp_all add: chunker_inv_def)
  let ?es = "filter (\<lambda>e. e < v) (chunk_ends c)"
  have up: "upto_key v (transaction_sizes c) = filter (\<lambda>p. fst p \<le> v) (transaction_sizes c)"
    using filter_keys(1) [OF s(1)] .
  show ?thesis
  proof (cases "?es = []")
    case True
    then have "unchunked c v = filter (\<lambda>p. fst p \<le> v) (transaction_sizes c)"
      by (auto simp: unchunked_def filter_empty_conv list_all_iff intro!: filter_cong)
    then show ?thesis using True up by (simp add: get_unchunked_size_def prev_end [OF s(2)] Let_def)
  next
    case False
    have mx: "Max (set ?es) < a \<longleftrightarrow> list_all (\<lambda>e. e < v \<longrightarrow> e < a) (chunk_ends c)" for a
    proof -
      have "set ?es \<noteq> {}" using False by (simp only: set_empty simp_thms)
      from Max_less_iff [OF finite_set this, of a] show ?thesis by (auto simp: list_all_iff)
    qed
    have "sorted_wrt (<) (map fst (filter (\<lambda>p. fst p \<le> v) (transaction_sizes c)))"
      using s(1) by (simp add: sorted_wrt_map sorted_wrt_filter)
    from filter_keys(2) [OF this]
    have "after_key (Max (set ?es)) (upto_key v (transaction_sizes c)) =
        filter (\<lambda>p. Max (set ?es) < fst p) (filter (\<lambda>p. fst p \<le> v) (transaction_sizes c))"
      by (simp only: up)
    also have "\<dots> = unchunked c v" by (simp only: mx unchunked_def filter_filter conj_commute)
    finally show ?thesis using False by (simp add: get_unchunked_size_def prev_end [OF s(2)] Let_def)
  qed
qed

lemma accumulate_exact:
  assumes "sum_list (map snd ps) < 2 ^ 31"
  shows "accumulate_sizes ps = sum_list (map snd ps)"
proof -
  have "foldl (\<lambda>n p. size_to_int (add64 (to_size n) (snd p))) (int m) ps = int (m + sum_list (map snd ps))"
    if "m + sum_list (map snd ps) < 2 ^ 31" for m
    using that
  proof (induction ps arbitrary: m)
    case (Cons p ps)
    have m: "m + snd p < 2 ^ 31" using Cons.prems by simp
    then have "m + snd p \<le> max64" by (simp add: max64_def two64_def)
    then have "size_to_int (add64 (to_size (int m)) (snd p)) = int (m + snd p)"
      using m by (simp add: to_size_def u64_simps size_to_int_def Let_def nat_mod_distrib)
    then show ?case using Cons.IH [of "m + snd p"] Cons.prems by simp
  qed simp
  from this [of 0] show ?thesis
    using assms by (simp add: accumulate_sizes_def to_size_def nat_mod_distrib)
qed

lemma forced_outstanding:
  assumes "chunker_inv c"
  shows "(case prev_of (forced_chunk_versions c) (upper_bound (forced_chunk_versions c) v) of
      None \<Rightarrow> False
    | Some f \<Rightarrow> lower_bound (chunk_ends c) f = length (chunk_ends c)) \<longleftrightarrow>
    (\<exists>f\<in>set (forced_chunk_versions c). f \<le> v \<and> (\<forall>e\<in>set (chunk_ends c). e < f))"
proof -
  let ?fs = "filter (\<lambda>f. f \<le> v) (forced_chunk_versions c)"
  have s: "sorted_wrt (<) (forced_chunk_versions c)" using assms by (simp add: chunker_inv_def)
  have lb: "lower_bound (chunk_ends c) f = length (chunk_ends c) \<longleftrightarrow> (\<forall>e\<in>set (chunk_ends c). e < f)" for f
    unfolding lower_bound_def by (metis length_takeWhile_le less_irrefl nat_less_le takeWhile_eq_all_conv takeWhile_eq_take take_all_iff)
  show ?thesis
  proof (cases "?fs = []")
    case True
    then show ?thesis by (auto simp: prev_forced [OF s] filter_empty_conv)
  next
    case False
    have "set ?fs \<noteq> {}" using False by (simp only: set_empty simp_thms)
    then have m: "Max (set ?fs) \<in> set ?fs" by (intro Max_in) simp_all
    have "f \<le> Max (set ?fs)" if "f \<in> set (forced_chunk_versions c)" "f \<le> v" for f
      using that by (intro Max_ge) auto
    then show ?thesis
      using m False lb by (auto simp: prev_forced [OF s] intro: less_le_trans)
  qed
qed

section \<open>The operations keep the invariant\<close>

lemma new_chunker_inv: "new_chunker threshold v = Some c \<Longrightarrow> v < max64 \<Longrightarrow> chunker_inv c"
  by (auto simp: new_chunker_def chunker_inv_def split: if_splits)

lemma append_at_end:
  "\<forall>p\<in>set m. fst p < k \<Longrightarrow> omap_set k v m = m @ [(k, v)]"
  by (induction m) auto

lemma append_entry_size_eq:
  assumes "chunker_inv c"
  shows "append_entry_size c n = c\<lparr>current_tx_version := current_tx_version c + 1,
    transaction_sizes := transaction_sizes c @ [(current_tx_version c + 1, n)]\<rparr>"
proof -
  have v: "add64 (current_tx_version c) 1 = current_tx_version c + 1"
    using assms by (simp add: chunker_inv_def u64_simps)
  have "\<forall>p\<in>set (transaction_sizes c). fst p < current_tx_version c + 1"
    using assms by (auto simp: chunker_inv_def less_Suc_eq_le)
  then show ?thesis by (simp only: append_entry_size_def Let_def v append_at_end)
qed

lemma append_entry_size_inv:
  "chunker_inv c \<Longrightarrow> current_tx_version c + 1 < max64 \<Longrightarrow> chunker_inv (append_entry_size c n)"
  by (auto simp: append_entry_size_eq chunker_inv_def sorted_wrt_append less_Suc_eq_le)

lemma force_end_of_chunk_inv: "chunker_inv c \<Longrightarrow> 0 < v \<Longrightarrow> chunker_inv (force_end_of_chunk c v)"
  using sorted_set_insert [of "forced_chunk_versions c" v]
  by (auto simp: force_end_of_chunk_def chunker_inv_def)

lemma produced_chunk_at_inv: "chunker_inv c \<Longrightarrow> chunker_inv (produced_chunk_at c v)"
  using sorted_set_insert [of "chunk_ends c" v] by (auto simp: produced_chunk_at_def chunker_inv_def)

lemma rolled_back_to_inv: "chunker_inv c \<Longrightarrow> v < max64 \<Longrightarrow> chunker_inv (rolled_back_to c v)"
  by (auto simp: rolled_back_to_def chunker_inv_def filter_keys takeWhile_le sorted_wrt_map sorted_wrt_filter)

lemma compacted_to_inv: "chunker_inv c \<Longrightarrow> chunker_inv (compacted_to c v)"
  by (auto simp: compacted_to_def chunker_inv_def filter_keys Let_def sorted_wrt_map sorted_wrt_filter
      sorted_wrt_dropWhile dest: set_dropWhileD)

section \<open>Compaction\<close>

lemma compacted_to_eq:
  fixes v :: nat
  assumes "chunker_inv c"
  defines "old \<equiv> \<lambda>x. x = 0 \<or> (\<exists>e\<in>set (chunk_ends c). x \<le> e \<and> e < v)"
  shows "compacted_to c v = c\<lparr>transaction_sizes := filter (\<lambda>p. \<not> old (fst p)) (transaction_sizes c),
    chunk_ends := filter (\<lambda>e. \<not> old e) (chunk_ends c),
    forced_chunk_versions := filter (\<lambda>f. \<not> old f) (forced_chunk_versions c)\<rparr>"
proof -
  let ?es = "filter (\<lambda>e. e < v) (chunk_ends c)"
  let ?w = "case prev_of (chunk_ends c) (lower_bound (chunk_ends c) v) of None \<Rightarrow> 0 | Some e \<Rightarrow> e"
  have s: "sorted_wrt (<) (map fst (transaction_sizes c))" "sorted_wrt (<) (chunk_ends c)"
    "sorted_wrt (<) (forced_chunk_versions c)" using assms(1) by (simp_all add: chunker_inv_def)
  have lt: "?w < x \<longleftrightarrow> \<not> old x" for x
  proof (cases "?es = []")
    case True
    then show ?thesis by (auto simp: prev_end [OF s(2)] old_def filter_empty_conv)
  next
    case False
    then have ne: "set ?es \<noteq> {}" by (simp only: set_empty simp_thms)
    from Max_less_iff [OF finite_set this, of x] show ?thesis
      using False ne by (auto simp: prev_end [OF s(2)] old_def not_le)
  qed
  have "filter ((<) ?w) xs = filter (\<lambda>x. \<not> old x) xs" for xs by (rule filter_cong) (simp_all only: lt)
  then show ?thesis
    using lt by (simp add: compacted_to_def Let_def filter_keys [OF s(1)] dropWhile_le_filter s)
qed

lemma unchunked_compacted:
  assumes "chunker_inv c" "w \<le> v"
  shows "unchunked (compacted_to c w) v = unchunked c v"
proof -
  let ?E = "set (chunk_ends c)"
  define old where "old = (\<lambda>x. x = 0 \<or> (\<exists>e\<in>?E. x \<le> e \<and> e < w))"
  have "unchunked (compacted_to c w) v =
      filter (\<lambda>p. \<not> old (fst p) \<and> fst p \<le> v \<and> (\<forall>e\<in>?E. \<not> old e \<longrightarrow> e < v \<longrightarrow> e < fst p)) (transaction_sizes c)"
    by (auto simp: unchunked_def compacted_to_eq [OF assms(1)] old_def list_all_iff intro!: filter_cong)
  also have "\<dots> = unchunked c v"
    unfolding unchunked_def list_all_iff
  proof (rule filter_cong [OF refl])
    fix p
    assume "p \<in> set (transaction_sizes c)"
    then have "0 < fst p" using assms(1) by (simp add: chunker_inv_def)
    then have 1: "old e \<Longrightarrow> \<not> old (fst p) \<Longrightarrow> e < fst p" for e
      unfolding old_def by (force simp: not_le)
    have 2: "old (fst p) \<Longrightarrow> \<exists>e\<in>?E. e < v \<and> \<not> e < fst p"
      using \<open>0 < fst p\<close> assms(2) unfolding old_def by (force simp: not_less)
    show "(\<not> old (fst p) \<and> fst p \<le> v \<and> (\<forall>e\<in>?E. \<not> old e \<longrightarrow> e < v \<longrightarrow> e < fst p)) =
        (fst p \<le> v \<and> (\<forall>e\<in>?E. e < v \<longrightarrow> e < fst p))"
      using 1 2 by blast
  qed
  finally show ?thesis .
qed

lemma forced_compacted:
  assumes "chunker_inv c" "w \<le> v"
  shows "(\<exists>f\<in>set (forced_chunk_versions (compacted_to c w)). f \<le> v \<and> (\<forall>e\<in>set (chunk_ends (compacted_to c w)). e < f))
    \<longleftrightarrow> (\<exists>f\<in>set (forced_chunk_versions c). f \<le> v \<and> (\<forall>e\<in>set (chunk_ends c). e < f))"
proof -
  let ?old = "\<lambda>x. x = 0 \<or> (\<exists>e\<in>set (chunk_ends c). x \<le> e \<and> e < w)"
  have sets: "set (forced_chunk_versions (compacted_to c w)) = {f \<in> set (forced_chunk_versions c). \<not> ?old f}"
    "set (chunk_ends (compacted_to c w)) = {e \<in> set (chunk_ends c). \<not> ?old e}"
    by (auto simp: compacted_to_eq [OF assms(1)])
  have "(\<not> ?old f \<and> (\<forall>e\<in>set (chunk_ends c). \<not> ?old e \<longrightarrow> e < f)) \<longleftrightarrow> (\<forall>e\<in>set (chunk_ends c). e < f)"
    if "f \<in> set (forced_chunk_versions c)" for f
  proof -
    have f: "0 < f" using that assms(1) by (simp add: chunker_inv_def)
    then have "?old e \<Longrightarrow> \<not> ?old f \<Longrightarrow> e < f" for e by (force simp: not_le)
    moreover have "?old f \<Longrightarrow> \<exists>e\<in>set (chunk_ends c). \<not> e < f" using f by (force simp: not_less)
    ultimately show ?thesis by blast
  qed
  then show ?thesis unfolding sets by blast
qed

section \<open>Properties\<close>

definition sample_chunker :: ledger_chunker where
  "sample_chunker =
     \<lparr>chunk_threshold = 100, current_tx_version = 6,
      transaction_sizes = [(1, 30), (2, 80), (3, 20), (4, 30), (5, 10), (6, 50)],
      chunk_ends = [2], forced_chunk_versions = [2, 5]\<rparr>"

lemma sample_chunker_inv: "chunker_inv sample_chunker"
  by (simp add: sample_chunker_def chunker_inv_def max64_def two64_def)

text \<open>
  C27. A chunk end is requested at a version exactly if it is due: some version up to it was forced and no
  chunk has ended since, or the entries after the last chunk that ended before it, up to it, reach the
  threshold together. This holds as long as they add up to less than 2^31 bytes, the range of the sum.
\<close>

theorem chunk_end_due:
  assumes "chunker_inv c" "sum_list (map snd (unchunked c v)) < 2 ^ 31"
  shows "is_chunk_end_requested c v \<longleftrightarrow>
    (\<exists>f\<in>set (forced_chunk_versions c). f \<le> v \<and> \<not> (\<exists>e\<in>set (chunk_ends c). f \<le> e)) \<or>
    chunk_threshold c \<le> sum_list (map snd (unchunked c v))"
proof -
  have "(\<forall>e\<in>set (chunk_ends c). e < f) \<longleftrightarrow> \<not> (\<exists>e\<in>set (chunk_ends c). f \<le> e)" for f
    by (auto simp: not_le)
  then show ?thesis
    unfolding is_chunk_end_requested_def forced_outstanding [OF assms(1)] get_unchunked_size_eq [OF assms(1)]
      accumulate_exact [OF assms(2)]
    by (simp only: if_bool_eq_disj) blast
qed

theorem chunk_end_due_witness:
  "is_chunk_end_requested sample_chunker 5 \<and> \<not> is_chunk_end_requested sample_chunker 4 \<and>
   is_chunk_end_requested (sample_chunker\<lparr>forced_chunk_versions := []\<rparr>) 6"
proof -
  have inv: "chunker_inv (sample_chunker\<lparr>forced_chunk_versions := []\<rparr>)"
    by (simp add: sample_chunker_def chunker_inv_def max64_def two64_def)
  have "sum_list (map snd (unchunked sample_chunker 5)) < 2 ^ 31"
    "sum_list (map snd (unchunked sample_chunker 4)) < 2 ^ 31"
    "sum_list (map snd (unchunked (sample_chunker\<lparr>forced_chunk_versions := []\<rparr>) 6)) < 2 ^ 31"
    by (simp_all add: sample_chunker_def unchunked_def)
  then show ?thesis
    by (simp only: chunk_end_due [OF sample_chunker_inv] chunk_end_due [OF inv])
      (simp add: sample_chunker_def unchunked_def)
qed

text \<open>
  C28. Compaction is invisible: forgetting what precedes the last chunk that ended before a committed
  version does not change whether a chunk end is requested at that version or any later one.
\<close>

theorem compaction_keeps_requests:
  assumes "chunker_inv c" "w \<le> v"
  shows "is_chunk_end_requested (compacted_to c w) v = is_chunk_end_requested c v"
proof -
  have inv: "chunker_inv (compacted_to c w)" using assms(1) by (rule compacted_to_inv)
  have "chunk_threshold (compacted_to c w) = chunk_threshold c" by (simp add: compacted_to_def Let_def)
  then show ?thesis
    unfolding is_chunk_end_requested_def forced_outstanding [OF inv] forced_outstanding [OF assms(1)]
      forced_compacted [OF assms] get_unchunked_size_eq [OF inv] get_unchunked_size_eq [OF assms(1)]
      unchunked_compacted [OF assms] by (simp only:)
qed

theorem compaction_keeps_requests_witness:
  "is_chunk_end_requested (compacted_to sample_chunker 4) 6 = is_chunk_end_requested sample_chunker 6 \<and>
   transaction_sizes (compacted_to sample_chunker 4) = [(3, 20), (4, 30), (5, 10), (6, 50)]"
  using compaction_keeps_requests [OF sample_chunker_inv, of 4 6] by simp code_simp

text \<open>
  The running sum is an \<^verbatim>\<open>int\<close>. Entries of 2^31 bytes count as more than any threshold, and entries
  of 2^32 bytes count as none.
\<close>

lemma two_gigabytes_exceed_any_threshold:
  "get_unchunked_size (sample_chunker\<lparr>transaction_sizes := [(1, 2 ^ 30), (2, 2 ^ 30)], chunk_ends := []\<rparr>) 2
     = 2 ^ 64 - 2 ^ 31"
  by code_simp

lemma four_gigabytes_count_as_none:
  "get_unchunked_size (sample_chunker\<lparr>transaction_sizes := [(1, 2 ^ 31), (2, 2 ^ 31)], chunk_ends := []\<rparr>) 2 = 0"
  by code_simp

end
