(* ===== verification/Champ_Map.thy ===== *)
theory Champ_Map
  imports CCF_Prelude
begin

unbundle bit_operations_syntax

text \<open>
  The persistent hash map of \<^verbatim>\<open>src/ds/champ_map.h\<close>, a compressed trie on the 32-bit hash of the
  keys: five bits of the hash select a branch at each of six levels, and keys that agree on all of them
  share a node of four bins. A node is an untyped pointer in the source, which a cast reads as an entry,
  a node of bins or a node of branches; a cast to a kind that the node is not, and an access outside
  a vector, are undefined behaviour, here the result \<open>None\<close>.

  The hash \<open>h\<close> of a key, truncated to 32 bits as the conversion to \<^verbatim>\<open>Hash\<close> does, and the serialised
  size \<open>esz\<close> of an entry with its padding are arguments, as they are template parameters in the source.
\<close>

section \<open>Hashes and bitmaps\<close>

definition index_mask_bits :: nat where
  "index_mask_bits = 5"

definition index_mask :: "32 word" where
  "index_mask = push_bit index_mask_bits 1 - 1"

definition collision_depth :: nat where
  "collision_depth = 32 div index_mask_bits"

definition collision_bins :: nat where
  "collision_bins = 2 ^ (32 mod index_mask_bits)"

definition mask_at :: "32 word \<Rightarrow> nat \<Rightarrow> nat" where
  "mask_at hash depth = unat (drop_bit (depth * index_mask_bits) hash AND index_mask)"

type_synonym bitmap = "32 word"

definition bm_pop :: "bitmap \<Rightarrow> nat" where
  "bm_pop b = length (filter (bit b) [0 ..< 32])"

definition bm_set :: "bitmap \<Rightarrow> nat \<Rightarrow> bitmap" where
  "bm_set b idx = b OR push_bit idx 1"

definition bm_clear :: "bitmap \<Rightarrow> nat \<Rightarrow> bitmap" where
  "bm_clear b idx = b AND NOT (push_bit idx 1)"

definition bm_check :: "bitmap \<Rightarrow> nat \<Rightarrow> bool" where
  "bm_check b idx \<longleftrightarrow> b AND push_bit idx 1 \<noteq> 0"

section \<open>Nodes\<close>

datatype ('k, 'v) node =
  Entry 'k 'v
| Collisions "('k \<times> 'v) list list"
| SubNodes "('k, 'v) node list" bitmap bitmap

text \<open>The bins of a node whose keys agree on six levels. Updates return the size of what they replace.\<close>

definition coll_getp :: "32 word \<Rightarrow> 'k \<Rightarrow> ('k \<times> 'v) list list \<Rightarrow> 'v option" where
  "coll_getp hash k bins = map_of (bins ! mask_at hash collision_depth) k"

definition coll_put_mut ::
  "('k \<Rightarrow> 'v \<Rightarrow> nat) \<Rightarrow> 32 word \<Rightarrow> 'k \<Rightarrow> 'v \<Rightarrow> ('k \<times> 'v) list list \<Rightarrow> ('k \<times> 'v) list list \<times> nat"
where
  "coll_put_mut esz hash k v bins =
     (let idx = mask_at hash collision_depth; bin = bins ! idx in
      case map_of bin k of
        Some v0 \<Rightarrow> (bins[idx := AList.update k v bin], esz k v0)
      | None \<Rightarrow> (bins[idx := bin @ [(k, v)]], 0))"

definition coll_remove_mut ::
  "('k \<Rightarrow> 'v \<Rightarrow> nat) \<Rightarrow> 32 word \<Rightarrow> 'k \<Rightarrow> ('k \<times> 'v) list list \<Rightarrow> ('k \<times> 'v) list list \<times> nat"
where
  "coll_remove_mut esz hash k bins =
     (let idx = mask_at hash collision_depth; bin = bins ! idx in
      case map_of bin k of
        Some v0 \<Rightarrow> (bins[idx := remove1 (k, v0) bin], esz k v0)
      | None \<Rightarrow> (bins, 0))"

text \<open>
  The position of a branch in the vector of a node, entries first; \<open>None\<close> stands for the index
  \<^verbatim>\<open>-1\<close>, 255 as a \<^verbatim>\<open>SmallIndex\<close>, which no position of the at most 64 reaches.
\<close>

definition compressed_idx :: "bitmap \<Rightarrow> bitmap \<Rightarrow> nat \<Rightarrow> nat option" where
  "compressed_idx nm dm idx =
     (if \<not> bm_check nm idx \<and> \<not> bm_check dm idx then None
      else let m = NOT (push_bit idx (- 1)) in
        if bm_check dm idx then Some (bm_pop (dm AND m))
        else Some (bm_pop dm + bm_pop (nm AND m)))"

definition insert_at :: "nat \<Rightarrow> 'a \<Rightarrow> 'a list \<Rightarrow> 'a list" where
  "insert_at c x xs = take c xs @ x # drop c xs"

definition erase_at :: "nat \<Rightarrow> 'a list \<Rightarrow> 'a list" where
  "erase_at c xs = take c xs @ drop (Suc c) xs"

text \<open>\<open>insert_node\<close> is \<^verbatim>\<open>c_idx = compressed_idx(idx); nodes.insert(nodes.begin() + c_idx, node)\<close>.\<close>

definition insert_node ::
  "nat \<Rightarrow> ('k, 'v) node \<Rightarrow> ('k, 'v) node list \<Rightarrow> bitmap \<Rightarrow> bitmap \<Rightarrow> ('k, 'v) node option"
where
  "insert_node idx x ns nm dm =
     (case compressed_idx nm dm idx of
        None \<Rightarrow> None
      | Some c \<Rightarrow> if length ns < c then None else Some (SubNodes (insert_at c x ns) nm dm))"

function getp :: "nat \<Rightarrow> 32 word \<Rightarrow> 'k \<Rightarrow> ('k, 'v) node \<Rightarrow> 'v option option" where
  "getp depth hash k (SubNodes ns nm dm) =
     (let idx = mask_at hash depth in
      case compressed_idx nm dm idx of
        None \<Rightarrow> Some None
      | Some c \<Rightarrow>
          if length ns \<le> c then None
          else if bm_check dm idx then
            (case ns ! c of Entry k0 v0 \<Rightarrow> Some (if k = k0 then Some v0 else None) | _ \<Rightarrow> None)
          else if depth = collision_depth - 1 then
            (case ns ! c of Collisions bins \<Rightarrow> Some (coll_getp hash k bins) | _ \<Rightarrow> None)
          else getp (depth + 1) hash k (ns ! c))"
| "getp depth hash k (Entry k0 v0) = None"
| "getp depth hash k (Collisions bins) = None"
  by pat_completeness auto
termination
  by (relation "measure (\<lambda>(_, _, _, nd). size nd)")
    (auto simp: not_le dest!: nth_mem size_list_estimation' [OF _ order_refl, where f = size])

function put_mut ::
  "('k \<Rightarrow> 32 word) \<Rightarrow> ('k \<Rightarrow> 'v \<Rightarrow> nat) \<Rightarrow> nat \<Rightarrow> 32 word \<Rightarrow> 'k \<Rightarrow> 'v \<Rightarrow> ('k, 'v) node \<Rightarrow>
   (('k, 'v) node \<times> nat) option"
where
  "put_mut h esz depth hash k v (SubNodes ns nm dm) =
     (let idx = mask_at hash depth in
      case compressed_idx nm dm idx of
        None \<Rightarrow> map_option (\<lambda>sn. (sn, 0)) (insert_node idx (Entry k v) ns nm (bm_set dm idx))
      | Some c \<Rightarrow>
          if length ns \<le> c then None
          else if bm_check nm idx then
            (if depth < collision_depth - 1 then
               map_option (\<lambda>(sn, r). (SubNodes (ns[c := sn]) nm dm, r))
                 (put_mut h esz (depth + 1) hash k v (ns ! c))
             else
               (case ns ! c of
                  Collisions bins \<Rightarrow>
                    (let (bins', r) = coll_put_mut esz hash k v bins
                     in Some (SubNodes (ns[c := Collisions bins']) nm dm, r))
                | _ \<Rightarrow> None))
          else
            (case ns ! c of
               Entry k0 v0 \<Rightarrow>
                 if k = k0 then Some (SubNodes (ns[c := Entry k v]) nm dm, esz k0 v0)
                 else
                   (case
                      (if depth < collision_depth - 1 then
                         map_option fst
                           (put_mut h esz (depth + 1) hash k v
                              (SubNodes [Entry k0 v0] 0 (bm_set 0 (mask_at (h k0) (depth + 1)))))
                       else
                         (let bins = replicate collision_bins [];
                              idx0 = mask_at (h k0) collision_depth;
                              bins = bins[idx0 := bins ! idx0 @ [(k0, v0)]];
                              idx1 = mask_at hash collision_depth
                          in Some (Collisions (bins[idx1 := bins ! idx1 @ [(k, v)]])))) of
                      None \<Rightarrow> None
                    | Some sub \<Rightarrow>
                        map_option (\<lambda>sn. (sn, 0))
                          (insert_node idx sub (erase_at c ns) (bm_set nm idx) (bm_clear dm idx)))
             | _ \<Rightarrow> None))"
| "put_mut h esz depth hash k v (Entry k0 v0) = None"
| "put_mut h esz depth hash k v (Collisions bins) = None"
  by pat_completeness auto
termination
  by (relation "measure (\<lambda>(_, _, depth, _). collision_depth - depth)") auto

function remove_mut ::
  "('k \<Rightarrow> 'v \<Rightarrow> nat) \<Rightarrow> nat \<Rightarrow> 32 word \<Rightarrow> 'k \<Rightarrow> ('k, 'v) node \<Rightarrow> (('k, 'v) node \<times> nat) option"
where
  "remove_mut esz depth hash k (SubNodes ns nm dm) =
     (let idx = mask_at hash depth in
      case compressed_idx nm dm idx of
        None \<Rightarrow> Some (SubNodes ns nm dm, 0)
      | Some c \<Rightarrow>
          if length ns \<le> c then None
          else if bm_check dm idx then
            (case ns ! c of
               Entry k0 v0 \<Rightarrow>
                 if k0 \<noteq> k then Some (SubNodes ns nm dm, 0)
                 else Some (SubNodes (erase_at c ns) nm (bm_clear dm idx), esz k0 v0)
             | _ \<Rightarrow> None)
          else if depth = collision_depth - 1 then
            (case ns ! c of
               Collisions bins \<Rightarrow>
                 (let (bins', r) = coll_remove_mut esz hash k bins
                  in Some (SubNodes (ns[c := Collisions bins']) nm dm, r))
             | _ \<Rightarrow> None)
          else
            map_option (\<lambda>(sn, r). (SubNodes (ns[c := sn]) nm dm, r))
              (remove_mut esz (depth + 1) hash k (ns ! c)))"
| "remove_mut esz depth hash k (Entry k0 v0) = None"
| "remove_mut esz depth hash k (Collisions bins) = None"
  by pat_completeness auto
termination
  by (relation "measure (\<lambda>(_, _, _, _, nd). size nd)")
    (auto simp: not_le dest!: nth_mem size_list_estimation' [OF _ order_refl, where f = size])

text \<open>
  The entries in the order in which \<^verbatim>\<open>foreach\<close> visits them, and the visit itself, which ends as soon as
  the functor returns false.
\<close>

function node_elems :: "nat \<Rightarrow> ('k, 'v) node \<Rightarrow> ('k \<times> 'v) list option" where
  "node_elems depth (SubNodes ns nm dm) =
     (let entries = bm_pop dm in
      if length ns < entries then None
      else
        case those (map (\<lambda>nd. case nd of Entry k v \<Rightarrow> Some (k, v) | _ \<Rightarrow> None) (take entries ns)) of
          None \<Rightarrow> None
        | Some es \<Rightarrow>
            map_option (\<lambda>rest. es @ concat rest)
              (those (map (\<lambda>nd.
                   if depth = collision_depth - 1
                   then (case nd of Collisions bins \<Rightarrow> Some (concat bins) | _ \<Rightarrow> None)
                   else node_elems (depth + 1) nd) (drop entries ns))))"
| "node_elems depth (Entry k0 v0) = None"
| "node_elems depth (Collisions bins) = None"
  by pat_completeness auto
termination
  by (relation "measure (\<lambda>(_, nd). size nd)")
    (auto simp: less_Suc_eq_le dest!: in_set_dropD intro!: trans_le_add1 size_list_estimation')

fun visit_all :: "('k \<Rightarrow> 'v \<Rightarrow> 's \<Rightarrow> 's \<times> bool) \<Rightarrow> ('k \<times> 'v) list \<Rightarrow> 's \<Rightarrow> 's \<times> bool" where
  "visit_all f [] s = (s, True)"
| "visit_all f ((k, v) # es) s = (let (s', go) = f k v s in if go then visit_all f es s' else (s', False))"

section \<open>The map\<close>

record ('k, 'v) champ =
  champ_root :: "('k, 'v) node"
  map_size :: nat
  serialized_size :: nat

definition champ_empty :: "('k, 'v) champ" where
  "champ_empty = \<lparr>champ_root = SubNodes [] 0 0, map_size = 0, serialized_size = 0\<rparr>"

definition champ_getp :: "('k \<Rightarrow> 32 word) \<Rightarrow> ('k, 'v) champ \<Rightarrow> 'k \<Rightarrow> 'v option option" where
  "champ_getp h m k = getp 0 (h k) k (champ_root m)"

definition champ_put ::
  "('k \<Rightarrow> 32 word) \<Rightarrow> ('k \<Rightarrow> 'v \<Rightarrow> nat) \<Rightarrow> ('k, 'v) champ \<Rightarrow> 'k \<Rightarrow> 'v \<Rightarrow> ('k, 'v) champ option"
where
  "champ_put h esz m k v =
     map_option (\<lambda>(r, diff).
         \<lparr>champ_root = r,
          map_size = (if diff = 0 then add64 (map_size m) 1 else map_size m),
          serialized_size = add64 (sub64 (esz k v) diff) (serialized_size m)\<rparr>)
       (put_mut h esz 0 (h k) k v (champ_root m))"

definition champ_remove ::
  "('k \<Rightarrow> 32 word) \<Rightarrow> ('k \<Rightarrow> 'v \<Rightarrow> nat) \<Rightarrow> ('k, 'v) champ \<Rightarrow> 'k \<Rightarrow> ('k, 'v) champ option"
where
  "champ_remove h esz m k =
     map_option (\<lambda>(r, diff).
         \<lparr>champ_root = r,
          map_size = (if 0 < diff then sub64 (map_size m) 1 else map_size m),
          serialized_size = sub64 (serialized_size m) diff\<rparr>)
       (remove_mut esz 0 (h k) k (champ_root m))"

definition champ_foreach ::
  "('k \<Rightarrow> 'v \<Rightarrow> 's \<Rightarrow> 's \<times> bool) \<Rightarrow> ('k, 'v) champ \<Rightarrow> 's \<Rightarrow> ('s \<times> bool) option"
where
  "champ_foreach f m s = map_option (\<lambda>es. visit_all f es s) (node_elems 0 (champ_root m))"

section \<open>Compressed vectors\<close>

text \<open>
  The vector of a node holds the entries of the branches of its data map, then the nodes of the
  branches of its node map, each in ascending order of the branches.
\<close>

definition bits :: "bitmap \<Rightarrow> nat list" where
  "bits b = filter (bit b) [0 ..< 32]"

lemma index_mask_eq: "index_mask = mask 5"
  by (simp add: index_mask_def index_mask_bits_def mask_eq_exp_minus_1)

lemma mask_at_less [simp]: "mask_at hash depth < 32"
proof -
  have "drop_bit (depth * index_mask_bits) hash AND index_mask = take_bit 5 (drop_bit (depth * index_mask_bits) hash)"
    by (simp only: index_mask_eq take_bit_eq_mask)
  then show ?thesis
    using take_bit_nat_less_exp [of 5 "unat (drop_bit (depth * index_mask_bits) hash)"]
    by (simp add: mask_at_def unsigned_take_bit_eq)
qed

lemma depth_values [simp]: "collision_depth = 6" "collision_bins = 4"
  by (simp_all add: collision_depth_def collision_bins_def index_mask_bits_def)

lemma mask_at_collision: "mask_at hash 6 < 4"
proof -
  have "drop_bit 30 hash < 4"
  proof -
    have "unat (drop_bit 30 hash) = unat hash div 2 ^ 30" by (metis unat_drop_bit_eq drop_bit_eq_div)
    also have "\<dots> < 4" using unsigned_less [of hash, where ?'a = nat] by (simp add: less_mult_imp_div_less)
    finally show ?thesis by (simp add: word_less_nat_alt)
  qed
  moreover have "unat (drop_bit 30 hash AND index_mask) \<le> unat (drop_bit 30 hash)"
    by (simp add: word_and_le1 word_le_nat_alt [symmetric] word_and_le2)
  ultimately show ?thesis by (simp add: mask_at_def index_mask_bits_def word_less_nat_alt)
qed

lemma bit_bm_set: "i < 32 \<Longrightarrow> bit (bm_set b i) j \<longleftrightarrow> j = i \<or> bit b j"
  by (auto simp: bm_set_def bit_or_iff bit_exp_iff push_bit_eq_mult dest: bit_imp_le_length)

lemma bit_bm_clear: "bit (bm_clear b i) j \<longleftrightarrow> j \<noteq> i \<and> bit b j"
  by (auto simp: bm_clear_def bit_and_iff bit_not_iff bit_exp_iff push_bit_eq_mult dest: bit_imp_le_length)

lemma bm_check_iff: "i < 32 \<Longrightarrow> bm_check b i \<longleftrightarrow> bit b i"
  by (simp add: bm_check_def and_exp_eq_0_iff_not_bit)

lemma bit_below: "i < 32 \<Longrightarrow> bit (b AND NOT (push_bit i (- 1))) j \<longleftrightarrow> bit b j \<and> j < i" for b :: bitmap
  by (auto simp: bit_and_iff bit_mask_iff push_bit_minus_one_eq_not_mask dest: bit_imp_le_length)

lemma set_bits: "set (bits b) = {i. bit b i}"
  by (auto simp: bits_def dest: bit_imp_le_length)

lemma distinct_bits: "distinct (bits b)"
  by (simp add: bits_def)

lemma bits_split:
  assumes "i < 32"
  shows "bits b = filter (bit b) [0 ..< i] @ (if bit b i then [i] else []) @ filter (bit b) [Suc i ..< 32]"
proof -
  have "[0 ..< 32] = [0 ..< i] @ i # [Suc i ..< 32]"
    using assms by (metis less_imp_le_nat upt_add_eq_append upt_conv_Cons le_add_diff_inverse zero_le)
  then show ?thesis by (simp add: bits_def)
qed

definition rank :: "bitmap \<Rightarrow> nat \<Rightarrow> nat" where
  "rank b i = length (filter (bit b) [0 ..< i])"

lemma bm_pop_below: "i < 32 \<Longrightarrow> bm_pop (b AND NOT (push_bit i (- 1))) = rank b i"
proof -
  assume i: "i < 32"
  define c where "c = b AND NOT (push_bit i (- 1))"
  have bit_c: "bit c j \<longleftrightarrow> bit b j \<and> j < i" for j by (simp only: c_def bit_below i)
  have "filter (bit c) [0 ..< i] = filter (bit b) [0 ..< i]"
    by (rule filter_cong) (auto simp: bit_c)
  moreover have "filter (bit c) [Suc i ..< 32] = []" by (auto simp: filter_empty_conv bit_c)
  ultimately have "bm_pop c = rank b i"
    using bits_split [OF i, of c] by (simp add: bm_pop_def bits_def [symmetric] rank_def bit_c)
  then show ?thesis by (simp only: c_def)
qed

lemma bm_pop_bits: "bm_pop b = length (bits b)"
  by (simp add: bm_pop_def bits_def)

lemma rank_bm_set [simp]: "i < 32 \<Longrightarrow> rank (bm_set b i) i = rank b i"
  by (auto simp: rank_def bit_bm_set intro!: arg_cong [where f = length] filter_cong)

lemma rank_bm_clear [simp]: "rank (bm_clear b i) i = rank b i"
  by (auto simp: rank_def bit_bm_clear intro!: arg_cong [where f = length] filter_cong)

lemma bits_around:
  assumes "i < 32"
  obtains xs ys where "length xs = rank b i" "i \<notin> set xs" "i \<notin> set ys"
    "bits b = xs @ (if bit b i then [i] else []) @ ys"
    "bits (bm_set b i) = xs @ i # ys" "bits (bm_clear b i) = xs @ ys"
proof
  let ?xs = "filter (bit b) [0 ..< i]" and ?ys = "filter (bit b) [Suc i ..< 32]"
  show "length ?xs = rank b i" "i \<notin> set ?xs" "i \<notin> set ?ys" by (simp_all add: rank_def)
  show "bits b = ?xs @ (if bit b i then [i] else []) @ ?ys" by (rule bits_split [OF assms])
  have "filter (bit (bm_set b i)) [0 ..< i] = ?xs" "filter (bit (bm_set b i)) [Suc i ..< 32] = ?ys"
    by (auto simp: bit_bm_set assms intro!: filter_cong)
  then show "bits (bm_set b i) = ?xs @ i # ?ys"
    using bits_split [OF assms, of "bm_set b i"] by (simp add: bit_bm_set assms)
  have "filter (bit (bm_clear b i)) [0 ..< i] = ?xs" "filter (bit (bm_clear b i)) [Suc i ..< 32] = ?ys"
    by (auto simp: bit_bm_clear intro!: filter_cong)
  then show "bits (bm_clear b i) = ?xs @ ?ys"
    using bits_split [OF assms, of "bm_clear b i"] by (simp add: bit_bm_clear)
qed

lemma rank_less: "i < 32 \<Longrightarrow> bit b i \<Longrightarrow> rank b i < length (bits b)"
  by (rule bits_around [of i b]) auto

lemma rank_le: "i < 32 \<Longrightarrow> rank b i \<le> length (bits b)"
  by (rule bits_around [of i b]) auto

lemma bits_nth: "i < 32 \<Longrightarrow> bit b i \<Longrightarrow> bits b ! rank b i = i"
  by (rule bits_around [of i b]) (auto simp: nth_append)

lemma map_bits_update:
  assumes "i < 32" "bit b i"
  shows "(map f (bits b))[rank b i := x] = map (f(i := x)) (bits b)"
  using assms(1)
proof (rule bits_around [of i b])
  fix xs ys
  assume "length xs = rank b i" "i \<notin> set xs" "i \<notin> set ys" "bits b = xs @ (if bit b i then [i] else []) @ ys"
  then show ?thesis using assms(2) by (simp add: list_update_append)
qed

lemma map_bits_insert:
  assumes "i < 32" "\<not> bit b i"
  shows "insert_at (rank b i) x (map f (bits b)) = map (f(i := x)) (bits (bm_set b i))"
  using assms(1)
proof (rule bits_around [of i b])
  fix xs ys
  assume "length xs = rank b i" "i \<notin> set xs" "i \<notin> set ys" "bits b = xs @ (if bit b i then [i] else []) @ ys"
    "bits (bm_set b i) = xs @ i # ys"
  then show ?thesis using assms(2) by (simp add: insert_at_def)
qed

lemma map_bits_erase:
  assumes "i < 32" "bit b i"
  shows "erase_at (rank b i) (map f (bits b)) = map f (bits (bm_clear b i))"
  using assms(1)
proof (rule bits_around [of i b])
  fix xs ys
  assume "length xs = rank b i" "bits b = xs @ (if bit b i then [i] else []) @ ys"
    "bits (bm_clear b i) = xs @ ys"
  then show ?thesis using assms(2) by (simp add: erase_at_def)
qed

lemma compressed_idx_cases:
  assumes "i < 32"
  shows "compressed_idx nm dm i =
    (if bit dm i then Some (rank dm i) else if bit nm i then Some (length (bits dm) + rank nm i) else None)"
  using bm_pop_below [OF assms, of dm] bm_pop_below [OF assms, of nm]
  by (simp add: compressed_idx_def bm_check_iff assms bm_pop_bits)

text \<open>The vector as the branches give it, and what each change of the code does to it.\<close>

definition branches :: "(nat \<Rightarrow> 'a) \<Rightarrow> (nat \<Rightarrow> 'a) \<Rightarrow> bitmap \<Rightarrow> bitmap \<Rightarrow> 'a list" where
  "branches e n nm dm = map e (bits dm) @ map n (bits nm)"

lemma length_branches: "length (branches e n nm dm) = length (bits dm) + length (bits nm)"
  by (simp add: branches_def)

lemma branches_data:
  assumes "i < 32" "bit dm i"
  shows "rank dm i < length (branches e n nm dm)" "branches e n nm dm ! rank dm i = e i"
    "(branches e n nm dm)[rank dm i := x] = branches (e(i := x)) n nm dm"
    "erase_at (rank dm i) (branches e n nm dm) = branches e n nm (bm_clear dm i)"
proof -
  note l = rank_less [OF assms]
  show "rank dm i < length (branches e n nm dm)" "branches e n nm dm ! rank dm i = e i"
    using l assms by (simp_all add: branches_def nth_append bits_nth)
  show "(branches e n nm dm)[rank dm i := x] = branches (e(i := x)) n nm dm"
    using l map_bits_update [OF assms] by (simp add: branches_def list_update_append1)
  show "erase_at (rank dm i) (branches e n nm dm) = branches e n nm (bm_clear dm i)"
    using l map_bits_erase [OF assms, of e] by (simp add: branches_def erase_at_def)
qed

lemma branches_node:
  assumes "i < 32" "bit nm i"
  shows "length (bits dm) + rank nm i < length (branches e n nm dm)"
    "branches e n nm dm ! (length (bits dm) + rank nm i) = n i"
    "(branches e n nm dm)[length (bits dm) + rank nm i := x] = branches e (n(i := x)) nm dm"
  using rank_less [OF assms] assms map_bits_update [OF assms]
  by (simp_all add: branches_def nth_append bits_nth list_update_append)

lemma insert_node_data:
  assumes "i < 32" "\<not> bit dm i"
  shows "insert_node i x (branches e n nm dm) nm (bm_set dm i) =
    Some (SubNodes (branches (e(i := x)) n nm (bm_set dm i)) nm (bm_set dm i))"
  using rank_le [OF assms(1), of dm] map_bits_insert [OF assms]
  by (simp add: insert_node_def compressed_idx_cases assms(1) bit_bm_set branches_def insert_at_def)

lemma insert_node_node:
  assumes "i < 32" "\<not> bit nm i" "\<not> bit dm i"
  shows "insert_node i x (branches e n nm dm) (bm_set nm i) dm =
    Some (SubNodes (branches e (n(i := x)) (bm_set nm i) dm) (bm_set nm i) dm)"
  using rank_le [OF assms(1), of nm] map_bits_insert [OF assms(1,2)] assms(3)
  by (simp add: insert_node_def compressed_idx_cases assms(1) bit_bm_set branches_def insert_at_def)

section \<open>One level of the trie\<close>

declare getp.simps [simp del] put_mut.simps [simp del] remove_mut.simps [simp del] node_elems.simps [simp del]

lemma branches_in_range:
  "i < 32 \<Longrightarrow> bit dm i \<Longrightarrow> (length (branches e n nm dm) \<le> rank dm i) = False"
  "i < 32 \<Longrightarrow> bit nm i \<Longrightarrow> (length (branches e n nm dm) \<le> length (bits dm) + rank nm i) = False"
  using branches_data(1) [of i dm e n nm] branches_node(1) [of i nm dm e n] by auto

text \<open>The child of a branch, which is a node of bins below the last level and a node of branches above.\<close>

definition cgetp :: "nat \<Rightarrow> 32 word \<Rightarrow> 'k \<Rightarrow> ('k, 'v) node \<Rightarrow> 'v option option" where
  "cgetp d hash k x =
     (if d = 5 then (case x of Collisions bins \<Rightarrow> Some (coll_getp hash k bins) | _ \<Rightarrow> None)
      else getp (Suc d) hash k x)"

definition cput ::
  "('k \<Rightarrow> 32 word) \<Rightarrow> ('k \<Rightarrow> 'v \<Rightarrow> nat) \<Rightarrow> nat \<Rightarrow> 32 word \<Rightarrow> 'k \<Rightarrow> 'v \<Rightarrow> ('k, 'v) node \<Rightarrow>
   (('k, 'v) node \<times> nat) option"
where
  "cput h esz d hash k v x =
     (if d < 5 then put_mut h esz (Suc d) hash k v x
      else (case x of
          Collisions bins \<Rightarrow> (let (bins', r) = coll_put_mut esz hash k v bins in Some (Collisions bins', r))
        | _ \<Rightarrow> None))"

definition csplit ::
  "('k \<Rightarrow> 32 word) \<Rightarrow> ('k \<Rightarrow> 'v \<Rightarrow> nat) \<Rightarrow> nat \<Rightarrow> 'k \<Rightarrow> 'v \<Rightarrow> 32 word \<Rightarrow> 'k \<Rightarrow> 'v \<Rightarrow> ('k, 'v) node option"
where
  "csplit h esz d k0 v0 hash k v =
     (if d < 5 then
        map_option fst
          (put_mut h esz (Suc d) hash k v (SubNodes [Entry k0 v0] 0 (bm_set 0 (mask_at (h k0) (Suc d)))))
      else
        (let bins = replicate 4 []; idx0 = mask_at (h k0) 6; bins = bins[idx0 := bins ! idx0 @ [(k0, v0)]];
             idx1 = mask_at hash 6
         in Some (Collisions (bins[idx1 := bins ! idx1 @ [(k, v)]]))))"

definition cremove ::
  "('k \<Rightarrow> 'v \<Rightarrow> nat) \<Rightarrow> nat \<Rightarrow> 32 word \<Rightarrow> 'k \<Rightarrow> ('k, 'v) node \<Rightarrow> (('k, 'v) node \<times> nat) option"
where
  "cremove esz d hash k x =
     (if d = 5 then (case x of
          Collisions bins \<Rightarrow> (let (bins', r) = coll_remove_mut esz hash k bins in Some (Collisions bins', r))
        | _ \<Rightarrow> None)
      else remove_mut esz (Suc d) hash k x)"

abbreviation disjoint_maps :: "bitmap \<Rightarrow> bitmap \<Rightarrow> bool" where
  "disjoint_maps nm dm \<equiv> (\<forall>i. \<not> (bit nm i \<and> bit dm i))"

lemma getp_branches:
  "getp d hash k (SubNodes (branches e f nm dm) nm dm) =
     (let i = mask_at hash d in
      if bit dm i then (case e i of Entry k0 v0 \<Rightarrow> Some (if k = k0 then Some v0 else None) | _ \<Rightarrow> None)
      else if bit nm i then cgetp d hash k (f i)
      else Some None)"
  using mask_at_less [of hash d]
  by (simp add: getp.simps(1) [of d] Let_def compressed_idx_cases bm_check_iff branches_data(2)
      branches_node(2) branches_in_range cgetp_def)

lemma put_mut_branches:
  assumes "disjoint_maps nm dm"
  shows "put_mut h esz d hash k v (SubNodes (branches e f nm dm) nm dm) =
     (let i = mask_at hash d in
      if bit dm i then
        (case e i of
           Entry k0 v0 \<Rightarrow>
             if k = k0 then Some (SubNodes (branches (e(i := Entry k v)) f nm dm) nm dm, esz k0 v0)
             else map_option (\<lambda>x.
                 (SubNodes (branches e (f(i := x)) (bm_set nm i) (bm_clear dm i)) (bm_set nm i) (bm_clear dm i), 0))
               (csplit h esz d k0 v0 hash k v)
         | _ \<Rightarrow> None)
      else if bit nm i then
        map_option (\<lambda>(x, r). (SubNodes (branches e (f(i := x)) nm dm) nm dm, r)) (cput h esz d hash k v (f i))
      else Some (SubNodes (branches (e(i := Entry k v)) f nm (bm_set dm i)) nm (bm_set dm i), 0))"
proof -
  define i where "i = mask_at hash d"
  have i: "i < 32" by (simp add: i_def mask_at_less)
  consider "bit dm i" "\<not> bit nm i" | "\<not> bit dm i" "bit nm i" | "\<not> bit dm i" "\<not> bit nm i"
    using assms by blast
  then show ?thesis
  proof cases
    case 1
    have "insert_node i x (branches e f nm (bm_clear dm i)) (bm_set nm i) (bm_clear dm i) =
        Some (SubNodes (branches e (f(i := x)) (bm_set nm i) (bm_clear dm i)) (bm_set nm i) (bm_clear dm i))" for x
      using 1 i by (simp add: insert_node_node bit_bm_clear)
    then show ?thesis
      using 1 i
      by (simp add: put_mut.simps(1) [of _ _ d] i_def [symmetric] Let_def compressed_idx_cases bm_check_iff
          branches_data branches_in_range csplit_def option.map_comp comp_def split: node.split option.split)
  next
    case 2
    then show ?thesis
      using i
      by (simp add: put_mut.simps(1) [of _ _ d] i_def [symmetric] Let_def compressed_idx_cases bm_check_iff
          branches_node branches_in_range cput_def case_prod_beta split: node.split)
  next
    case 3
    then show ?thesis
      using i by (simp add: put_mut.simps(1) [of _ _ d] i_def [symmetric] Let_def compressed_idx_cases insert_node_data)
  qed
qed

lemma remove_mut_branches:
  assumes "disjoint_maps nm dm"
  shows "remove_mut esz d hash k (SubNodes (branches e f nm dm) nm dm) =
     (let i = mask_at hash d in
      if bit dm i then
        (case e i of
           Entry k0 v0 \<Rightarrow>
             if k0 \<noteq> k then Some (SubNodes (branches e f nm dm) nm dm, 0)
             else Some (SubNodes (branches e f nm (bm_clear dm i)) nm (bm_clear dm i), esz k0 v0)
         | _ \<Rightarrow> None)
      else if bit nm i then
        map_option (\<lambda>(x, r). (SubNodes (branches e (f(i := x)) nm dm) nm dm, r)) (cremove esz d hash k (f i))
      else Some (SubNodes (branches e f nm dm) nm dm, 0))"
proof -
  define i where "i = mask_at hash d"
  have i: "i < 32" by (simp add: i_def)
  consider "bit dm i" "\<not> bit nm i" | "\<not> bit dm i" "bit nm i" | "\<not> bit dm i" "\<not> bit nm i"
    using assms by blast
  then show ?thesis
  proof cases
    case 1
    then show ?thesis
      using i
      by (simp add: remove_mut.simps(1) [of _ d] i_def [symmetric] Let_def compressed_idx_cases bm_check_iff
          branches_data branches_in_range split: node.split)
  next
    case 2
    then show ?thesis
      using i
      by (simp add: remove_mut.simps(1) [of _ d] i_def [symmetric] Let_def compressed_idx_cases bm_check_iff
          branches_node branches_in_range cremove_def case_prod_beta split: node.split)
  next
    case 3
    then show ?thesis
      using i by (simp add: remove_mut.simps(1) [of _ d] i_def [symmetric] Let_def compressed_idx_cases)
  qed
qed

section \<open>Well-formed tries\<close>

text \<open>
  The invariant of a node at a level: its two maps are disjoint, its vector is as long as they say, and
  below the branch \<open>i\<close> there are only keys whose hash selects \<open>i\<close>. The predicate \<open>P\<close> collects what the
  levels above have selected.
\<close>

definition coll_ok :: "('k \<Rightarrow> 32 word) \<Rightarrow> ('k \<Rightarrow> bool) \<Rightarrow> ('k \<times> 'v) list list \<Rightarrow> bool" where
  "coll_ok h P bins \<longleftrightarrow> length bins = 4 \<and>
     (\<forall>i<4. distinct (map fst (bins ! i)) \<and> (\<forall>kv\<in>set (bins ! i). P (fst kv) \<and> mask_at (h (fst kv)) 6 = i))"

function node_ok :: "('k \<Rightarrow> 32 word) \<Rightarrow> nat \<Rightarrow> ('k \<Rightarrow> bool) \<Rightarrow> ('k, 'v) node \<Rightarrow> bool" where
  "node_ok h d P nd \<longleftrightarrow>
     (\<exists>e f nm dm. nd = SubNodes (branches e f nm dm) nm dm \<and> disjoint_maps nm dm \<and>
        (\<forall>i. bit dm i \<longrightarrow> (\<exists>k v. e i = Entry k v \<and> P k \<and> mask_at (h k) d = i)) \<and>
        (\<forall>i. bit nm i \<longrightarrow>
           (if d < 5 then node_ok h (Suc d) (\<lambda>k. P k \<and> mask_at (h k) d = i) (f i)
            else \<exists>bins. f i = Collisions bins \<and> coll_ok h (\<lambda>k. P k \<and> mask_at (h k) d = i) bins)))"
  by pat_completeness auto
termination
  by (relation "measure (\<lambda>(_, d, _). 5 - d)") auto

declare node_ok.simps [simp del]

definition child_ok :: "('k \<Rightarrow> 32 word) \<Rightarrow> nat \<Rightarrow> ('k \<Rightarrow> bool) \<Rightarrow> ('k, 'v) node \<Rightarrow> bool" where
  "child_ok h d P x \<longleftrightarrow>
     (if d < 5 then node_ok h (Suc d) P x else \<exists>bins. x = Collisions bins \<and> coll_ok h P bins)"

lemma node_okI:
  assumes "disjoint_maps nm dm"
    "\<And>i. bit dm i \<Longrightarrow> \<exists>k v. e i = Entry k v \<and> P k \<and> mask_at (h k) d = i"
    "\<And>i. bit nm i \<Longrightarrow> child_ok h d (\<lambda>k. P k \<and> mask_at (h k) d = i) (f i)"
  shows "node_ok h d P (SubNodes (branches e f nm dm) nm dm)"
  unfolding node_ok.simps [of h d P] using assms unfolding child_ok_def by blast

lemma node_okE:
  assumes "node_ok h d P nd"
  obtains e f nm dm where "nd = SubNodes (branches e f nm dm) nm dm" "disjoint_maps nm dm"
    "\<And>i. bit dm i \<Longrightarrow> \<exists>k v. e i = Entry k v \<and> P k \<and> mask_at (h k) d = i"
    "\<And>i. bit nm i \<Longrightarrow> child_ok h d (\<lambda>k. P k \<and> mask_at (h k) d = i) (f i)"
  using assms unfolding node_ok.simps [of h d P] child_ok_def by blast

lemma node_ok_empty: "node_ok h d P (SubNodes [] 0 0)"
  using node_okI [of 0 0 _ P h d undefined] by (simp add: branches_def bits_def)

lemma node_ok_single:
  assumes "P k0"
  shows "node_ok h d P (SubNodes [Entry k0 v0] 0 (bm_set 0 (mask_at (h k0) d)))"
    "getp d hash k (SubNodes [Entry k0 v0] 0 (bm_set 0 (mask_at (h k0) d))) =
       Some (if k = k0 \<and> mask_at hash d = mask_at (h k0) d then Some v0 else None)"
proof -
  let ?i = "mask_at (h k0) d"
  have "bits (bm_set 0 ?i) = [?i]"
    by (rule bits_around [of ?i 0]) (simp_all add: bits_def)
  then have b: "[Entry k0 v0] = branches (\<lambda>_. Entry k0 v0) undefined 0 (bm_set 0 ?i)"
    by (simp add: branches_def bits_def [of 0])
  show "node_ok h d P (SubNodes [Entry k0 v0] 0 (bm_set 0 ?i))"
    unfolding b by (rule node_okI) (auto simp: bit_bm_set assms)
  show "getp d hash k (SubNodes [Entry k0 v0] 0 (bm_set 0 ?i)) =
       Some (if k = k0 \<and> mask_at hash d = ?i then Some v0 else None)"
    unfolding b getp_branches by (simp add: Let_def bit_bm_set)
qed

section \<open>Correctness of the operations\<close>

text \<open>What an update does to the lookups of the keys in question, and the size that it reports.\<close>

definition put_done ::
  "('x \<Rightarrow> bool) \<Rightarrow> ('k \<Rightarrow> 'x \<Rightarrow> 'v option option) \<Rightarrow> ('k \<Rightarrow> bool) \<Rightarrow> ('k \<Rightarrow> 'v \<Rightarrow> nat) \<Rightarrow> 'k \<Rightarrow> 'v option \<Rightarrow> 'x \<Rightarrow>
   ('x \<times> nat) option \<Rightarrow> bool"
where
  "put_done ok get P esz k ov x res \<longleftrightarrow>
     (\<exists>x' r. res = Some (x', r) \<and> ok x' \<and>
        r = (case get k x of Some (Some v0) \<Rightarrow> esz k v0 | _ \<Rightarrow> 0) \<and>
        (\<forall>k'. P k' \<longrightarrow> get k' x' = (if k' = k then Some ov else get k' x)))"

lemma coll_ok_update:
  assumes "coll_ok h P bins" "i < 4" "distinct (map fst bin)"
    "\<forall>kv\<in>set bin. P (fst kv) \<and> mask_at (h (fst kv)) 6 = i"
  shows "coll_ok h P (bins[i := bin])"
  using assms by (simp add: coll_ok_def nth_list_update)

lemma coll_getp_update:
  "length bins = 4 \<Longrightarrow>
   coll_getp hash k (bins[i := bin]) = (if mask_at hash 6 = i then map_of bin k else coll_getp hash k bins)"
  using mask_at_collision [of hash] by (simp add: coll_getp_def nth_list_update)

lemma set_AList_update: "kv \<in> set (AList.update k v xs) \<Longrightarrow> fst kv = k \<or> fst kv \<in> fst ` set xs"
  using dom_update [of k v xs] by (metis UnE image_eqI singletonD)

lemma coll_put_done:
  assumes "coll_ok h P bins" "P k"
  shows "put_done (child_ok h 5 P) (\<lambda>k x. cgetp 5 (h k) k x) P esz k (Some v) (Collisions bins)
    (cput h esz 5 (h k) k v (Collisions bins))"
proof -
  define i where "i = mask_at (h k) 6"
  have i: "i < 4" by (simp add: i_def mask_at_collision)
  have l: "length bins = 4" and d: "distinct (map fst (bins ! i))"
    and m: "kv \<in> set (bins ! i) \<Longrightarrow> P (fst kv) \<and> mask_at (h (fst kv)) 6 = i" for kv
    using assms(1) i by (auto simp: coll_ok_def)
  have k: "coll_getp (h k) k bins = map_of (bins ! i) k" by (simp add: coll_getp_def i_def)
  have upd: "put_done (child_ok h 5 P) (\<lambda>k x. cgetp 5 (h k) k x) P esz k (Some v) (Collisions bins)
      (Some (Collisions (bins[i := bin]), case map_of (bins ! i) k of Some v0 \<Rightarrow> esz k v0 | None \<Rightarrow> 0))"
    if bin: "distinct (map fst bin)" "\<forall>kv\<in>set bin. P (fst kv) \<and> mask_at (h (fst kv)) 6 = i"
      "\<And>k'. map_of bin k' = (if k' = k then Some v else map_of (bins ! i) k')" for bin
  proof -
    have "coll_getp (h k') k' (bins[i := bin]) = (if k' = k then Some v else coll_getp (h k') k' bins)" for k'
      using bin(3) [of k'] coll_getp_update [OF l, of "h k'" k' i bin]
      by (auto simp: coll_getp_def [of "h k'" k' bins] i_def)
    then show ?thesis
      using coll_ok_update [OF assms(1) i bin(1,2)] k
      by (simp add: put_done_def cgetp_def child_ok_def split: option.split)
  qed
  show ?thesis
  proof (cases "map_of (bins ! i) k")
    case None
    then have "k \<notin> fst ` set (bins ! i)" by (simp add: map_of_eq_None_iff)
    then show ?thesis
      using upd [of "bins ! i @ [(k, v)]"] None d m assms(2)
      by (simp add: cput_def coll_put_mut_def Let_def i_def map_add_def split: option.split)
  next
    case (Some v0)
    have "distinct (map fst (AList.update k v (bins ! i)))" by (rule distinct_update [OF d])
    moreover have "\<forall>kv\<in>set (AList.update k v (bins ! i)). P (fst kv) \<and> mask_at (h (fst kv)) 6 = i"
    proof
      fix kv
      assume "kv \<in> set (AList.update k v (bins ! i))"
      then have "fst kv = k \<or> fst kv \<in> fst ` set (bins ! i)" by (rule set_AList_update)
      then show "P (fst kv) \<and> mask_at (h (fst kv)) 6 = i" using m assms(2) i_def by auto
    qed
    ultimately show ?thesis
      using upd [of "AList.update k v (bins ! i)"] Some
      by (simp add: cput_def coll_put_mut_def Let_def i_def [symmetric])
  qed
qed

lemma map_of_remove1_first:
  assumes "distinct (map fst xs)" "map_of xs k = Some v0"
  shows "map_of (remove1 (k, v0) xs) k' = (if k' = k then None else map_of xs k')"
  using assms
proof (induction xs)
  case (Cons kv xs)
  obtain a b where kv: "kv = (a, b)" by (rule prod.exhaust)
  have n: "map_of xs a = None" using Cons.prems(1) by (simp add: kv map_of_eq_None_iff)
  show ?case
  proof (cases "a = k")
    case True
    then show ?thesis using Cons.prems(2) n by (simp add: kv)
  next
    case False
    then show ?thesis using Cons.prems Cons.IH by (auto simp: kv)
  qed
qed simp

lemma coll_remove_done:
  assumes "coll_ok h P bins"
  shows "put_done (child_ok h 5 P) (\<lambda>k x. cgetp 5 (h k) k x) P esz k None (Collisions bins)
    (cremove esz 5 (h k) k (Collisions bins))"
proof -
  define i where "i = mask_at (h k) 6"
  have i: "i < 4" by (simp add: i_def mask_at_collision)
  have l: "length bins = 4" and d: "distinct (map fst (bins ! i))"
    and m: "kv \<in> set (bins ! i) \<Longrightarrow> P (fst kv) \<and> mask_at (h (fst kv)) 6 = i" for kv
    using assms(1) i by (auto simp: coll_ok_def)
  show ?thesis
  proof (cases "map_of (bins ! i) k")
    case None
    then show ?thesis
      using assms
      by (simp add: put_done_def cremove_def coll_remove_mut_def Let_def i_def cgetp_def child_ok_def coll_getp_def)
  next
    case (Some v0)
    define bin where "bin = remove1 (k, v0) (bins ! i)"
    have "coll_ok h P (bins[i := bin])"
      using coll_ok_update [OF assms i, of bin] d m
      by (auto simp: bin_def distinct_map inj_on_def dest: notin_set_remove1 set_remove1_subset [THEN subsetD])
    moreover have "coll_getp (h k') k' (bins[i := bin]) = (if k' = k then None else coll_getp (h k') k' bins)" for k'
      using map_of_remove1_first [OF d Some, of k'] coll_getp_update [OF l, of "h k'" k' i bin]
      by (auto simp: coll_getp_def [of "h k'" k' bins] i_def bin_def)
    ultimately show ?thesis
      using Some
      by (simp add: put_done_def cremove_def coll_remove_mut_def Let_def i_def [symmetric] bin_def [symmetric]
          cgetp_def child_ok_def coll_getp_def [of "h k" k bins])
  qed
qed

text \<open>A new child for an entry of the node and the one that collides with it.\<close>

definition split_done ::
  "('x \<Rightarrow> bool) \<Rightarrow> ('k \<Rightarrow> 'x \<Rightarrow> 'v option option) \<Rightarrow> ('k \<Rightarrow> bool) \<Rightarrow> 'k \<Rightarrow> 'v \<Rightarrow> 'k \<Rightarrow> 'v \<Rightarrow> 'x option \<Rightarrow> bool"
where
  "split_done ok get P k0 v0 k v res \<longleftrightarrow>
     (\<exists>x. res = Some x \<and> ok x \<and>
        (\<forall>k'. P k' \<longrightarrow> get k' x = Some (if k' = k then Some v else if k' = k0 then Some v0 else None)))"

lemma csplit_bins_done:
  assumes "P k0" "P k" "k0 \<noteq> k"
  shows "split_done (child_ok h 5 P) (\<lambda>k x. cgetp 5 (h k) k x) P k0 v0 k v (csplit h esz 5 k0 v0 (h k) k v)"
proof -
  define i0 i1 where "i0 = mask_at (h k0) 6" and "i1 = mask_at (h k) 6"
  have i: "i0 < 4" "i1 < 4" by (simp_all add: i0_def i1_def mask_at_collision)
  define b0 :: "('a \<times> 'b) list list" where "b0 = (replicate 4 [])[i0 := [(k0, v0)]]"
  define b1 where "b1 = b0[i1 := b0 ! i1 @ [(k, v)]]"
  have "coll_ok h P (replicate 4 [])" by (simp add: coll_ok_def)
  then have ok0: "coll_ok h P b0"
    unfolding b0_def by (rule coll_ok_update) (use i assms in \<open>auto simp: i0_def\<close>)
  have l: "length b0 = 4" by (simp add: b0_def)
  have b0: "b0 ! i1 = (if i1 = i0 then [(k0, v0)] else [])" using i by (simp add: b0_def nth_list_update)
  have "coll_ok h P b1"
    unfolding b1_def by (rule coll_ok_update [OF ok0]) (use i assms b0 in \<open>auto simp: i0_def i1_def\<close>)
  moreover have "coll_getp (h k') k' b0 = (if k' = k0 then Some v0 else None)" for k'
    using coll_getp_update [of "replicate 4 []" "h k'" k' i0 "[(k0, v0)]"] mask_at_collision [of "h k'"]
    by (auto simp: b0_def coll_getp_def [of _ _ "replicate 4 []"] i0_def split: if_splits)
  moreover have "coll_getp (h k') k' b1 =
      (if mask_at (h k') 6 = i1 then map_of (b0 ! i1 @ [(k, v)]) k' else coll_getp (h k') k' b0)" for k'
    unfolding b1_def by (rule coll_getp_update [OF l])
  ultimately have "coll_ok h P b1"
    and "coll_getp (h k') k' b1 = (if k' = k then Some v else if k' = k0 then Some v0 else None)" for k'
    using assms(3) by (auto simp: b0 [unfolded i1_def i0_def] i1_def)
  then show ?thesis
    using i by (simp add: split_done_def csplit_def Let_def i0_def [symmetric] i1_def [symmetric] b0_def [symmetric]
        b1_def [symmetric] child_ok_def cgetp_def)
qed

lemma put_level:
  assumes ok: "node_ok h d P nd" and "P k"
    and child: "\<And>P' x. child_ok h d P' x \<Longrightarrow> P' k \<Longrightarrow>
      put_done (child_ok h d P') (\<lambda>k x. cgetp d (h k) k x) P' esz k (Some v) x (cput h esz d (h k) k v x)"
    and split: "\<And>P' k0 v0. P' k0 \<Longrightarrow> P' k \<Longrightarrow> k0 \<noteq> k \<Longrightarrow>
      split_done (child_ok h d P') (\<lambda>k x. cgetp d (h k) k x) P' k0 v0 k v (csplit h esz d k0 v0 (h k) k v)"
  shows "put_done (node_ok h d P) (\<lambda>k x. getp d (h k) k x) P esz k (Some v) nd (put_mut h esz d (h k) k v nd)"
  using ok
proof (rule node_okE)
  fix e f nm dm
  assume nd: "nd = SubNodes (branches e f nm dm) nm dm" and disj: "disjoint_maps nm dm"
    and data: "\<And>i. bit dm i \<Longrightarrow> \<exists>k v. e i = Entry k v \<and> P k \<and> mask_at (h k) d = i"
    and nodes: "\<And>i. bit nm i \<Longrightarrow> child_ok h d (\<lambda>k. P k \<and> mask_at (h k) d = i) (f i)"
  define i where "i = mask_at (h k) d"
  have i: "i < 32" by (simp add: i_def)
  consider (same) v0 where "bit dm i" "e i = Entry k v0" |
    (split) k0 v0 where "bit dm i" "e i = Entry k0 v0" "k0 \<noteq> k" "P k0" "mask_at (h k0) d = i" |
    (node) "\<not> bit dm i" "bit nm i" | (new) "\<not> bit dm i" "\<not> bit nm i"
    using data [of i] by blast
  then show ?thesis
  proof cases
    case same
    have "node_ok h d P (SubNodes (branches (e(i := Entry k v)) f nm dm) nm dm)"
      by (rule node_okI [OF disj]) (use data nodes \<open>P k\<close> in \<open>auto simp: i_def\<close>)
    then show ?thesis
      using same by (auto simp: put_done_def nd put_mut_branches [OF disj] getp_branches Let_def i_def [symmetric])
  next
    case split
    from assms(4) [of "\<lambda>k. P k \<and> mask_at (h k) d = i" k0 v0] split \<open>P k\<close> obtain x where
      x: "csplit h esz d k0 v0 (h k) k v = Some x" "child_ok h d (\<lambda>k. P k \<and> mask_at (h k) d = i) x"
        "\<And>k'. P k' \<and> mask_at (h k') d = i \<Longrightarrow>
           cgetp d (h k') k' x = Some (if k' = k then Some v else if k' = k0 then Some v0 else None)"
      unfolding split_done_def i_def by blast
    have "node_ok h d P (SubNodes (branches e (f(i := x)) (bm_set nm i) (bm_clear dm i)) (bm_set nm i) (bm_clear dm i))"
      by (rule node_okI) (use data nodes x(2) disj i in \<open>auto simp: bit_bm_set bit_bm_clear\<close>)
    then show ?thesis
      using split x(1,3) i
      by (auto simp: put_done_def nd put_mut_branches [OF disj] getp_branches Let_def i_def [symmetric]
          bit_bm_set bit_bm_clear)
  next
    case node
    from child [OF nodes [OF node(2)]] \<open>P k\<close> obtain x r where
      x: "cput h esz d (h k) k v (f i) = Some (x, r)" "child_ok h d (\<lambda>k. P k \<and> mask_at (h k) d = i) x"
        "r = (case cgetp d (h k) k (f i) of Some (Some v0) \<Rightarrow> esz k v0 | _ \<Rightarrow> 0)"
        "\<And>k'. P k' \<and> mask_at (h k') d = i \<Longrightarrow>
           cgetp d (h k') k' x = (if k' = k then Some (Some v) else cgetp d (h k') k' (f i))"
      unfolding put_done_def i_def by blast
    have "node_ok h d P (SubNodes (branches e (f(i := x)) nm dm) nm dm)"
      by (rule node_okI [OF disj]) (use data nodes x(2) in auto)
    then show ?thesis
      using node x(1,3,4)
      by (auto simp: put_done_def nd put_mut_branches [OF disj] getp_branches Let_def i_def [symmetric])
  next
    case new
    have "node_ok h d P (SubNodes (branches (e(i := Entry k v)) f nm (bm_set dm i)) nm (bm_set dm i))"
      by (rule node_okI) (use data nodes disj new i \<open>P k\<close> in \<open>auto simp: bit_bm_set i_def [symmetric]\<close>)
    then show ?thesis
      using new i
      by (auto simp: put_done_def nd put_mut_branches [OF disj] getp_branches Let_def i_def [symmetric] bit_bm_set)
  qed
qed

lemma put_mut_correct:
  "node_ok h d P nd \<Longrightarrow> P k \<Longrightarrow> d \<le> 5 \<Longrightarrow>
   put_done (node_ok h d P) (\<lambda>k x. getp d (h k) k x) P esz k (Some v) nd (put_mut h esz d (h k) k v nd)"
proof (induction "5 - d" arbitrary: d P nd)
  case 0
  then have [simp]: "d = 5" by simp
  show ?case
  proof (rule put_level [OF 0(2,3)])
    fix P' :: "'a \<Rightarrow> bool" and x :: "('a, 'b) node"
    assume "child_ok h d P' x" "P' k"
    then show "put_done (child_ok h d P') (\<lambda>k x. cgetp d (h k) k x) P' esz k (Some v) x (cput h esz d (h k) k v x)"
      using coll_put_done by (auto simp: child_ok_def [of h 5 P' x])
  qed (use csplit_bins_done in auto)
next
  case (Suc n)
  then have d: "d < 5" "Suc d \<le> 5" "n = 5 - Suc d" by auto
  note IH = Suc.hyps(1) [OF d(3) _ _ d(2)]
  show ?case
  proof (rule put_level [OF Suc.prems(1,2)])
    fix P' :: "'a \<Rightarrow> bool" and x :: "('a, 'b) node"
    assume "child_ok h d P' x" "P' k"
    then show "put_done (child_ok h d P') (\<lambda>k x. cgetp d (h k) k x) P' esz k (Some v) x (cput h esz d (h k) k v x)"
      using IH [of P' x] d(1) by (simp add: child_ok_def [abs_def] cgetp_def cput_def)
  next
    fix P' :: "'a \<Rightarrow> bool" and k0 and v0 :: 'b
    assume P': "P' k0" "P' k" and "k0 \<noteq> k"
    let ?s = "SubNodes [Entry k0 v0] 0 (bm_set 0 (mask_at (h k0) (Suc d)))"
    have "getp (Suc d) (h k') k' ?s = Some (if k' = k0 then Some v0 else None)" for k'
      using node_ok_single(2) [of P' k0 "Suc d" "h k'" k' v0 h, OF P'(1)] by (auto split: if_splits)
    then show "split_done (child_ok h d P') (\<lambda>k x. cgetp d (h k) k x) P' k0 v0 k v (csplit h esz d k0 v0 (h k) k v)"
      using IH [OF node_ok_single(1) [of P' k0 h "Suc d" v0, OF P'(1)] P'(2)] d(1)
      by (auto simp: put_done_def split_done_def csplit_def child_ok_def cgetp_def)
  qed
qed

lemma remove_level:
  assumes ok: "node_ok h d P nd" and "P k"
    and child: "\<And>P' x. child_ok h d P' x \<Longrightarrow> P' k \<Longrightarrow>
      put_done (child_ok h d P') (\<lambda>k x. cgetp d (h k) k x) P' esz k None x (cremove esz d (h k) k x)"
  shows "put_done (node_ok h d P) (\<lambda>k x. getp d (h k) k x) P esz k None nd (remove_mut esz d (h k) k nd)"
  using ok
proof (rule node_okE)
  fix e f nm dm
  assume nd: "nd = SubNodes (branches e f nm dm) nm dm" and disj: "disjoint_maps nm dm"
    and data: "\<And>i. bit dm i \<Longrightarrow> \<exists>k v. e i = Entry k v \<and> P k \<and> mask_at (h k) d = i"
    and nodes: "\<And>i. bit nm i \<Longrightarrow> child_ok h d (\<lambda>k. P k \<and> mask_at (h k) d = i) (f i)"
  define i where "i = mask_at (h k) d"
  have i: "i < 32" by (simp add: i_def)
  consider (same) v0 where "bit dm i" "e i = Entry k v0" |
    (other) k0 v0 where "bit dm i" "e i = Entry k0 v0" "k0 \<noteq> k" |
    (node) "\<not> bit dm i" "bit nm i" | (none) "\<not> bit dm i" "\<not> bit nm i"
    using data [of i] by blast
  then show ?thesis
  proof cases
    case same
    have "node_ok h d P (SubNodes (branches e f nm (bm_clear dm i)) nm (bm_clear dm i))"
      by (rule node_okI) (use data nodes disj in \<open>auto simp: bit_bm_clear\<close>)
    then show ?thesis
      using same disj
      by (auto simp: put_done_def nd remove_mut_branches [OF disj] getp_branches Let_def i_def [symmetric] bit_bm_clear)
  next
    case node
    from child [OF nodes [OF node(2)]] \<open>P k\<close> obtain x r where
      x: "cremove esz d (h k) k (f i) = Some (x, r)" "child_ok h d (\<lambda>k. P k \<and> mask_at (h k) d = i) x"
        "r = (case cgetp d (h k) k (f i) of Some (Some v0) \<Rightarrow> esz k v0 | _ \<Rightarrow> 0)"
        "\<And>k'. P k' \<and> mask_at (h k') d = i \<Longrightarrow>
           cgetp d (h k') k' x = (if k' = k then Some None else cgetp d (h k') k' (f i))"
      unfolding put_done_def i_def by blast
    have "node_ok h d P (SubNodes (branches e (f(i := x)) nm dm) nm dm)"
      by (rule node_okI [OF disj]) (use data nodes x(2) in auto)
    then show ?thesis
      using node x(1,3,4)
      by (auto simp: put_done_def nd remove_mut_branches [OF disj] getp_branches Let_def i_def [symmetric])
  qed (use ok in \<open>auto simp: put_done_def nd remove_mut_branches [OF disj] getp_branches Let_def i_def [symmetric]\<close>)
qed

lemma remove_mut_correct:
  "node_ok h d P nd \<Longrightarrow> P k \<Longrightarrow> d \<le> 5 \<Longrightarrow>
   put_done (node_ok h d P) (\<lambda>k x. getp d (h k) k x) P esz k None nd (remove_mut esz d (h k) k nd)"
proof (induction "5 - d" arbitrary: d P nd)
  case 0
  then have [simp]: "d = 5" by simp
  show ?case
    by (rule remove_level [OF 0(2,3)])
      (use coll_remove_done in \<open>auto simp: child_ok_def [of h 5 _ "_ :: ('a, 'b) node"]\<close>)
next
  case (Suc n)
  then have d: "d < 5" "Suc d \<le> 5" "n = 5 - Suc d" by auto
  note IH = Suc.hyps(1) [OF d(3) _ _ d(2)]
  show ?case
  proof (rule remove_level [OF Suc.prems(1,2)])
    fix P' :: "'a \<Rightarrow> bool" and x :: "('a, 'b) node"
    assume "child_ok h d P' x" "P' k"
    then show "put_done (child_ok h d P') (\<lambda>k x. cgetp d (h k) k x) P' esz k None x (cremove esz d (h k) k x)"
      using IH [of P' x] d(1) by (simp add: child_ok_def [abs_def] cgetp_def cremove_def)
  qed
qed

section \<open>Visiting every entry\<close>

definition celems :: "nat \<Rightarrow> ('k, 'v) node \<Rightarrow> ('k \<times> 'v) list option" where
  "celems d x =
     (if d = 5 then (case x of Collisions bins \<Rightarrow> Some (concat bins) | _ \<Rightarrow> None) else node_elems (Suc d) x)"

lemma those_map_Some: "(\<And>x. x \<in> set xs \<Longrightarrow> F x = Some (g x)) \<Longrightarrow> those (map F xs) = Some (map g xs)"
  by (induction xs) auto

lemma node_elems_branches:
  "node_elems d (SubNodes (branches e f nm dm) nm dm) =
     (case those (map (\<lambda>i. case e i of Entry k v \<Rightarrow> Some (k, v) | _ \<Rightarrow> None) (bits dm)) of
        None \<Rightarrow> None
      | Some es \<Rightarrow> map_option (\<lambda>rest. es @ concat rest) (those (map (\<lambda>i. celems d (f i)) (bits nm))))"
  by (simp add: node_elems.simps(1) [of d] Let_def bm_pop_bits length_branches branches_def comp_def celems_def
      cong: option.case_cong if_cong)

lemma distinct_concat_by:
  assumes "distinct is" "\<And>i. i \<in> set is \<Longrightarrow> distinct (map fst (F i)) \<and> (\<forall>kv\<in>set (F i). m (fst kv) = i)"
  shows "distinct (map fst (concat (map F is)))"
  using assms
proof (induction "is")
  case (Cons i js)
  have "fst ` set (F i) \<inter> fst ` set (concat (map F js)) = {}"
  proof (rule equals0I)
    fix k
    assume "k \<in> fst ` set (F i) \<inter> fst ` set (concat (map F js))"
    then obtain j where "m k = i" "j \<in> set js" "m k = j" using Cons.prems(2) by fastforce
    then show False using Cons.prems(1) by simp
  qed
  then show ?case using Cons by simp
qed simp

definition elems_done ::
  "('k \<Rightarrow> 'x \<Rightarrow> 'v option option) \<Rightarrow> ('k \<Rightarrow> bool) \<Rightarrow> 'x \<Rightarrow> ('k \<times> 'v) list option \<Rightarrow> bool"
where
  "elems_done get P x res \<longleftrightarrow>
     (\<exists>es. res = Some es \<and> distinct (map fst es) \<and> (\<forall>kv\<in>set es. P (fst kv)) \<and>
        (\<forall>k. P k \<longrightarrow> get k x = Some (map_of es k)))"

lemma elems_doneI:
  assumes "distinct (map fst es)" "\<And>kv. kv \<in> set es \<Longrightarrow> P (fst kv)"
    "\<And>k. P k \<Longrightarrow> \<exists>ov. get k x = Some ov \<and> (\<forall>v. ov = Some v \<longleftrightarrow> (k, v) \<in> set es)"
  shows "elems_done get P x (Some es)"
proof -
  have "get k x = Some (map_of es k)" if P: "P k" for k
  proof -
    obtain ov where "get k x = Some ov" "\<And>v. ov = Some v \<longleftrightarrow> map_of es k = Some v"
      using assms(3) [OF P] assms(1) by auto
    then show ?thesis by (metis option.exhaust)
  qed
  then show ?thesis using assms(1,2) by (simp add: elems_done_def)
qed

lemma elems_doneD:
  assumes "elems_done get P x (Some es)"
  shows "distinct (map fst es)" "kv \<in> set es \<Longrightarrow> P (fst kv)"
    "P k \<Longrightarrow> \<exists>ov. get k x = Some ov \<and> (\<forall>v. ov = Some v \<longleftrightarrow> (k, v) \<in> set es)"
  using assms by (auto simp: elems_done_def)

lemma coll_elems_done:
  assumes "coll_ok h P bins"
  shows "elems_done (\<lambda>k x. cgetp 5 (h k) k x) P (Collisions bins) (celems 5 (Collisions bins))"
proof -
  have l: "length bins = 4" using assms by (simp add: coll_ok_def)
  then have b: "bins = map (\<lambda>i. bins ! i) [0 ..< 4]" by (metis map_nth)
  have c: "celems 5 (Collisions bins) = Some (concat bins)" by (simp add: celems_def)
  have "distinct (map fst (concat (map (\<lambda>i. bins ! i) [0 ..< 4])))"
    by (rule distinct_concat_by [where m = "\<lambda>k. mask_at (h k) 6"]) (use assms in \<open>auto simp: coll_ok_def\<close>)
  then have d: "distinct (map fst (concat bins))" using b by simp
  have s: "set (concat bins) = (\<Union>i<4. set (bins ! i))" by (subst b) auto
  show ?thesis
    unfolding c
  proof (rule elems_doneI [OF d])
    show "P (fst kv)" if "kv \<in> set (concat bins)" for kv using that assms unfolding s by (auto simp: coll_ok_def)
    fix k
    have m: "mask_at (h k) 6 < 4" by (rule mask_at_collision)
    then have "map_of (bins ! mask_at (h k) 6) k = Some v \<longleftrightarrow> (k, v) \<in> set (concat bins)" for v
      using assms unfolding s by (fastforce simp: coll_ok_def)
    then show "\<exists>ov. cgetp 5 (h k) k (Collisions bins) = Some ov \<and> (\<forall>v. ov = Some v \<longleftrightarrow> (k, v) \<in> set (concat bins))"
      by (simp add: cgetp_def coll_getp_def)
  qed
qed

lemma elems_level:
  fixes nd :: "('k, 'v) node"
  assumes ok: "node_ok h d P nd"
    and child: "\<And>P' (x :: ('k, 'v) node). child_ok h d P' x \<Longrightarrow> elems_done (\<lambda>k x. cgetp d (h k) k x) P' x (celems d x)"
  shows "elems_done (\<lambda>k x. getp d (h k) k x) P nd (node_elems d nd)"
  using ok
proof (rule node_okE)
  fix e f nm dm
  assume nd: "nd = SubNodes (branches e f nm dm) nm dm" and disj: "disjoint_maps nm dm"
    and data: "\<And>i. bit dm i \<Longrightarrow> \<exists>k v. e i = Entry k v \<and> P k \<and> mask_at (h k) d = i"
    and nodes: "\<And>i. bit nm i \<Longrightarrow> child_ok h d (\<lambda>k. P k \<and> mask_at (h k) d = i) (f i)"
  define F where "F i = (if bit dm i then (case e i of Entry k v \<Rightarrow> [(k, v)] | _ \<Rightarrow> []) else the (celems d (f i)))" for i
  have cd: "elems_done (\<lambda>k x. cgetp d (h k) k x) (\<lambda>k. P k \<and> mask_at (h k) d = i) (f i) (Some (F i))"
    and some: "celems d (f i) = Some (F i)" if "bit nm i" for i
    using child [OF nodes [OF that]] disj that by (auto simp: F_def elems_done_def)
  define es where "es = concat (map F (bits dm @ bits nm))"
  have in_F: "P (fst kv) \<and> mask_at (h (fst kv)) d = i" if "kv \<in> set (F i)" "bit dm i \<or> bit nm i" for kv i
    using that data [of i] elems_doneD(2) [OF cd [of i], of kv] by (cases "bit dm i") (auto simp: F_def)
  have "those (map (\<lambda>i. case e i of Entry k v \<Rightarrow> Some (k, v) | _ \<Rightarrow> None) (bits dm)) = Some (map (\<lambda>i. hd (F i)) (bits dm))"
    by (rule those_map_Some) (use data in \<open>fastforce simp: F_def set_bits\<close>)
  moreover have "map (\<lambda>i. hd (F i)) (bits dm) = concat (map F (bits dm))"
  proof -
    have one: "F i = [hd (F i)]" if "bit dm i" for i using data [OF that] that by (auto simp: F_def)
    have "concat (map F is) = map (\<lambda>i. hd (F i)) is" if "\<And>i. i \<in> set is \<Longrightarrow> bit dm i" for "is"
      using that by (induction "is") (use one in auto)
    from this [of "bits dm"] show ?thesis by (simp add: set_bits)
  qed
  moreover have "those (map (\<lambda>i. celems d (f i)) (bits nm)) = Some (map F (bits nm))"
    by (rule those_map_Some) (simp add: some set_bits)
  ultimately have res: "node_elems d nd = Some es" by (simp add: nd node_elems_branches es_def)
  have s: "kv \<in> set es \<longleftrightarrow> (\<exists>i. (bit dm i \<or> bit nm i) \<and> kv \<in> set (F i))" for kv
    by (auto simp: es_def set_bits)
  have "distinct (map fst (F i))" if "bit dm i \<or> bit nm i" for i
    using that data [of i] elems_doneD(1) [OF cd [of i]] by (cases "bit dm i") (auto simp: F_def)
  then have dist: "distinct (map fst es)"
    unfolding es_def
    by (intro distinct_concat_by [where m = "\<lambda>k. mask_at (h k) d"])
      (use disj in_F in \<open>auto simp: set_bits distinct_bits\<close>)
  show ?thesis
    unfolding res
  proof (rule elems_doneI [OF dist])
    show "P (fst kv)" if "kv \<in> set es" for kv using that in_F unfolding s by blast
    fix k
    assume "P k"
    define i where "i = mask_at (h k) d"
    have "(k, v) \<in> set es \<longleftrightarrow> (bit dm i \<or> bit nm i) \<and> (k, v) \<in> set (F i)" for v
      using in_F [of "(k, v)"] by (auto simp: s i_def)
    then show "\<exists>ov. getp d (h k) k nd = Some ov \<and> (\<forall>v. ov = Some v \<longleftrightarrow> (k, v) \<in> set es)"
      using data [of i] elems_doneD(3) [OF cd [of i], of k] \<open>P k\<close> disj
      by (auto simp: nd getp_branches Let_def i_def [symmetric] F_def)
  qed
qed

lemma node_elems_correct:
  "node_ok h d P nd \<Longrightarrow> d \<le> 5 \<Longrightarrow> elems_done (\<lambda>k x. getp d (h k) k x) P nd (node_elems d nd)"
proof (induction "5 - d" arbitrary: d P nd)
  case 0
  then have [simp]: "d = 5" by simp
  show ?case
    by (rule elems_level [OF 0(2)]) (use coll_elems_done in \<open>auto simp: child_ok_def\<close>)
next
  case (Suc n)
  then have d: "d < 5" "Suc d \<le> 5" "n = 5 - Suc d" by auto
  show ?case
  proof (rule elems_level [OF Suc.prems(1)])
    fix P' :: "'a \<Rightarrow> bool" and x :: "('a, 'b) node"
    assume "child_ok h d P' x"
    then show "elems_done (\<lambda>k x. cgetp d (h k) k x) P' x (celems d x)"
      using Suc.hyps(1) [OF d(3) _ d(2), of P' x] d(1) by (simp add: child_ok_def cgetp_def celems_def)
  qed
qed

section \<open>The map as a finite function\<close>

definition champ_map :: "('k \<Rightarrow> 32 word) \<Rightarrow> ('k, 'v) champ \<Rightarrow> 'k \<rightharpoonup> 'v" where
  "champ_map h m k = the (champ_getp h m k)"

definition total_size :: "('k \<Rightarrow> 'v \<Rightarrow> nat) \<Rightarrow> ('k \<rightharpoonup> 'v) \<Rightarrow> nat" where
  "total_size esz M = (\<Sum>k\<in>dom M. esz k (the (M k)))"

definition champ_ok :: "('k \<Rightarrow> 32 word) \<Rightarrow> ('k, 'v) champ \<Rightarrow> bool" where
  "champ_ok h m \<longleftrightarrow> node_ok h 0 (\<lambda>_. True) (champ_root m)"

text \<open>The counters, which tell an overwritten entry by its size and so need entries of some size.\<close>

definition sizes_ok :: "('k \<Rightarrow> 32 word) \<Rightarrow> ('k \<Rightarrow> 'v \<Rightarrow> nat) \<Rightarrow> ('k, 'v) champ \<Rightarrow> bool" where
  "sizes_ok h esz m \<longleftrightarrow>
     map_size m = card (dom (champ_map h m)) mod two64 \<and>
     serialized_size m = total_size esz (champ_map h m) mod two64"

definition esz_ok :: "('k \<Rightarrow> 'v \<Rightarrow> nat) \<Rightarrow> bool" where
  "esz_ok esz \<longleftrightarrow> (\<forall>k v. 0 < esz k v \<and> esz k v < two64)"

lemma champ_elems:
  assumes "champ_ok h m"
  obtains es where "node_elems 0 (champ_root m) = Some es" "distinct (map fst es)" "map_of es = champ_map h m"
    "\<And>k. champ_getp h m k = Some (champ_map h m k)"
proof -
  have "elems_done (\<lambda>k x. getp 0 (h k) k x) (\<lambda>_. True) (champ_root m) (node_elems 0 (champ_root m))"
    using assms by (intro node_elems_correct) (simp_all add: champ_ok_def)
  then show thesis
    using that by (auto simp: elems_done_def champ_map_def champ_getp_def fun_eq_iff)
qed

lemma finite_champ: "champ_ok h m \<Longrightarrow> finite (dom (champ_map h m))"
  by (erule champ_elems) (metis finite_dom_map_of)

lemma total_size_insert:
  assumes "finite (dom M)"
  shows "total_size esz (M(k \<mapsto> v)) + (case M k of Some v0 \<Rightarrow> esz k v0 | None \<Rightarrow> 0) = total_size esz M + esz k v"
proof -
  have "total_size esz N = (case N k of Some v0 \<Rightarrow> esz k v0 | None \<Rightarrow> 0) + (\<Sum>j\<in>dom N - {k}. esz j (the (N j)))"
    if "finite (dom N)" for N
  proof (cases "N k")
    case None
    then have "dom N - {k} = dom N" by auto
    then show ?thesis using None by (simp add: total_size_def)
  next
    case (Some v0)
    then show ?thesis using sum.remove [OF that, of k "\<lambda>j. esz j (the (N j))"] by (simp add: total_size_def domI)
  qed
  moreover have "(\<Sum>j\<in>dom M - {k}. esz j (the ((M(k \<mapsto> v)) j))) = (\<Sum>j\<in>dom M - {k}. esz j (the (M j)))"
    by (rule sum.cong) auto
  ultimately show ?thesis using assms by simp
qed

lemma total_size_remove:
  assumes "finite (dom M)"
  shows "total_size esz (M(k := None)) + (case M k of Some v0 \<Rightarrow> esz k v0 | None \<Rightarrow> 0) = total_size esz M"
proof (cases "M k")
  case (Some v0)
  have "total_size esz (M(k := None)) = (\<Sum>j\<in>dom M - {k}. esz j (the (M j)))"
    unfolding total_size_def by (rule sum.cong) auto
  then show ?thesis using Some assms by (simp add: total_size_def sum.remove [of "dom M" k] domI)
qed (simp add: total_size_def fun_upd_idem)

lemma int_sub64: "b \<le> two64 \<Longrightarrow> int (sub64 a b) = (int a - int b) mod int two64"
proof -
  assume "b \<le> two64"
  then have "int (a + two64 - b) = (int a - int b) + int two64" by (simp add: of_nat_diff)
  then show ?thesis by (simp only: sub64_def zmod_int mod_add_self2)
qed

lemma add_sub64:
  assumes "x + d = y + a" "d < two64" "s = y mod two64"
  shows "add64 (sub64 a d) s = x mod two64"
proof -
  have "int (add64 (sub64 a d) s) = (int a - int d + int y) mod int two64"
    using assms(2,3) by (simp add: add64_def zmod_int int_sub64 mod_simps)
  also have "int a - int d + int y = int x" using assms(1) by linarith
  finally show ?thesis by (metis zmod_int of_nat_eq_iff)
qed

lemma sub_mod64:
  assumes "x + d = y" "d < two64" "s = y mod two64"
  shows "sub64 s d = x mod two64"
proof -
  have "int (sub64 s d) = (int y - int d) mod int two64"
    using assms(2,3) by (simp add: zmod_int int_sub64 mod_simps)
  also have "int y - int d = int x" using assms(1) by linarith
  finally show ?thesis by (metis zmod_int of_nat_eq_iff)
qed

lemma champ_put_correct:
  assumes ok: "champ_ok h m"
  obtains m' where "champ_put h esz m k v = Some m'" "champ_ok h m'" "champ_map h m' = (champ_map h m)(k \<mapsto> v)"
    "esz_ok esz \<Longrightarrow> sizes_ok h esz m \<Longrightarrow> sizes_ok h esz m'"
proof -
  let ?M = "champ_map h m"
  obtain es where get: "\<And>k. champ_getp h m k = Some (?M k)" by (rule champ_elems [OF ok]) blast
  have fin: "finite (dom ?M)" by (rule finite_champ [OF ok])
  have "put_done (node_ok h 0 (\<lambda>_. True)) (\<lambda>k x. getp 0 (h k) k x) (\<lambda>_. True) esz k (Some v) (champ_root m)
      (put_mut h esz 0 (h k) k v (champ_root m))"
    using ok by (intro put_mut_correct) (simp_all add: champ_ok_def)
  then obtain r diff where
    p: "put_mut h esz 0 (h k) k v (champ_root m) = Some (r, diff)" "node_ok h 0 (\<lambda>_. True) r"
      "diff = (case ?M k of Some v0 \<Rightarrow> esz k v0 | None \<Rightarrow> 0)"
      "\<And>k'. getp 0 (h k') k' r = Some ((?M(k \<mapsto> v)) k')"
    using get by (auto simp: put_done_def champ_getp_def fun_upd_def split: option.splits)
  define m' where "m' = \<lparr>champ_root = r,
          map_size = (if diff = 0 then add64 (map_size m) 1 else map_size m),
          serialized_size = add64 (sub64 (esz k v) diff) (serialized_size m)\<rparr>"
  have M': "champ_map h m' = ?M(k \<mapsto> v)" using p(4) by (auto simp: champ_map_def champ_getp_def m'_def)
  have "sizes_ok h esz m'" if esz: "esz_ok esz" and sz: "sizes_ok h esz m"
  proof -
    have "diff < two64" using esz by (auto simp: p(3) two64_pos esz_ok_def split: option.splits)
    then have "serialized_size m' = total_size esz (?M(k \<mapsto> v)) mod two64"
      using add_sub64 [OF total_size_insert [OF fin, of esz k v, folded p(3)]] sz by (simp add: m'_def sizes_ok_def)
    moreover have "map_size m' = card (dom (?M(k \<mapsto> v))) mod two64"
    proof (cases "?M k")
      case None
      then have "k \<notin> dom ?M" by auto
      then show ?thesis using None sz fin by (simp add: m'_def p(3) sizes_ok_def add64_def mod_simps)
    next
      case (Some v0)
      then have "diff \<noteq> 0" "insert k (dom ?M) = dom ?M" using esz p(3) by (auto simp: esz_ok_def)
      then show ?thesis using sz by (simp add: m'_def sizes_ok_def)
    qed
    ultimately show ?thesis by (simp add: sizes_ok_def M')
  qed
  moreover have "champ_ok h m'" using p(2) by (simp add: champ_ok_def m'_def)
  moreover have "champ_put h esz m k v = Some m'" by (simp add: champ_put_def p(1) m'_def)
  ultimately show thesis using that M' by blast
qed

lemma champ_remove_correct:
  assumes ok: "champ_ok h m"
  obtains m' where "champ_remove h esz m k = Some m'" "champ_ok h m'" "champ_map h m' = (champ_map h m)(k := None)"
    "esz_ok esz \<Longrightarrow> sizes_ok h esz m \<Longrightarrow> sizes_ok h esz m'"
proof -
  let ?M = "champ_map h m"
  obtain es where get: "\<And>k. champ_getp h m k = Some (?M k)" by (rule champ_elems [OF ok]) blast
  have fin: "finite (dom ?M)" by (rule finite_champ [OF ok])
  have "put_done (node_ok h 0 (\<lambda>_. True)) (\<lambda>k x. getp 0 (h k) k x) (\<lambda>_. True) esz k None (champ_root m)
      (remove_mut esz 0 (h k) k (champ_root m))"
    using ok by (intro remove_mut_correct) (simp_all add: champ_ok_def)
  then obtain r diff where
    p: "remove_mut esz 0 (h k) k (champ_root m) = Some (r, diff)" "node_ok h 0 (\<lambda>_. True) r"
      "diff = (case ?M k of Some v0 \<Rightarrow> esz k v0 | None \<Rightarrow> 0)"
      "\<And>k'. getp 0 (h k') k' r = Some ((?M(k := None)) k')"
    using get by (auto simp: put_done_def champ_getp_def fun_upd_def split: option.splits)
  define m' where "m' = \<lparr>champ_root = r,
          map_size = (if 0 < diff then sub64 (map_size m) 1 else map_size m),
          serialized_size = sub64 (serialized_size m) diff\<rparr>"
  have M': "champ_map h m' = ?M(k := None)" using p(4) by (auto simp: champ_map_def champ_getp_def m'_def)
  have "sizes_ok h esz m'" if esz: "esz_ok esz" and sz: "sizes_ok h esz m"
  proof -
    have "diff < two64" using esz by (auto simp: p(3) two64_pos esz_ok_def split: option.splits)
    then have "serialized_size m' = total_size esz (?M(k := None)) mod two64"
      using sub_mod64 [OF total_size_remove [OF fin, of esz k, folded p(3)]] sz by (simp add: m'_def sizes_ok_def)
    moreover have "map_size m' = card (dom (?M(k := None))) mod two64"
    proof (cases "?M k")
      case None
      then have "?M(k := None) = ?M" by (simp add: fun_upd_idem)
      then show ?thesis using None sz by (simp add: m'_def p(3) sizes_ok_def)
    next
      case (Some v0)
      then have "0 < diff" "Suc (card (dom ?M - {k})) = card (dom ?M)"
        using esz p(3) fin by (auto simp: esz_ok_def intro: card_Suc_Diff1)
      then show ?thesis
        using sub_mod64 [of "card (dom ?M - {k})" 1 "card (dom ?M)" "map_size m"] sz
        by (simp add: m'_def sizes_ok_def two64_def)
    qed
    ultimately show ?thesis by (simp add: sizes_ok_def M')
  qed
  moreover have "champ_ok h m'" using p(2) by (simp add: champ_ok_def m'_def)
  moreover have "champ_remove h esz m k = Some m'" by (simp add: champ_remove_def p(1) m'_def)
  ultimately show thesis using that M' by blast
qed

lemma getp_empty: "getp d hash k (SubNodes [] 0 0) = Some None"
  using getp_branches [of d hash k undefined undefined 0 0] by (simp add: branches_def bits_def)

lemma champ_map_empty: "champ_map h champ_empty = Map.empty"
  by (simp add: champ_map_def champ_getp_def champ_empty_def fun_eq_iff getp_empty)

lemma champ_empty_ok: "champ_ok h champ_empty"
  using node_ok_empty [of h 0] by (simp add: champ_ok_def champ_empty_def)

lemma champ_empty_sizes: "sizes_ok h esz champ_empty"
  by (simp add: sizes_ok_def champ_map_empty total_size_def) (simp add: champ_empty_def)

section \<open>The interface of a persistent map\<close>

text \<open>
  What the key-value store uses of its state type (\<^verbatim>\<open>untyped::State\<close>, a \<^verbatim>\<open>champ::Map\<close> unless the build selects
  \<^verbatim>\<open>rb::Map\<close>): the operations, and the laws that it relies on. \<open>m_elems\<close> is the order of \<^verbatim>\<open>foreach\<close>.
\<close>

record ('s, 'k, 'v) map_ops =
  m_empty :: 's
  m_get :: "'s \<Rightarrow> 'k \<Rightarrow> 'v option"
  m_put :: "'s \<Rightarrow> 'k \<Rightarrow> 'v \<Rightarrow> 's"
  m_remove :: "'s \<Rightarrow> 'k \<Rightarrow> 's"
  m_elems :: "'s \<Rightarrow> ('k \<times> 'v) list"

locale persistent_map =
  fixes ops :: "('s, 'k, 'v) map_ops" and ok :: "'s \<Rightarrow> bool"
  assumes ok_empty: "ok (m_empty ops)" and get_empty: "m_get ops (m_empty ops) k = None"
    and ok_put: "ok s \<Longrightarrow> ok (m_put ops s k v)"
    and get_put: "ok s \<Longrightarrow> m_get ops (m_put ops s k v) = (m_get ops s)(k \<mapsto> v)"
    and ok_remove: "ok s \<Longrightarrow> ok (m_remove ops s k)"
    and get_remove: "ok s \<Longrightarrow> m_get ops (m_remove ops s k) = (m_get ops s)(k := None)"
    and elems: "ok s \<Longrightarrow> distinct (map fst (m_elems ops s)) \<and> map_of (m_elems ops s) = m_get ops s"
begin

lemma elems_set: "ok s \<Longrightarrow> (k, v) \<in> set (m_elems ops s) \<longleftrightarrow> m_get ops s k = Some v"
  using elems [of s] by (metis map_of_eq_Some_iff)

lemma elems_empty: "ok s \<Longrightarrow> m_get ops s = Map.empty \<Longrightarrow> m_elems ops s = []"
  using elems [of s] by simp

lemma elems_single:
  assumes "ok s" "m_get ops s = [k \<mapsto> v]"
  shows "m_elems ops s = [(k, v)]"
proof -
  have e: "distinct (map fst (m_elems ops s))" "set (m_elems ops s) = {(k, v)}"
    using elems [OF assms(1)] elems_set [OF assms(1)] assms(2) by (auto split: if_splits)
  then have "distinct (m_elems ops s)" by (simp add: distinct_map)
  then show ?thesis using e(2) by (cases "m_elems ops s" rule: remdups_adj.cases) auto
qed

lemma finite_dom_get: "ok s \<Longrightarrow> finite (dom (m_get ops s))"
  using elems [of s] by (metis finite_dom_map_of)

end

definition champ_ops ::
  "('k \<Rightarrow> 32 word) \<Rightarrow> ('k \<Rightarrow> 'v \<Rightarrow> nat) \<Rightarrow> (('k, 'v) champ, 'k, 'v) map_ops"
where
  "champ_ops h esz =
     \<lparr>m_empty = champ_empty,
      m_get = (\<lambda>m k. the (champ_getp h m k)),
      m_put = (\<lambda>m k v. the (champ_put h esz m k v)),
      m_remove = (\<lambda>m k. the (champ_remove h esz m k)),
      m_elems = (\<lambda>m. the (node_elems 0 (champ_root m)))\<rparr>"

interpretation ch: persistent_map "champ_ops h esz" "champ_ok h"
proof
  have get: "m_get (champ_ops h esz) = champ_map h" by (simp add: champ_ops_def champ_map_def fun_eq_iff)
  show "champ_ok h (m_empty (champ_ops h esz))" by (simp add: champ_ops_def champ_empty_ok)
  show "m_get (champ_ops h esz) (m_empty (champ_ops h esz)) k = None" for k
    unfolding get by (simp add: champ_ops_def champ_map_empty)
  fix m :: "('a, 'b) champ" and k v
  assume ok: "champ_ok h m"
  show "champ_ok h (m_put (champ_ops h esz) m k v)"
    "m_get (champ_ops h esz) (m_put (champ_ops h esz) m k v) = (m_get (champ_ops h esz) m)(k \<mapsto> v)"
    unfolding get by (rule champ_put_correct [OF ok, of esz k v], simp add: champ_ops_def)+
  show "champ_ok h (m_remove (champ_ops h esz) m k)"
    "m_get (champ_ops h esz) (m_remove (champ_ops h esz) m k) = (m_get (champ_ops h esz) m)(k := None)"
    unfolding get by (rule champ_remove_correct [OF ok, of esz k], simp add: champ_ops_def)+
  show "distinct (map fst (m_elems (champ_ops h esz) m)) \<and> map_of (m_elems (champ_ops h esz) m) = m_get (champ_ops h esz) m"
    unfolding get by (rule champ_elems [OF ok]) (simp add: champ_ops_def)
qed

section \<open>Properties\<close>

text \<open>Updates from the empty map: \<open>Some v\<close> puts a value and \<open>None\<close> removes the key.\<close>

fun champ_run ::
  "('k \<Rightarrow> 32 word) \<Rightarrow> ('k \<Rightarrow> 'v \<Rightarrow> nat) \<Rightarrow> ('k \<times> 'v option) list \<Rightarrow> ('k, 'v) champ \<Rightarrow> ('k, 'v) champ option"
where
  "champ_run h esz [] m = Some m"
| "champ_run h esz ((k, Some v) # us) m = Option.bind (champ_put h esz m k v) (champ_run h esz us)"
| "champ_run h esz ((k, None) # us) m = Option.bind (champ_remove h esz m k) (champ_run h esz us)"

definition map_run :: "('k \<times> 'v option) list \<Rightarrow> 'k \<rightharpoonup> 'v" where
  "map_run us = foldl (\<lambda>M (k, ov). M(k := ov)) Map.empty us"

lemma champ_run_correct:
  assumes "champ_ok h m"
  shows "\<exists>m'. champ_run h esz us m = Some m' \<and> champ_ok h m' \<and>
    champ_map h m' = foldl (\<lambda>M (k, ov). M(k := ov)) (champ_map h m) us \<and>
    (esz_ok esz \<longrightarrow> sizes_ok h esz m \<longrightarrow> sizes_ok h esz m')"
  using assms
proof (induction h esz us m rule: champ_run.induct)
  case (2 h esz k v us m)
  obtain m1 where m1: "champ_put h esz m k v = Some m1" "champ_ok h m1" "champ_map h m1 = (champ_map h m)(k \<mapsto> v)"
      "esz_ok esz \<Longrightarrow> sizes_ok h esz m \<Longrightarrow> sizes_ok h esz m1"
    by (rule champ_put_correct [OF 2(2), of esz k v]) blast
  from 2(1) [OF m1(1,2)] show ?case using m1(1,4) unfolding m1(3) by auto
next
  case (3 h esz k us m)
  obtain m1 where m1: "champ_remove h esz m k = Some m1" "champ_ok h m1" "champ_map h m1 = (champ_map h m)(k := None)"
      "esz_ok esz \<Longrightarrow> sizes_ok h esz m \<Longrightarrow> sizes_ok h esz m1"
    by (rule champ_remove_correct [OF 3(2), of esz k]) blast
  from 3(1) [OF m1(1,2)] show ?case using m1(1,4) unfolding m1(3) by auto
qed simp

lemma total_size_elems:
  "distinct (map fst es) \<Longrightarrow> total_size esz (map_of es) = sum_list (map (\<lambda>(k, v). esz k v) es)"
proof (induction es)
  case (Cons kv es)
  obtain k v where kv: "kv = (k, v)" by (rule prod.exhaust)
  have "map_of es k = None" using Cons.prems by (simp add: kv map_of_eq_None_iff)
  then show ?case
    using total_size_insert [of "map_of es" esz k v] Cons by (simp add: kv finite_dom_map_of fun_upd_def)
qed (simp add: total_size_def)

text \<open>
  C31. The trie is a map. Whatever the hash, after any sequence of insertions and removals from the empty
  map no operation has read a node as what it is not or outside its vector; every lookup gives the value
  last put under the key; the visit of all entries gives each key once, with that value; and the two
  counters are the number of the entries and their serialised size, as long as entries have a size.
\<close>

theorem champ_refines_map:
  assumes "esz_ok esz"
  shows "\<exists>m es. champ_run h esz us champ_empty = Some m \<and> node_elems 0 (champ_root m) = Some es \<and>
    (\<forall>k. champ_getp h m k = Some (map_run us k)) \<and> distinct (map fst es) \<and> map_of es = map_run us \<and>
    map_size m = length es mod two64 \<and> serialized_size m = sum_list (map (\<lambda>(k, v). esz k v) es) mod two64"
proof -
  obtain m where m: "champ_run h esz us champ_empty = Some m" "champ_ok h m" "champ_map h m = map_run us" "sizes_ok h esz m"
    using champ_run_correct [OF champ_empty_ok, of h esz us] assms
    by (auto simp: champ_map_empty champ_empty_sizes map_run_def)
  from m(2) obtain es where es: "node_elems 0 (champ_root m) = Some es" "distinct (map fst es)"
      "map_of es = champ_map h m" "\<And>k. champ_getp h m k = Some (champ_map h m k)"
    by (rule champ_elems) blast
  have "card (dom (map_of es)) = length es"
    using es(2) by (simp add: dom_map_of_conv_image_fst distinct_card [of "map fst es", simplified])
  then show ?thesis
    using m es total_size_elems [OF es(2), of esz] by (auto simp: sizes_ok_def)
qed

text \<open>Three keys with the same hash, one of which is removed again.\<close>

theorem champ_refines_map_witness:
  "\<exists>m es. champ_run (\<lambda>_. 7) (\<lambda>_ _. 16) [(1 :: nat, Some 10), (3, Some 30), (5, Some 50), (3, None)] champ_empty = Some m \<and>
    node_elems 0 (champ_root m) = Some es \<and> champ_getp (\<lambda>_. 7) m 1 = Some (Some (10 :: nat)) \<and>
    champ_getp (\<lambda>_. 7) m 3 = Some None \<and> map_of es = [1 \<mapsto> 10, 5 \<mapsto> 50]"
proof -
  have "esz_ok (\<lambda>(_ :: nat) (_ :: nat). 16)" by (simp add: esz_ok_def two64_def)
  from champ_refines_map [OF this, of "\<lambda>_. 7" "[(1, Some 10), (3, Some 30), (5, Some 50), (3, None)]"]
  show ?thesis by (auto simp: map_run_def fun_upd_twist)
qed

end
