(* ===== verification/KV_Map.thy ===== *)
theory KV_Map
  imports Champ_Map
begin

text \<open>
  One map of the key-value store: change sets (\<^verbatim>\<open>src/kv/untyped_change_set.h\<close>), the handle through which
  a transaction reads and writes (\<^verbatim>\<open>src/kv/untyped_map_handle.cpp\<close>, \<^verbatim>\<open>src/kv/untyped_map_diff.cpp\<close>), and the
  map with its roll of local commits (\<^verbatim>\<open>src/kv/untyped_map.h\<close>).

  The state type is the argument \<open>ops\<close>, the interface of \<^verbatim>\<open>untyped::State\<close>. Write sets and read sets are
  \<^verbatim>\<open>std::map\<close>, association lists with ascending keys here. The list of local commits goes from its head,
  the oldest, to its tail; the pool of recycled nodes \<^verbatim>\<open>empty_commits\<close> only serves allocation and is left out.
  Locks are left out too: every operation is atomic. Counters of rollbacks are naturals, since 2^64
  rollbacks are out of reach. A moved-from write set is empty.
\<close>

section \<open>Change sets\<close>

record 'v versionv =
  vv_version :: nat
  vv_read_version :: nat
  vv_value :: 'v

type_synonym ('k, 'v) write_set = "('k \<times> 'v option) list"

record ('s, 'k, 'v) change_set =
  ch_rollback_counter :: nat
  ch_state :: 's
  ch_committed :: 's
  ch_start_version :: nat
  ch_read_version :: nat
  ch_reads :: "('k \<times> nat \<times> nat) list"
  ch_writes :: "('k, 'v) write_set"

definition new_change_set :: "nat \<Rightarrow> 's \<Rightarrow> 's \<Rightarrow> ('k, 'v) write_set \<Rightarrow> nat \<Rightarrow> ('s, 'k, 'v) change_set" where
  "new_change_set rollbacks current_state committed_state changed_writes current_version =
     \<lparr>ch_rollback_counter = rollbacks, ch_state = current_state, ch_committed = committed_state,
      ch_start_version = current_version, ch_read_version = NoVersion, ch_reads = [],
      ch_writes = changed_writes\<rparr>"

definition has_writes :: "('s, 'k, 'v) change_set \<Rightarrow> bool" where
  "has_writes cs \<longleftrightarrow> ch_writes cs \<noteq> []"

section \<open>Handles\<close>

definition record_read :: "('s, 'k::linorder, 'v) change_set \<Rightarrow> 'k \<Rightarrow> nat \<times> nat \<Rightarrow> ('s, 'k, 'v) change_set" where
  "record_read cs key dep = cs\<lparr>ch_reads := omap_emplace key dep (ch_reads cs)\<rparr>"

definition read_key ::
  "('s, 'k::linorder, 'v versionv) map_ops \<Rightarrow> ('s, 'k, 'v) change_set \<Rightarrow> 'k \<Rightarrow> ('s, 'k, 'v) change_set \<times> 'v option"
where
  "read_key ops cs key =
     (case map_of (ch_writes cs) key of
        Some value_opt \<Rightarrow> (cs, value_opt)
      | None \<Rightarrow>
          (case m_get ops (ch_state cs) key of
             None \<Rightarrow> (record_read cs key (NoVersion, NoVersion), None)
           | Some vv \<Rightarrow> (record_read cs key (vv_version vv, vv_read_version vv), Some (vv_value vv))))"

definition handle_get ::
  "('s, 'k::linorder, 'v versionv) map_ops \<Rightarrow> ('s, 'k, 'v) change_set \<Rightarrow> 'k \<Rightarrow> ('s, 'k, 'v) change_set \<times> 'v option"
where
  "handle_get ops cs key = read_key ops cs key"

definition handle_has ::
  "('s, 'k::linorder, 'v versionv) map_ops \<Rightarrow> ('s, 'k, 'v) change_set \<Rightarrow> 'k \<Rightarrow> ('s, 'k, 'v) change_set \<times> bool"
where
  "handle_has ops cs key = (let (cs', v) = read_key ops cs key in (cs', v \<noteq> None))"

definition get_version_of_previous_write ::
  "('s, 'k::linorder, 'v versionv) map_ops \<Rightarrow> ('s, 'k, 'v) change_set \<Rightarrow> 'k \<Rightarrow> ('s, 'k, 'v) change_set \<times> nat option"
where
  "get_version_of_previous_write ops cs key =
     (case m_get ops (ch_state cs) key of
        None \<Rightarrow> (record_read cs key (NoVersion, NoVersion), None)
      | Some vv \<Rightarrow> (record_read cs key (vv_version vv, vv_read_version vv), Some (vv_version vv)))"

definition get_globally_committed ::
  "('s, 'k, 'v versionv) map_ops \<Rightarrow> ('s, 'k, 'v) change_set \<Rightarrow> 'k \<Rightarrow> 'v option"
where
  "get_globally_committed ops cs key = map_option vv_value (m_get ops (ch_committed cs) key)"

definition has_globally_committed ::
  "('s, 'k, 'v versionv) map_ops \<Rightarrow> ('s, 'k, 'v) change_set \<Rightarrow> 'k \<Rightarrow> bool"
where
  "has_globally_committed ops cs key \<longleftrightarrow> m_get ops (ch_committed cs) key \<noteq> None"

definition handle_put :: "('s, 'k::linorder, 'v) change_set \<Rightarrow> 'k \<Rightarrow> 'v \<Rightarrow> ('s, 'k, 'v) change_set" where
  "handle_put cs key value = cs\<lparr>ch_writes := omap_set key (Some value) (ch_writes cs)\<rparr>"

definition handle_remove :: "('s, 'k::linorder, 'v) change_set \<Rightarrow> 'k \<Rightarrow> ('s, 'k, 'v) change_set" where
  "handle_remove cs key = cs\<lparr>ch_writes := omap_set key None (ch_writes cs)\<rparr>"

text \<open>
  A visitor receives a key and a value, changes the change set and whatever else it captures (\<open>'a\<close>), and
  says whether to go on. The second loop runs over a copy of the write set; it leaves the flag as it is
  at a removal, and then stops if the flag was false.
\<close>

type_synonym ('s, 'k, 'v, 'a) visitor =
  "'k \<Rightarrow> 'v \<Rightarrow> ('s, 'k, 'v) change_set \<times> 'a \<Rightarrow> (('s, 'k, 'v) change_set \<times> 'a) \<times> bool"

fun visit_writes ::
  "('k \<Rightarrow> 'v \<Rightarrow> 'x \<Rightarrow> 'x \<times> bool) \<Rightarrow> ('k, 'v) write_set \<Rightarrow> 'x \<Rightarrow> bool \<Rightarrow> 'x"
where
  "visit_writes f [] x should_continue = x"
| "visit_writes f ((k, ov) # w) x should_continue =
     (let (x', go) = (case ov of Some v \<Rightarrow> f k v x | None \<Rightarrow> (x, should_continue))
      in if \<not> go then x' else visit_writes f w x' go)"

definition foreach_state_and_writes ::
  "('s, 'k, 'v versionv) map_ops \<Rightarrow> ('s, 'k, 'v, 'a) visitor \<Rightarrow> bool \<Rightarrow>
   ('s, 'k, 'v) change_set \<Rightarrow> 'a \<Rightarrow> ('s, 'k, 'v) change_set \<times> 'a"
where
  "foreach_state_and_writes ops f always_consider_writes cs a =
     (let w = ch_writes cs;
          (x, should_continue) =
            visit_all (\<lambda>k vv x. if map_of w k = None then f k (vv_value vv) x else (x, True))
              (m_elems ops (ch_state cs)) (cs\<lparr>ch_read_version := ch_start_version cs\<rparr>, a)
      in if always_consider_writes \<or> should_continue then visit_writes f w x should_continue else x)"

definition handle_foreach ::
  "('s, 'k, 'v versionv) map_ops \<Rightarrow> ('s, 'k, 'v, 'a) visitor \<Rightarrow>
   ('s, 'k, 'v) change_set \<Rightarrow> 'a \<Rightarrow> ('s, 'k, 'v) change_set \<times> 'a"
where
  "handle_foreach ops f cs a = foreach_state_and_writes ops f False cs a"

definition remove_visitor :: "('s, 'k::linorder, 'v, unit) visitor" where
  "remove_visitor k v x = ((handle_remove (fst x) k, snd x), True)"

definition handle_clear ::
  "('s, 'k::linorder, 'v versionv) map_ops \<Rightarrow> ('s, 'k, 'v) change_set \<Rightarrow> ('s, 'k, 'v) change_set"
where
  "handle_clear ops cs = fst (handle_foreach ops remove_visitor cs ())"

definition count_visitor :: "('s, 'k, 'v, nat) visitor" where
  "count_visitor k v x = ((fst x, add64 (snd x) 1), True)"

definition handle_size ::
  "('s, 'k, 'v versionv) map_ops \<Rightarrow> ('s, 'k, 'v) change_set \<Rightarrow> ('s, 'k, 'v) change_set \<times> nat"
where
  "handle_size ops cs = handle_foreach ops count_visitor cs 0"

text \<open>
  \<^verbatim>\<open>range\<close> collects the elements between \<^verbatim>\<open>from\<close> and \<^verbatim>\<open>to\<close>, the latter excluded, in the order of the keys; the
  functor is then called on each. \<open>continue_past_range_to\<close> is true for \<^verbatim>\<open>champ::Map\<close> and false for \<^verbatim>\<open>rb::Map\<close>.
\<close>

definition range_visitor ::
  "bool \<Rightarrow> 'k::linorder option \<Rightarrow> 'k option \<Rightarrow> ('s, 'k, 'v, ('k \<times> 'v) list) visitor"
where
  "range_visitor continue_past_range_to from to k v x =
     (if (case from of Some f \<Rightarrow> k < f | None \<Rightarrow> False) then (x, True)
      else if (case to of Some t \<Rightarrow> k = t \<or> t < k | None \<Rightarrow> False) then (x, continue_past_range_to)
      else ((fst x, omap_set k v (snd x)), True))"

definition handle_range ::
  "('s, 'k::linorder, 'v versionv) map_ops \<Rightarrow> bool \<Rightarrow> 'k option \<Rightarrow> 'k option \<Rightarrow>
   ('s, 'k, 'v) change_set \<Rightarrow> ('s, 'k, 'v) change_set \<times> ('k \<times> 'v) list"
where
  "handle_range ops continue_past_range_to from to cs =
     (if (case (from, to) of (Some f, Some t) \<Rightarrow> f = t \<or> t < f | _ \<Rightarrow> False) then (cs, [])
      else foreach_state_and_writes ops (range_visitor continue_past_range_to from to) True cs [])"

section \<open>Differences\<close>

text \<open>
  \<^verbatim>\<open>MapDiff\<close> shows the writes of a change set alone, removals included. Its visitors receive an optional value.
\<close>

definition diff_foreach :: "('k \<Rightarrow> 'v option \<Rightarrow> 'x \<Rightarrow> 'x \<times> bool) \<Rightarrow> ('k, 'v) write_set \<Rightarrow> 'x \<Rightarrow> 'x" where
  "diff_foreach f writes x = fst (visit_all f writes x)"

definition diff_get :: "('k, 'v) write_set \<Rightarrow> 'k \<Rightarrow> 'v option option" where
  "diff_get writes key = map_of writes key"

definition diff_has :: "('k, 'v) write_set \<Rightarrow> 'k \<Rightarrow> bool" where
  "diff_has writes key = (case map_of writes key of Some v \<Rightarrow> v \<noteq> None | None \<Rightarrow> False)"

definition diff_is_deleted :: "('k, 'v) write_set \<Rightarrow> 'k \<Rightarrow> bool" where
  "diff_is_deleted writes key = (case map_of writes key of Some v \<Rightarrow> v = None | None \<Rightarrow> False)"

definition diff_size :: "('k, 'v) write_set \<Rightarrow> nat" where
  "diff_size writes = diff_foreach (\<lambda>_ _ n. (add64 n 1, True)) writes 0"

definition diff_range ::
  "bool \<Rightarrow> 'k::linorder option \<Rightarrow> 'k option \<Rightarrow> ('k, 'v) write_set \<Rightarrow> ('k, 'v) write_set"
where
  "diff_range continue_past_range_to from to writes =
     (if (case (from, to) of (Some f, Some t) \<Rightarrow> f = t \<or> t < f | _ \<Rightarrow> False) then []
      else diff_foreach
        (\<lambda>k v res.
           if (case from of Some f \<Rightarrow> k < f | None \<Rightarrow> False) then (res, True)
           else if (case to of Some t \<Rightarrow> k = t \<or> t < k | None \<Rightarrow> False) then (res, continue_past_range_to)
           else (omap_set k v res, True))
        writes [])"

section \<open>The map and its roll\<close>

record ('s, 'k, 'v) local_commit =
  lc_version :: nat
  lc_state :: 's
  lc_writes :: "('k, 'v) write_set"

datatype security_domain = PUBLIC | PRIVATE

text \<open>
  A map hook turns a version and its writes into a hook of the consensus, of type \<open>'h\<close>, or none. The global
  hook is called for its effects; its calls are an output of \<open>post_compact\<close>.
\<close>

record ('s, 'k, 'v, 'h) kv_map =
  km_name :: string
  km_security_domain :: security_domain
  km_commits :: "('s, 'k, 'v) local_commit list"
  km_rollback_counter :: nat
  km_global_hook :: bool
  km_hook :: "(nat \<Rightarrow> ('k, 'v) write_set \<Rightarrow> 'h option) option"
  km_commit_deltas :: "(nat \<times> ('k, 'v) write_set) list"

abbreviation km_tail :: "('s, 'k, 'v, 'h) kv_map \<Rightarrow> ('s, 'k, 'v) local_commit" where
  "km_tail m \<equiv> last (km_commits m)"

abbreviation km_head :: "('s, 'k, 'v, 'h) kv_map \<Rightarrow> ('s, 'k, 'v) local_commit" where
  "km_head m \<equiv> hd (km_commits m)"

definition reset_commits :: "('s, 'k, 'w) map_ops \<Rightarrow> ('s, 'k, 'v, 'h) kv_map \<Rightarrow> ('s, 'k, 'v, 'h) kv_map" where
  "reset_commits ops m = m\<lparr>km_commits := [\<lparr>lc_version = 0, lc_state = m_empty ops, lc_writes = []\<rparr>]\<rparr>"

definition new_map :: "('s, 'k, 'w) map_ops \<Rightarrow> string \<Rightarrow> security_domain \<Rightarrow> ('s, 'k, 'v, 'h) kv_map" where
  "new_map ops nm sd =
     reset_commits ops
       \<lparr>km_name = nm, km_security_domain = sd, km_commits = [], km_rollback_counter = 0,
        km_global_hook = False, km_hook = None, km_commit_deltas = []\<rparr>"

definition create_change_set ::
  "('s, 'k, 'v, 'h) kv_map \<Rightarrow> nat \<Rightarrow> bool \<Rightarrow> ('s, 'k, 'v) change_set option"
where
  "create_change_set m version track_deletes_on_missing_keys =
     map_option (\<lambda>current.
         new_change_set (km_rollback_counter m) (lc_state current) (lc_state (km_head m))
           (if track_deletes_on_missing_keys then lc_writes current else []) (lc_version current))
       (find (\<lambda>current. lc_version current \<le> version) (rev (km_commits m)))"

definition prepare ::
  "('s, 'k, 'v versionv) map_ops \<Rightarrow> ('s, 'k, 'v, 'h) kv_map \<Rightarrow> ('s, 'k, 'v) change_set \<Rightarrow> bool"
where
  "prepare ops m cs \<longleftrightarrow>
     ch_rollback_counter cs = km_rollback_counter m \<and>
     (ch_read_version cs = NoVersion \<or> ch_read_version cs = lc_version (km_tail m)) \<and>
     list_all (\<lambda>(key, version, _).
         (case m_get ops (lc_state (km_tail m)) key of
            None \<Rightarrow> version = NoVersion
          | Some vv \<Rightarrow> version \<noteq> NoVersion \<and> version = vv_version vv))
       (ch_reads cs)"

fun commit_write ::
  "('s, 'k, 'v versionv) map_ops \<Rightarrow> nat \<Rightarrow> bool \<Rightarrow> 's \<times> bool \<Rightarrow> 'k \<times> 'v option \<Rightarrow> 's \<times> bool"
where
  "commit_write ops v track (state, changes) (key, Some value) =
     (m_put ops state key \<lparr>vv_version = v, vv_read_version = v, vv_value = value\<rparr>, True)"
| "commit_write ops v track (state, changes) (key, None) =
     (if m_get ops state key \<noteq> None then (m_remove ops state key, True)
      else (state, changes \<or> track))"

text \<open>The result has the commit version of the committer, which is what its \<^verbatim>\<open>post_commit\<close> passes to the hook.\<close>

definition handle_commit ::
  "('s, 'k, 'v versionv) map_ops \<Rightarrow> nat \<Rightarrow> bool \<Rightarrow> ('s, 'k, 'v) change_set \<Rightarrow> ('s, 'k, 'v, 'h) kv_map \<Rightarrow>
   ('s, 'k, 'v, 'h) kv_map \<times> nat"
where
  "handle_commit ops v track_deletes_on_missing_keys cs m =
     (if ch_writes cs = [] then (m, ch_start_version cs)
      else
        let (state, changes) =
          foldl (commit_write ops v track_deletes_on_missing_keys) (lc_state (km_tail m), False) (ch_writes cs)
        in (if changes
            then m\<lparr>km_commits := km_commits m @ [\<lparr>lc_version = v, lc_state = state, lc_writes = ch_writes cs\<rparr>]\<rparr>
            else m, v))"

definition trigger_map_hook :: "('s, 'k, 'v, 'h) kv_map \<Rightarrow> nat \<Rightarrow> ('k, 'v) write_set \<Rightarrow> 'h option" where
  "trigger_map_hook m version writes =
     (case km_hook m of Some hook \<Rightarrow> if writes \<noteq> [] then hook version writes else None | None \<Rightarrow> None)"

definition handle_post_commit ::
  "('s, 'k, 'v, 'h) kv_map \<Rightarrow> ('s, 'k, 'v) change_set \<Rightarrow> nat \<Rightarrow> 'h option"
where
  "handle_post_commit m cs commit_version = trigger_map_hook m commit_version (ch_writes cs)"

text \<open>The committer of a snapshot of the map, which replaces its whole roll.\<close>

definition snapshot_commit ::
  "('s, 'k::linorder, 'v versionv) map_ops \<Rightarrow> 's \<Rightarrow> nat \<Rightarrow> ('s, 'k, 'v, 'h) kv_map \<Rightarrow> ('s, 'k, 'v, 'h) kv_map"
where
  "snapshot_commit ops state version m =
     (let writes =
        (if km_hook m \<noteq> None \<or> km_global_hook m
         then foldl (\<lambda>w (k, vv). omap_set k (Some (vv_value vv)) w) [] (m_elems ops state) else [])
      in m\<lparr>km_commits := [\<lparr>lc_version = version, lc_state = state, lc_writes = writes\<rparr>],
           km_rollback_counter := Suc (km_rollback_counter m)\<rparr>)"

definition snapshot_post_commit :: "('s, 'k, 'v, 'h) kv_map \<Rightarrow> nat \<Rightarrow> 'h option" where
  "snapshot_post_commit m version = trigger_map_hook m version (lc_writes (km_head m))"

text \<open>A snapshot has the version and the state of the last commit up to \<open>v\<close>, or else of the oldest one.\<close>

definition map_snapshot :: "('s, 'k, 'v, 'h) kv_map \<Rightarrow> nat \<Rightarrow> nat \<times> 's" where
  "map_snapshot m v =
     (let r = (case find (\<lambda>current. lc_version current \<le> v) (rev (km_commits m)) of
                 Some current \<Rightarrow> current | None \<Rightarrow> km_head m)
      in (lc_version r, lc_state r))"

fun compact_loop ::
  "bool \<Rightarrow> nat \<Rightarrow> (nat \<times> ('k, 'v) write_set) list \<Rightarrow> ('s, 'k, 'v) local_commit list \<Rightarrow>
   (nat \<times> ('k, 'v) write_set) list \<times> ('s, 'k, 'v) local_commit list"
where
  "compact_loop global_hook v deltas (r # r' # cs) =
     (if lc_version r = v then
        (if global_hook then (deltas @ [(lc_version r, lc_writes r)], r\<lparr>lc_writes := []\<rparr> # r' # cs)
         else (deltas, r # r' # cs))
      else
        let (deltas, r) =
          (if global_hook \<and> lc_writes r \<noteq> [] then (deltas @ [(lc_version r, lc_writes r)], r\<lparr>lc_writes := []\<rparr>)
           else (deltas, r))
        in if v < lc_version r' then (deltas, r # r' # cs)
           else compact_loop global_hook v deltas (r' # cs))"
| "compact_loop global_hook v deltas [r] =
     (if global_hook \<and> lc_writes r \<noteq> [] then (deltas @ [(lc_version r, lc_writes r)], [r\<lparr>lc_writes := []\<rparr>])
      else (deltas, [r]))"
| "compact_loop global_hook v deltas [] = (deltas, [])"

definition map_compact :: "nat \<Rightarrow> ('s, 'k, 'v, 'h) kv_map \<Rightarrow> ('s, 'k, 'v, 'h) kv_map" where
  "map_compact v m =
     (let (deltas, cs) = compact_loop (km_global_hook m) v (km_commit_deltas m) (km_commits m)
      in m\<lparr>km_commits := cs, km_commit_deltas := deltas\<rparr>)"

definition map_post_compact ::
  "('s, 'k, 'v, 'h) kv_map \<Rightarrow> ('s, 'k, 'v, 'h) kv_map \<times> (nat \<times> ('k, 'v) write_set) list"
where
  "map_post_compact m = (m\<lparr>km_commit_deltas := []\<rparr>, if km_global_hook m then km_commit_deltas m else [])"

definition map_rollback :: "nat \<Rightarrow> ('s, 'k, 'v, 'h) kv_map \<Rightarrow> ('s, 'k, 'v, 'h) kv_map" where
  "map_rollback v m =
     (let cs = km_commits m; cs' = take 1 cs @ pop_back_while (\<lambda>r. v < lc_version r) (drop 1 cs)
      in m\<lparr>km_commits := cs',
           km_rollback_counter := (if length cs' < length cs then Suc (km_rollback_counter m)
                                   else km_rollback_counter m)\<rparr>)"

definition map_clear :: "('s, 'k, 'w) map_ops \<Rightarrow> ('s, 'k, 'v, 'h) kv_map \<Rightarrow> ('s, 'k, 'v, 'h) kv_map" where
  "map_clear ops m = (reset_commits ops m)\<lparr>km_rollback_counter := 0\<rparr>"

definition map_swap ::
  "('s, 'k, 'v, 'h) kv_map \<Rightarrow> ('s, 'k, 'v, 'h) kv_map \<Rightarrow> ('s, 'k, 'v, 'h) kv_map \<times> ('s, 'k, 'v, 'h) kv_map"
where
  "map_swap a b =
     (a\<lparr>km_commits := km_commits b, km_rollback_counter := km_rollback_counter b\<rparr>,
      b\<lparr>km_commits := km_commits a, km_rollback_counter := km_rollback_counter a\<rparr>)"

end
