(* ===== verification/KV_History.thy ===== *)
theory KV_History
  imports KV_Map
begin

text \<open>
  What one map promises about its history. The specification is the list of the write sets that have been
  committed and not rolled back, with their versions: the state at a version is their replay, and
  the global hook has been called for each of them up to the compacted version, once and in order.
\<close>

section \<open>Replay of a history\<close>

type_synonym ('k, 'v) history = "(nat \<times> ('k, 'v) write_set) list"

definition replay_write :: "nat \<Rightarrow> ('k \<rightharpoonup> 'v versionv) \<Rightarrow> 'k \<times> 'v option \<Rightarrow> 'k \<rightharpoonup> 'v versionv" where
  "replay_write v M kov =
     M(fst kov := map_option (\<lambda>x. \<lparr>vv_version = v, vv_read_version = v, vv_value = x\<rparr>) (snd kov))"

definition replay_entry :: "('k \<rightharpoonup> 'v versionv) \<Rightarrow> nat \<times> ('k, 'v) write_set \<Rightarrow> 'k \<rightharpoonup> 'v versionv" where
  "replay_entry M e = foldl (replay_write (fst e)) M (snd e)"

definition replay :: "('k, 'v) history \<Rightarrow> 'k \<rightharpoonup> 'v versionv" where
  "replay L = foldl replay_entry Map.empty L"

text \<open>A write set that only removes keys which are absent changes nothing.\<close>

definition effective :: "('k \<rightharpoonup> 'v versionv) \<Rightarrow> ('k, 'v) write_set \<Rightarrow> bool" where
  "effective M w \<longleftrightarrow> list_ex (\<lambda>(k, ov). ov \<noteq> None \<or> M k \<noteq> None) w"

lemma replay_ineffective: "\<not> effective M w \<Longrightarrow> foldl (replay_write v) M w = M"
  by (induction w arbitrary: M) (auto simp: effective_def replay_write_def fun_upd_idem)

lemma replay_snoc: "replay (L @ [e]) = replay_entry (replay L) e"
  by (simp add: replay_def)

section \<open>Operations on a map and on its specification\<close>

datatype ('k, 'v) map_op = Commit nat "('k, 'v) write_set" | Rollback nat | Compact nat

fun map_op_step ::
  "('s, 'k, 'v versionv) map_ops \<Rightarrow> ('s, 'k, 'v, 'h) kv_map \<Rightarrow> ('k, 'v) map_op \<Rightarrow>
   ('s, 'k, 'v, 'h) kv_map \<times> (nat \<times> ('k, 'v) write_set) list"
where
  "map_op_step ops m (Commit v w) =
     (fst (handle_commit ops v False
        (new_change_set (km_rollback_counter m) (lc_state (km_tail m)) (lc_state (km_head m)) w (lc_version (km_tail m)))
        m), [])"
| "map_op_step ops m (Rollback v) = (map_rollback v m, [])"
| "map_op_step ops m (Compact v) = map_post_compact (map_compact v m)"

fun map_ops_run ::
  "('s, 'k, 'v versionv) map_ops \<Rightarrow> ('k, 'v) map_op list \<Rightarrow> ('s, 'k, 'v, 'h) kv_map \<Rightarrow>
   ('s, 'k, 'v, 'h) kv_map \<times> (nat \<times> ('k, 'v) write_set) list"
where
  "map_ops_run ops [] m = (m, [])"
| "map_ops_run ops (u # us) m =
     (let (m', calls) = map_op_step ops m u; (m'', calls') = map_ops_run ops us m' in (m'', calls @ calls'))"

text \<open>The specification: the history, the compacted version and the current version.\<close>

type_synonym ('k, 'v) ledger = "('k, 'v) history \<times> nat \<times> nat"

fun ledger_step :: "('k, 'v) ledger \<Rightarrow> ('k, 'v) map_op \<Rightarrow> ('k, 'v) ledger" where
  "ledger_step (L, c, cur) (Commit v w) = (if effective (replay L) w then L @ [(v, w)] else L, c, v)"
| "ledger_step (L, c, cur) (Rollback v) = (filter (\<lambda>e. fst e \<le> v) L, c, v)"
| "ledger_step (L, c, cur) (Compact v) = (L, v, cur)"

text \<open>
  What the store guarantees to a map: versions of commits ascend, a rollback goes neither behind the
  compacted version nor beyond the current one, and compaction advances up to the current version.
\<close>

fun op_allowed :: "('k, 'v) ledger \<Rightarrow> ('k, 'v) map_op \<Rightarrow> bool" where
  "op_allowed (L, c, cur) (Commit v w) \<longleftrightarrow> cur < v \<and> w \<noteq> []"
| "op_allowed (L, c, cur) (Rollback v) \<longleftrightarrow> c \<le> v \<and> v \<le> cur"
| "op_allowed (L, c, cur) (Compact v) \<longleftrightarrow> c < v \<and> v \<le> cur"

fun ledger_run :: "('k, 'v) map_op list \<Rightarrow> ('k, 'v) ledger \<Rightarrow> ('k, 'v) ledger" where
  "ledger_run [] l = l"
| "ledger_run (u # us) l = ledger_run us (ledger_step l u)"

fun run_allowed :: "('k, 'v) map_op list \<Rightarrow> ('k, 'v) ledger \<Rightarrow> bool" where
  "run_allowed [] l \<longleftrightarrow> True"
| "run_allowed (u # us) l \<longleftrightarrow> op_allowed l u \<and> run_allowed us (ledger_step l u)"

section \<open>The roll against the history\<close>

text \<open>The local commits after the head, against the part of the history that they hold.\<close>

fun matches ::
  "('s, 'k, 'v versionv) map_ops \<Rightarrow> ('s \<Rightarrow> bool) \<Rightarrow> ('k \<rightharpoonup> 'v versionv) \<Rightarrow> ('s, 'k, 'v) local_commit list \<Rightarrow>
   ('k, 'v) history \<Rightarrow> bool"
where
  "matches ops ok M [] [] \<longleftrightarrow> True"
| "matches ops ok M (r # rs) (e # L) \<longleftrightarrow>
     lc_version r = fst e \<and> lc_writes r = snd e \<and> ok (lc_state r) \<and> m_get ops (lc_state r) = replay_entry M e \<and>
     matches ops ok (replay_entry M e) rs L"
| "matches ops ok M _ _ \<longleftrightarrow> False"

definition up_to :: "nat \<Rightarrow> ('k, 'v) history \<Rightarrow> ('k, 'v) history" where
  "up_to v L = filter (\<lambda>e. fst e \<le> v) L"

definition beyond :: "nat \<Rightarrow> ('k, 'v) history \<Rightarrow> ('k, 'v) history" where
  "beyond v L = filter (\<lambda>e. v < fst e) L"

abbreviation last_version :: "nat \<Rightarrow> ('k, 'v) history \<Rightarrow> nat" where
  "last_version d L \<equiv> (if L = [] then d else fst (last L))"

lemma matches_length: "matches ops ok M rs L \<Longrightarrow> length rs = length L"
  by (induction ops ok M rs L rule: matches.induct) auto

lemma matches_snoc:
  "matches ops ok M (rs @ [r]) (L @ [e]) \<longleftrightarrow>
   matches ops ok M rs L \<and> lc_version r = fst e \<and> lc_writes r = snd e \<and> ok (lc_state r) \<and>
   m_get ops (lc_state r) = replay_entry (foldl replay_entry M L) e"
proof (induction rs arbitrary: M L)
  case Nil
  then show ?case
  proof (cases L)
    case (Cons e' L')
    then show ?thesis by (cases L') auto
  qed simp
next
  case (Cons r' rs)
  then show ?case
  proof (cases L)
    case Nil
    then show ?thesis by (cases rs) auto
  qed (use Cons in auto)
qed

lemma matches_versions: "matches ops ok M rs L \<Longrightarrow> map lc_version rs = map fst L"
  by (induction ops ok M rs L rule: matches.induct) auto

lemma up_to_append: "sorted_wrt (<) (map fst L) \<Longrightarrow> L = up_to v L @ beyond v L"
proof (induction L)
  case (Cons e L)
  show ?case
  proof (cases "fst e \<le> v")
    case False
    then have "\<forall>e'\<in>set L. v < fst e'" using Cons.prems by auto
    then have "up_to v L = []" "beyond v L = L" by (auto simp: up_to_def beyond_def filter_empty_conv filter_id_conv)
    then show ?thesis using False by (simp add: up_to_def beyond_def)
  qed (use Cons in \<open>simp add: up_to_def beyond_def\<close>)
qed (simp add: up_to_def beyond_def)

lemma up_to_snoc: "up_to v (L @ [e]) = up_to v L @ (if fst e \<le> v then [e] else [])"
  and beyond_snoc: "beyond v (L @ [e]) = beyond v L @ (if v < fst e then [e] else [])"
  by (simp_all add: up_to_def beyond_def)

lemma up_to_up_to: "u \<le> v \<Longrightarrow> up_to u (up_to v L) = up_to u L"
  by (auto simp: up_to_def filter_filter intro!: filter_cong)

lemma compact_loop_matches:
  assumes "matches ops ok M rs L" "sorted_wrt (<) (lc_version r # map lc_version rs)" "lc_version r \<le> v"
    "lc_version r = v \<Longrightarrow> lc_writes r \<noteq> []" "\<forall>e\<in>set L. snd e \<noteq> []" "ok (lc_state r)" "m_get ops (lc_state r) = M"
  shows "\<exists>r' rs'. compact_loop g v ds (r # rs) =
       (if g then ds @ (if lc_writes r = [] then [] else [(lc_version r, lc_writes r)]) @ up_to v L else ds, r' # rs') \<and>
    lc_version r' = last_version (lc_version r) (up_to v L) \<and> m_get ops (lc_state r') = foldl replay_entry M (up_to v L) \<and>
    ok (lc_state r') \<and> (g \<longrightarrow> lc_writes r' = []) \<and> matches ops ok (foldl replay_entry M (up_to v L)) rs' (beyond v L)"
  using assms
proof (induction rs arbitrary: M L r ds)
  case Nil
  then have "L = []" using matches_length by fastforce
  then show ?case using Nil.prems by (auto simp: up_to_def beyond_def)
next
  case (Cons r2 rs)
  from Cons.prems(1) obtain e L' where L: "L = e # L'" by (cases L) auto
  have m: "lc_version r2 = fst e" "lc_writes r2 = snd e" "ok (lc_state r2)" "m_get ops (lc_state r2) = replay_entry M e"
      "matches ops ok (replay_entry M e) rs L'"
    using Cons.prems(1) by (simp_all add: L)
  show ?case
  proof (cases "v < lc_version r2")
    case True
    have "sorted_wrt (<) (map lc_version (r2 # rs))" using Cons.prems(2) by simp
    then have "sorted_wrt (<) (map fst L)" unfolding matches_versions [OF Cons.prems(1)] .
    then have "\<forall>x\<in>set L. v < fst x" using True m(1) by (auto simp: L)
    then have f: "up_to v L = []" "beyond v L = L"
      by (auto simp: up_to_def beyond_def filter_empty_conv filter_id_conv)
    let ?r = "if g then r\<lparr>lc_writes := []\<rparr> else r"
    have "compact_loop g v ds (r # r2 # rs) =
        (if g then ds @ (if lc_writes r = [] then [] else [(lc_version r, lc_writes r)]) @ up_to v L else ds, ?r # r2 # rs)"
      using True Cons.prems(4) by (cases "lc_version r = v") (auto simp: f)
    then show ?thesis
      using Cons.prems f by (intro exI [of _ ?r] exI [of _ "r2 # rs"] conjI) (auto simp del: compact_loop.simps)
  next
    case False
    then have le: "lc_version r2 \<le> v" "lc_version r \<noteq> v" using Cons.prems(2) by auto
    have u: "up_to v L = e # up_to v L'" "beyond v L = beyond v L'" using le(1) m(1) by (simp_all add: L up_to_def beyond_def)
    define ds2 where "ds2 = (if g \<and> lc_writes r \<noteq> [] then ds @ [(lc_version r, lc_writes r)] else ds)"
    have w: "lc_writes r2 \<noteq> []" "\<forall>e\<in>set L'. snd e \<noteq> []" using Cons.prems(5) m(2) by (auto simp: L)
    have s: "sorted_wrt (<) (lc_version r2 # map lc_version rs)" using Cons.prems(2) by simp
    from Cons.IH [OF m(5) s le(1) w(1) w(2) m(3,4), of ds2] obtain r' rs' where
      IH: "compact_loop g v ds2 (r2 # rs) =
         (if g then ds2 @ [(lc_version r2, lc_writes r2)] @ up_to v L' else ds2, r' # rs')"
        "lc_version r' = last_version (lc_version r2) (up_to v L')"
        "m_get ops (lc_state r') = foldl replay_entry (replay_entry M e) (up_to v L')"
        "ok (lc_state r')" "g \<longrightarrow> lc_writes r' = []"
        "matches ops ok (foldl replay_entry (replay_entry M e) (up_to v L')) rs' (beyond v L')"
      using w(1) by auto
    have "compact_loop g v ds (r # r2 # rs) = compact_loop g v ds2 (r2 # rs)"
      using le False by (simp add: ds2_def Let_def)
    then have "compact_loop g v ds (r # r2 # rs) =
        (if g then ds @ (if lc_writes r = [] then [] else [(lc_version r, lc_writes r)]) @ up_to v L else ds, r' # rs')"
      using IH(1) m(1,2) by (simp add: ds2_def u)
    then show ?thesis
      using IH(2-6) m(1) by (intro exI [of _ r'] exI [of _ rs'] conjI) (auto simp: u simp del: compact_loop.simps)
  qed
qed

lemma matches_last:
  assumes "matches ops ok M rs L" "rs \<noteq> []"
  shows "ok (lc_state (last rs))" "m_get ops (lc_state (last rs)) = foldl replay_entry M L"
    "lc_version (last rs) = fst (last L)" "L \<noteq> []"
proof -
  have "L \<noteq> []" using matches_length [OF assms(1)] assms(2) by auto
  then obtain rs' r L' e where "rs = rs' @ [r]" "L = L' @ [e]" using assms(2) by (metis append_butlast_last_id)
  then show "ok (lc_state (last rs))" "m_get ops (lc_state (last rs)) = foldl replay_entry M L"
    "lc_version (last rs) = fst (last L)" "L \<noteq> []"
    using assms(1) by (simp_all add: matches_snoc)
qed

lemma matches_pop:
  assumes "matches ops ok M rs L" "sorted_wrt (<) (map fst L)"
  shows "matches ops ok M (pop_back_while (\<lambda>r. v < lc_version r) rs) (up_to v L)"
  using assms
proof (induction rs arbitrary: L rule: rev_induct)
  case Nil
  then show ?case using matches_length [OF Nil(1)] by (simp add: up_to_def)
next
  case (snoc r rs)
  then have "L \<noteq> []" using matches_length by fastforce
  then obtain L' e where L: "L = L' @ [e]" by (metis append_butlast_last_id)
  have m: "matches ops ok M rs L'" "lc_version r = fst e" using snoc.prems(1) by (simp_all add: L matches_snoc)
  have s: "sorted_wrt (<) (map fst L')" "\<forall>x\<in>set L'. fst x < fst e"
    using snoc.prems(2) by (auto simp: L sorted_wrt_append)
  show ?case
  proof (cases "v < lc_version r")
    case True
    then show ?thesis using snoc.IH [OF m(1) s(1)] m(2) by (simp add: L up_to_snoc)
  next
    case False
    then have "up_to v L = L" using s(2) m(2) by (auto simp: L up_to_def filter_id_conv)
    then show ?thesis using False snoc.prems(1) by simp
  qed
qed

lemma beyond_up_to: "beyond c (up_to v L) = up_to v (beyond c L)"
  by (auto simp: beyond_def up_to_def filter_filter conj_commute intro!: filter_cong)

lemma sorted_history_filter: "sorted_wrt (<) (map fst L) \<Longrightarrow> sorted_wrt (<) (map fst (filter P L))"
  by (induction L) auto

lemma up_to_split:
  assumes "sorted_wrt (<) (map fst L)" "c \<le> v"
  shows "up_to v L = up_to c L @ up_to v (beyond c L)" "beyond v (beyond c L) = beyond v L"
proof -
  have "up_to v (up_to c L) = up_to c L" using assms(2) by (auto simp: up_to_def filter_filter intro!: filter_cong)
  moreover have "up_to v (A @ B) = up_to v A @ up_to v B" for A B :: "('a, 'b) history" by (simp add: up_to_def)
  ultimately show "up_to v L = up_to c L @ up_to v (beyond c L)" by (metis up_to_append [OF assms(1), of c])
  show "beyond v (beyond c L) = beyond v L"
    using assms(2) by (auto simp: beyond_def filter_filter intro!: filter_cong)
qed

section \<open>Every operation keeps the roll true to the history\<close>

text \<open>
  The invariant: the head holds the replay up to the compacted version, the other commits hold one entry
  each of the history beyond it, and nothing waits for the global hook.
\<close>

definition hist_ok ::
  "('k, 'v) ledger \<Rightarrow> bool"
where
  "hist_ok l \<longleftrightarrow> (case l of (L, c, cur) \<Rightarrow>
     sorted_wrt (<) (map fst L) \<and> (\<forall>e\<in>set L. 0 < fst e \<and> fst e \<le> cur \<and> snd e \<noteq> []) \<and> c \<le> cur)"

definition roll_ok ::
  "('s, 'k, 'v versionv) map_ops \<Rightarrow> ('s \<Rightarrow> bool) \<Rightarrow> ('s, 'k, 'v, 'h) kv_map \<Rightarrow> ('k, 'v) ledger \<Rightarrow> bool"
where
  "roll_ok ops ok m l \<longleftrightarrow> (case l of (L, c, cur) \<Rightarrow>
     (\<exists>r rs. km_commits m = r # rs \<and> lc_version r = last_version 0 (up_to c L) \<and>
        ok (lc_state r) \<and> m_get ops (lc_state r) = replay (up_to c L) \<and>
        matches ops ok (replay (up_to c L)) rs (beyond c L) \<and> lc_writes r = []) \<and>
     km_commit_deltas m = [] \<and> km_global_hook m)"

text \<open>A persistent map with versioned values.\<close>

locale versioned_map = persistent_map ops ok
  for ops :: "('s, 'k, 'v versionv) map_ops" and ok
begin

lemma commit_write_step:
  assumes "ok s"
  shows "ok (fst (commit_write ops v False (s, changes) kov))"
    "m_get ops (fst (commit_write ops v False (s, changes) kov)) = replay_write v (m_get ops s) kov"
    "snd (commit_write ops v False (s, changes) kov) \<longleftrightarrow> changes \<or> snd kov \<noteq> None \<or> m_get ops s (fst kov) \<noteq> None"
proof -
  obtain k ov where kov: "kov = (k, ov)" by (rule prod.exhaust)
  show "ok (fst (commit_write ops v False (s, changes) kov))"
    "m_get ops (fst (commit_write ops v False (s, changes) kov)) = replay_write v (m_get ops s) kov"
    "snd (commit_write ops v False (s, changes) kov) \<longleftrightarrow> changes \<or> snd kov \<noteq> None \<or> m_get ops s (fst kov) \<noteq> None"
    using assms
    by (cases ov; auto simp: kov replay_write_def ok_put ok_remove get_put get_remove fun_upd_idem)+
qed

lemma commit_fold:
  assumes "ok s"
  shows "ok (fst (foldl (commit_write ops v False) (s, changes) w)) \<and>
    m_get ops (fst (foldl (commit_write ops v False) (s, changes) w)) = foldl (replay_write v) (m_get ops s) w \<and>
    (snd (foldl (commit_write ops v False) (s, changes) w) \<longleftrightarrow> changes \<or> effective (m_get ops s) w)"
  using assms
proof (induction w arbitrary: s changes)
  case (Cons kov w)
  obtain s' changes' where st: "commit_write ops v False (s, changes) kov = (s', changes')" by (rule prod.exhaust)
  note step = commit_write_step [OF Cons.prems, of v changes kov, unfolded st fst_conv snd_conv]
  have "changes' \<or> effective (m_get ops s') w \<longleftrightarrow> changes \<or> effective (m_get ops s) (kov # w)"
  proof (cases "changes'")
    case True
    then show ?thesis using step(3) by (auto simp: effective_def)
  next
    case False
    then have "m_get ops s' = m_get ops s" using step(2,3) by (simp add: replay_write_def fun_upd_idem)
    then show ?thesis using False step(3) by (auto simp: effective_def)
  qed
  then show ?case using Cons.IH [OF step(1), of changes'] by (simp add: st step(2))
qed (simp add: effective_def)

lemma roll_tail:
  assumes h: "hist_ok (L, c, cur)" and roll: "roll_ok ops ok m (L, c, cur)"
  shows "km_commits m \<noteq> []" "ok (lc_state (km_tail m))" "m_get ops (lc_state (km_tail m)) = replay L"
proof -
  from roll obtain r rs where rs: "km_commits m = r # rs" "ok (lc_state r)" "m_get ops (lc_state r) = replay (up_to c L)"
      "matches ops ok (replay (up_to c L)) rs (beyond c L)"
    by (auto simp: roll_ok_def)
  have L: "L = up_to c L @ beyond c L" using h by (intro up_to_append) (simp add: hist_ok_def)
  then have rep: "replay L = foldl replay_entry (replay (up_to c L)) (beyond c L)" by (metis foldl_append replay_def)
  show "km_commits m \<noteq> []" by (simp add: rs(1))
  show "ok (lc_state (km_tail m))" "m_get ops (lc_state (km_tail m)) = replay L"
  proof (atomize (full), cases "rs = []")
    case True
    then have "beyond c L = []" using matches_length [OF rs(4)] by simp
    then show "ok (lc_state (km_tail m)) \<and> m_get ops (lc_state (km_tail m)) = replay L"
      using True rs rep by simp
  next
    case False
    then show "ok (lc_state (km_tail m)) \<and> m_get ops (lc_state (km_tail m)) = replay L"
      using matches_last [OF rs(4)] rs(1) rep by simp
  qed
qed

lemma commit_roll:
  assumes h: "hist_ok (L, c, cur)" and roll: "roll_ok ops ok m (L, c, cur)" and v: "cur < v" and "w \<noteq> []"
  shows "hist_ok (ledger_step (L, c, cur) (Commit v w)) \<and>
    roll_ok ops ok (fst (map_op_step ops m (Commit v w))) (ledger_step (L, c, cur) (Commit v w))"
proof -
  note tl = roll_tail [OF h roll]
  obtain s changes where fold: "foldl (commit_write ops v False) (lc_state (km_tail m), False) w = (s, changes)"
    by (rule prod.exhaust)
  have st: "ok s" "m_get ops s = replay_entry (replay L) (v, w)" "changes \<longleftrightarrow> effective (replay L) w"
    using commit_fold [OF tl(2), of v False w] by (auto simp: fold tl(3) replay_entry_def)
  have "c < v" using h v by (simp add: hist_ok_def)
  have m': "fst (map_op_step ops m (Commit v w)) =
      (if changes then m\<lparr>km_commits := km_commits m @ [\<lparr>lc_version = v, lc_state = s, lc_writes = w\<rparr>]\<rparr> else m)"
    using \<open>w \<noteq> []\<close> by (simp add: handle_commit_def new_change_set_def fold)
  have h': "hist_ok (ledger_step (L, c, cur) (Commit v w))"
    using h v \<open>w \<noteq> []\<close> by (auto simp: hist_ok_def sorted_wrt_append split: if_splits)
  have L: "L = up_to c L @ beyond c L" using h by (intro up_to_append) (simp add: hist_ok_def)
  then have rep: "replay L = foldl replay_entry (replay (up_to c L)) (beyond c L)" by (metis foldl_append replay_def)
  show ?thesis
  proof (cases changes)
    case True
    then have "roll_ok ops ok (fst (map_op_step ops m (Commit v w))) (L @ [(v, w)], c, v)"
      using roll st \<open>c < v\<close> unfolding m' roll_ok_def
      by (auto simp: up_to_snoc beyond_snoc matches_snoc rep)
    then show ?thesis using h' True st(3) by simp
  next
    case False
    then show ?thesis using h' roll st(3) unfolding m' by (simp add: roll_ok_def)
  qed
qed

lemma rollback_roll:
  assumes h: "hist_ok (L, c, cur)" and roll: "roll_ok ops ok m (L, c, cur)" and v: "c \<le> v"
  shows "hist_ok (ledger_step (L, c, cur) (Rollback v)) \<and>
    roll_ok ops ok (map_rollback v m) (ledger_step (L, c, cur) (Rollback v))"
proof -
  have s: "sorted_wrt (<) (map fst L)" using h by (simp add: hist_ok_def)
  have "hist_ok (up_to v L, c, v)"
    using h v sorted_history_filter [OF s] by (auto simp: hist_ok_def up_to_def)
  moreover from roll obtain r rs where rs: "km_commits m = r # rs" "lc_version r = last_version 0 (up_to c L)"
      "ok (lc_state r)" "m_get ops (lc_state r) = replay (up_to c L)"
      "matches ops ok (replay (up_to c L)) rs (beyond c L)" "lc_writes r = []" "km_commit_deltas m = []" "km_global_hook m"
    unfolding roll_ok_def by auto
  have "matches ops ok (replay (up_to c L)) (pop_back_while (\<lambda>r. v < lc_version r) rs) (up_to v (beyond c L))"
    using s by (intro matches_pop [OF rs(5)]) (simp add: beyond_def sorted_history_filter)
  then have "roll_ok ops ok (map_rollback v m) (up_to v L, c, v)"
    using rs up_to_up_to [OF v, of L] by (simp add: roll_ok_def map_rollback_def Let_def beyond_up_to)
  ultimately show ?thesis by (simp add: up_to_def)
qed

lemma compact_roll:
  assumes h: "hist_ok (L, c, cur)" and roll: "roll_ok ops ok m (L, c, cur)" and v: "c < v" "v \<le> cur"
  shows "hist_ok (L, v, cur) \<and> roll_ok ops ok (fst (map_op_step ops m (Compact v))) (L, v, cur) \<and>
    up_to c L @ snd (map_op_step ops m (Compact v)) = up_to v L"
proof -
  have s: "sorted_wrt (<) (map fst L)" using h by (simp add: hist_ok_def)
  from roll obtain r rs where rs: "km_commits m = r # rs" "lc_version r = last_version 0 (up_to c L)"
      "ok (lc_state r)" "m_get ops (lc_state r) = replay (up_to c L)"
      "matches ops ok (replay (up_to c L)) rs (beyond c L)" "lc_writes r = []" "km_commit_deltas m = []" "km_global_hook m"
    unfolding roll_ok_def by auto
  have "last_version 0 (up_to c L) \<le> c" using last_in_set [of "up_to c L"] by (auto simp: up_to_def)
  then have rc: "lc_version r \<le> c" using rs(2) by simp
  have "map lc_version rs = map fst (beyond c L)" by (rule matches_versions [OF rs(5)])
  then have srt: "sorted_wrt (<) (lc_version r # map lc_version rs)"
    using sorted_history_filter [OF s] rc by (auto simp: beyond_def)
  have w: "\<forall>e\<in>set (beyond c L). snd e \<noteq> []" using h by (auto simp: hist_ok_def beyond_def)
  have "lc_version r \<le> v" "lc_version r = v \<Longrightarrow> lc_writes r \<noteq> []" using rc v by auto
  from compact_loop_matches [OF rs(5) srt this w rs(3,4), of True "[]"] obtain r' rs' where
    c: "compact_loop True v [] (r # rs) = (up_to v (beyond c L), r' # rs')"
      "lc_version r' = last_version (lc_version r) (up_to v (beyond c L))"
      "m_get ops (lc_state r') = foldl replay_entry (replay (up_to c L)) (up_to v (beyond c L))"
      "ok (lc_state r')" "lc_writes r' = []"
      "matches ops ok (foldl replay_entry (replay (up_to c L)) (up_to v (beyond c L))) rs' (beyond v (beyond c L))"
    using rs(6) by auto
  note split = up_to_split [OF s less_imp_le [OF v(1)]]
  have rep: "replay (up_to v L) = foldl replay_entry (replay (up_to c L)) (up_to v (beyond c L))"
    by (metis split(1) foldl_append replay_def)
  have "lc_version r' = last_version 0 (up_to v L)" using c(2) rs(2) by (simp add: split(1))
  then have "roll_ok ops ok (fst (map_op_step ops m (Compact v))) (L, v, cur)"
    using c rs(1,7,8) by (simp add: roll_ok_def map_compact_def map_post_compact_def rep split(2))
  moreover have "snd (map_op_step ops m (Compact v)) = up_to v (beyond c L)"
    using c(1) rs(1,7,8) by (simp add: map_compact_def map_post_compact_def)
  ultimately show ?thesis using h v split(1) by (simp add: hist_ok_def)
qed

lemma run_roll:
  assumes "hist_ok (L, c, cur)" "roll_ok ops ok m (L, c, cur)" "run_allowed us (L, c, cur)"
    "map_ops_run ops us m = (m', calls)" "ledger_run us (L, c, cur) = (L', c', cur')"
  shows "hist_ok (L', c', cur') \<and> roll_ok ops ok m' (L', c', cur') \<and> up_to c L @ calls = up_to c' L'"
  using assms
proof (induction us arbitrary: L c cur m calls)
  case (Cons u us)
  obtain m1 calls1 where s1: "map_op_step ops m u = (m1, calls1)" by (rule prod.exhaust)
  obtain L1 c1 cur1 where l1: "ledger_step (L, c, cur) u = (L1, c1, cur1)" by (rule prod_cases3)
  obtain calls2 where s2: "map_ops_run ops us m1 = (m', calls2)" "calls = calls1 @ calls2"
    using Cons.prems(4) by (auto simp: s1 split: prod.splits)
  have "hist_ok (L1, c1, cur1) \<and> roll_ok ops ok m1 (L1, c1, cur1) \<and> up_to c L @ calls1 = up_to c1 L1"
  proof (cases u)
    case (Commit v w)
    then have "c < v" using Cons.prems(1,3) by (auto simp: hist_ok_def)
    then have "up_to c L1 = up_to c L" using l1 Commit by (auto simp: up_to_snoc split: if_splits)
    then show ?thesis
      using commit_roll [OF Cons.prems(1,2), of v w] Cons.prems(3) s1 l1 Commit by (auto split: if_splits)
  next
    case (Rollback v)
    then show ?thesis
      using rollback_roll [OF Cons.prems(1,2), of v] Cons.prems(3) s1 l1 up_to_up_to [of c v L]
      by (auto simp: up_to_def)
  next
    case (Compact v)
    then show ?thesis
      using compact_roll [OF Cons.prems(1,2), of v] Cons.prems(3) s1 l1 by auto
  qed
  note st = this
  have "hist_ok (L', c', cur') \<and> roll_ok ops ok m' (L', c', cur') \<and> up_to c1 L1 @ calls2 = up_to c' L'"
    using Cons.IH [of L1 c1 cur1 m1 calls2] Cons.prems(3,5) s2(1) l1 st by simp
  moreover have "up_to c L @ calls = up_to c1 L1 @ calls2" using st by (simp add: s2(2) flip: append_assoc)
  ultimately show ?case by simp
qed simp

lemma find_commit:
  "lc_version r \<le> u \<Longrightarrow> find (\<lambda>x. lc_version x \<le> u) (rev (r # rs)) =
     Some (last (r # pop_back_while (\<lambda>x. u < lc_version x) rs))"
  by (induction rs rule: rev_induct) auto

lemma change_set_state:
  assumes h: "hist_ok (L, c, cur)" and roll: "roll_ok ops ok m (L, c, cur)" and u: "c \<le> u"
  shows "\<exists>cs. create_change_set m u False = Some cs \<and> ok (ch_state cs) \<and> m_get ops (ch_state cs) = replay (up_to u L)"
proof -
  from roll obtain r rs where rs: "km_commits m = r # rs" "lc_version r = last_version 0 (up_to c L)"
    unfolding roll_ok_def by auto
  have "last_version 0 (up_to c L) \<le> c" using last_in_set [of "up_to c L"] by (auto simp: up_to_def)
  then have "lc_version r \<le> u" using rs(2) u by simp
  moreover have "hist_ok (up_to u L, c, u)" "roll_ok ops ok (map_rollback u m) (up_to u L, c, u)"
    using rollback_roll [OF h roll u] by (simp_all add: up_to_def)
  ultimately show ?thesis
    using roll_tail(2,3) [of "up_to u L" c u "map_rollback u m"] find_commit [of r u rs] rs(1)
    by (simp add: create_change_set_def new_change_set_def map_rollback_def Let_def del: rev.simps)
qed

end

interpretation chv: versioned_map "champ_ops h esz" "champ_ok h" for h :: "'k \<Rightarrow> 32 word" and esz :: "'k \<Rightarrow> 'v versionv \<Rightarrow> nat"
  by unfold_locales

section \<open>Properties\<close>

definition hooked_map :: "('s, 'k, 'w) map_ops \<Rightarrow> string \<Rightarrow> security_domain \<Rightarrow> ('s, 'k, 'v, 'h) kv_map" where
  "hooked_map ops nm sd = (new_map ops nm sd)\<lparr>km_global_hook := True\<rparr>"

lemma hooked_map_roll:
  "hist_ok ([], 0, 0)" "roll_ok (champ_ops h esz) (champ_ok h) (hooked_map (champ_ops h esz) nm sd) ([], 0, 0)"
  using ch.ok_empty [of h] ch.get_empty [of h]
  by (auto simp: hist_ok_def roll_ok_def hooked_map_def new_map_def reset_commits_def up_to_def beyond_def replay_def)


text \<open>Two commits, a third one that is rolled back, a compaction, and a removal.\<close>

definition sample_map_ops :: "(nat, nat) map_op list" where
  "sample_map_ops =
     [Commit 1 [(1, Some 10)], Commit 2 [(1, Some 11), (2, Some 20)], Commit 3 [(2, None)], Rollback 2, Compact 2,
      Commit 3 [(1, None)]]"


end
