(* ===== verification/KV_Serial.thy ===== *)
theory KV_Serial
  imports KV_History
begin

text \<open>
  Optimistic concurrency on one map. A transaction runs on a change set that was created at some version; when
  it commits, \<^verbatim>\<open>prepare\<close> checks its read set against the newest state. If the check passes, the transaction
  could as well have started from that state: it would have returned the same results and made the same
  writes. The map may change in any way in between: commits, rollbacks, compaction, snapshots.
\<close>

section \<open>Transactions\<close>

text \<open>
  What a transaction does with a handle, each step depending on the results so far. The two reads of globally
  committed values record no dependency and are left out.
\<close>

datatype ('k, 'v, 'a) prog =
  PReturn 'a
| PGet 'k "'v option \<Rightarrow> ('k, 'v, 'a) prog"
| PHas 'k "bool \<Rightarrow> ('k, 'v, 'a) prog"
| PPrevious 'k "nat option \<Rightarrow> ('k, 'v, 'a) prog"
| PPut 'k 'v "('k, 'v, 'a) prog"
| PRemove 'k "('k, 'v, 'a) prog"
| PForeach "('k \<times> 'v) list \<Rightarrow> ('k, 'v, 'a) prog"
| PSize "nat \<Rightarrow> ('k, 'v, 'a) prog"
| PRange "'k option" "'k option" "('k \<times> 'v) list \<Rightarrow> ('k, 'v, 'a) prog"
| PClear "('k, 'v, 'a) prog"

definition collect :: "('s, 'k, 'v, ('k \<times> 'v) list) visitor" where
  "collect k v x = ((fst x, snd x @ [(k, v)]), True)"

primrec prog_run ::
  "('s, 'k::linorder, 'v versionv) map_ops \<Rightarrow> ('k, 'v, 'a) prog \<Rightarrow> ('s, 'k, 'v) change_set \<Rightarrow> ('s, 'k, 'v) change_set \<times> 'a"
where
  "prog_run ops (PReturn a) = (\<lambda>cs. (cs, a))"
| "prog_run ops (PGet k c) = (\<lambda>cs. let (cs, r) = handle_get ops cs k in prog_run ops (c r) cs)"
| "prog_run ops (PHas k c) = (\<lambda>cs. let (cs, r) = handle_has ops cs k in prog_run ops (c r) cs)"
| "prog_run ops (PPrevious k c) = (\<lambda>cs. let (cs, r) = get_version_of_previous_write ops cs k in prog_run ops (c r) cs)"
| "prog_run ops (PPut k v c) = (\<lambda>cs. prog_run ops c (handle_put cs k v))"
| "prog_run ops (PRemove k c) = (\<lambda>cs. prog_run ops c (handle_remove cs k))"
| "prog_run ops (PForeach c) = (\<lambda>cs. let (cs, r) = handle_foreach ops collect cs [] in prog_run ops (c r) cs)"
| "prog_run ops (PSize c) = (\<lambda>cs. let (cs, r) = handle_size ops cs in prog_run ops (c r) cs)"
| "prog_run ops (PRange from to c) = (\<lambda>cs. let (cs, r) = handle_range ops True from to cs in prog_run ops (c r) cs)"
| "prog_run ops (PClear c) = (\<lambda>cs. prog_run ops c (handle_clear ops cs))"

primrec iteration_free :: "('k, 'v, 'a) prog \<Rightarrow> bool" where
  "iteration_free (PReturn a) \<longleftrightarrow> True"
| "iteration_free (PGet k c) \<longleftrightarrow> (\<forall>r. iteration_free (c r))"
| "iteration_free (PHas k c) \<longleftrightarrow> (\<forall>r. iteration_free (c r))"
| "iteration_free (PPrevious k c) \<longleftrightarrow> (\<forall>r. iteration_free (c r))"
| "iteration_free (PPut k v c) \<longleftrightarrow> iteration_free c"
| "iteration_free (PRemove k c) \<longleftrightarrow> iteration_free c"
| "iteration_free (PForeach c) \<longleftrightarrow> False"
| "iteration_free (PSize c) \<longleftrightarrow> False"
| "iteration_free (PRange from to c) \<longleftrightarrow> False"
| "iteration_free (PClear c) \<longleftrightarrow> False"

section \<open>Visits\<close>

lemma visit_all_rel:
  assumes "\<And>k v x x'. R x x' \<Longrightarrow> snd (f k v x) = snd (f k v x') \<and> R (fst (f k v x)) (fst (f k v x'))" "R x x'"
  shows "snd (visit_all f es x) = snd (visit_all f es x') \<and> R (fst (visit_all f es x)) (fst (visit_all f es x'))"
  using assms(2)
proof (induction es arbitrary: x x')
  case (Cons e es)
  obtain k v where e: "e = (k, v)" by (rule prod.exhaust)
  show ?case using Cons.IH assms(1) [OF Cons.prems, of k v] by (auto simp: e Let_def case_prod_beta)
qed simp

lemma visit_writes_rel:
  assumes "\<And>k v x x'. R x x' \<Longrightarrow> snd (f k v x) = snd (f k v x') \<and> R (fst (f k v x)) (fst (f k v x'))" "R x x'"
  shows "R (visit_writes f w x go) (visit_writes f w x' go)"
  using assms(2)
proof (induction w arbitrary: x x' go)
  case (Cons e w)
  obtain k ov where e: "e = (k, ov)" by (rule prod.exhaust)
  show ?case
  proof (cases ov)
    case None
    then show ?thesis using Cons by (simp add: e)
  next
    case (Some v)
    then show ?thesis using Cons.IH assms(1) [OF Cons.prems, of k v] by (auto simp: e Let_def case_prod_beta)
  qed
qed simp

text \<open>A visitor that keeps the dependencies of the change set and acts on its writes alone.\<close>

definition same_but_writes :: "('s, 'k, 'v) change_set \<Rightarrow> ('s, 'k, 'v) change_set \<Rightarrow> bool" where
  "same_but_writes cs cs' \<longleftrightarrow> cs\<lparr>ch_writes := []\<rparr> = cs'\<lparr>ch_writes := []\<rparr>"

definition plain_visitor :: "('s, 'k, 'v, 'a) visitor \<Rightarrow> bool" where
  "plain_visitor f \<longleftrightarrow>
     (\<forall>k v cs a. same_but_writes (fst (fst (f k v (cs, a)))) cs) \<and>
     (\<forall>k v cs cs' a. ch_writes cs = ch_writes cs' \<longrightarrow>
        snd (f k v (cs, a)) = snd (f k v (cs', a)) \<and> snd (fst (f k v (cs, a))) = snd (fst (f k v (cs', a))) \<and>
        ch_writes (fst (fst (f k v (cs, a)))) = ch_writes (fst (fst (f k v (cs', a)))))"

lemma plain_visitors:
  "plain_visitor collect" "plain_visitor (range_visitor past from to)"
  "plain_visitor count_visitor" "plain_visitor remove_visitor"
  by (auto simp: plain_visitor_def same_but_writes_def collect_def range_visitor_def count_visitor_def
      remove_visitor_def handle_remove_def)

lemma foreach_rel:
  assumes "\<And>k v x x'. R x x' \<Longrightarrow> snd (f k v x) = snd (f k v x') \<and> R (fst (f k v x)) (fst (f k v x'))"
    "ch_state cs = ch_state cs'" "ch_writes cs = ch_writes cs'"
    "R (cs\<lparr>ch_read_version := ch_start_version cs\<rparr>, a) (cs'\<lparr>ch_read_version := ch_start_version cs'\<rparr>, a)"
  shows "R (foreach_state_and_writes ops f always cs a) (foreach_state_and_writes ops f always cs' a)"
proof -
  define g where "g k vv x = (if map_of (ch_writes cs) k = None then f k (vv_value vv) x else (x, True))"
    for k and vv :: "_ versionv" and x
  define es where "es = m_elems ops (ch_state cs)"
  let ?x = "(cs\<lparr>ch_read_version := ch_start_version cs\<rparr>, a)" and ?x' = "(cs'\<lparr>ch_read_version := ch_start_version cs'\<rparr>, a)"
  have "snd (visit_all g es ?x) = snd (visit_all g es ?x') \<and> R (fst (visit_all g es ?x)) (fst (visit_all g es ?x'))"
    by (rule visit_all_rel [where R = R]) (use assms(1,4) in \<open>auto simp: g_def\<close>)
  moreover have "foreach_state_and_writes ops f always c a =
      (let (x, go) = visit_all g es (c\<lparr>ch_read_version := ch_start_version c\<rparr>, a)
       in if always \<or> go then visit_writes f (ch_writes cs) x go else x)"
    if "ch_state c = ch_state cs" "ch_writes c = ch_writes cs" for c
    using that by (simp add: foreach_state_and_writes_def g_def [abs_def] es_def Let_def)
  ultimately show ?thesis
    using visit_writes_rel [where R = R and f = f, OF assms(1)] assms(2,3) by (simp add: case_prod_beta)
qed

lemma foreach_keeps:
  assumes f: "plain_visitor f"
  shows "same_but_writes (fst (foreach_state_and_writes ops f always cs a)) (cs\<lparr>ch_read_version := ch_start_version cs\<rparr>)"
proof -
  let ?cs = "cs\<lparr>ch_read_version := ch_start_version cs\<rparr>"
  have "(\<lambda>x x'. x = x' \<and> same_but_writes (fst x) ?cs)
      (foreach_state_and_writes ops f always cs a) (foreach_state_and_writes ops f always cs a)"
    by (rule foreach_rel [where R = "\<lambda>x x'. x = x' \<and> same_but_writes (fst x) ?cs"]) (use f in \<open>auto simp: plain_visitor_def same_but_writes_def\<close>)
  then show ?thesis by simp
qed

lemma plain_visitorD:
  assumes "plain_visitor f" "snd x = snd x' \<and> ch_writes (fst x) = ch_writes (fst x')"
  shows "snd (f k v x) = snd (f k v x') \<and> snd (fst (f k v x)) = snd (fst (f k v x')) \<and>
    ch_writes (fst (fst (f k v x))) = ch_writes (fst (fst (f k v x')))"
proof -
  obtain cs a cs' where x: "x = (cs, a)" "x' = (cs', a)" using assms(2) by (metis prod.collapse)
  then have "ch_writes cs = ch_writes cs'" using assms(2) by simp
  then show ?thesis using assms(1) unfolding plain_visitor_def x by blast
qed

lemma foreach_same:
  assumes f: "plain_visitor f" and "ch_state cs = ch_state cs'" "ch_writes cs = ch_writes cs'"
  shows "snd (foreach_state_and_writes ops f always cs a) = snd (foreach_state_and_writes ops f always cs' a) \<and>
    ch_writes (fst (foreach_state_and_writes ops f always cs a)) = ch_writes (fst (foreach_state_and_writes ops f always cs' a))"
proof -
  have "(\<lambda>x x'. snd x = snd x' \<and> ch_writes (fst x) = ch_writes (fst x'))
      (foreach_state_and_writes ops f always cs a) (foreach_state_and_writes ops f always cs' a)"
    by (rule foreach_rel [where R = "\<lambda>x x'. snd x = snd x' \<and> ch_writes (fst x) = ch_writes (fst x')",
          OF plain_visitorD [OF f] assms(2,3)]) (simp_all add: assms(3))
  then show ?thesis by simp
qed

section \<open>A transaction only depends on what it has read\<close>

text \<open>What a step leaves alone, and how its dependencies grow.\<close>

definition grows :: "('s, 'k, 'v) change_set \<Rightarrow> ('s, 'k, 'v) change_set \<Rightarrow> bool" where
  "grows cs cs' \<longleftrightarrow> ch_state cs' = ch_state cs \<and> ch_start_version cs' = ch_start_version cs \<and>
     ch_rollback_counter cs' = ch_rollback_counter cs \<and> fst ` set (ch_reads cs) \<subseteq> fst ` set (ch_reads cs') \<and>
     (ch_read_version cs' = ch_read_version cs \<or> ch_read_version cs' = ch_start_version cs)"

lemma grows_refl [simp]: "grows cs cs"
  by (simp add: grows_def)

lemma grows_trans: "grows a b \<Longrightarrow> grows b c \<Longrightarrow> grows a c"
  by (auto simp: grows_def)

text \<open>The results of the operations, as one shape: the new change set and what it returns.\<close>

lemma grows_record_read: "grows cs (record_read cs k dep)"
  by (auto simp: grows_def record_read_def set_omap_emplace_keys)

lemma grows_read_key: "grows cs (fst (read_key ops cs k))"
  by (auto simp: read_key_def grows_record_read split: option.splits)

lemma grows_previous: "grows cs (fst (get_version_of_previous_write ops cs k))"
  by (auto simp: get_version_of_previous_write_def grows_record_read split: option.splits)

lemma grows_writes: "grows cs (handle_put cs k v)" "grows cs (handle_remove cs k)"
  by (simp_all add: grows_def handle_put_def handle_remove_def)

lemma grows_foreach:
  assumes "plain_visitor f"
  shows "grows cs (fst (foreach_state_and_writes ops f always cs a))"
    "ch_read_version (fst (foreach_state_and_writes ops f always cs a)) = ch_start_version cs"
proof -
  have "same_but_writes cs1 (cs\<lparr>ch_read_version := ch_start_version cs\<rparr>) \<Longrightarrow>
      grows cs cs1 \<and> ch_read_version cs1 = ch_start_version cs" for cs1
    by (cases cs1; cases cs) (simp add: same_but_writes_def grows_def)
  then show "grows cs (fst (foreach_state_and_writes ops f always cs a))"
    "ch_read_version (fst (foreach_state_and_writes ops f always cs a)) = ch_start_version cs"
    using foreach_keeps [OF assms, of ops always cs a] by blast+
qed

lemma grows_iterations:
  "grows cs (fst (handle_foreach ops collect cs []))" "grows cs (fst (handle_size ops cs))"
  "grows cs (handle_clear ops cs)" "grows cs (fst (handle_range ops past from to cs))"
  by (simp_all add: handle_foreach_def handle_size_def handle_clear_def handle_range_def grows_foreach plain_visitors)

lemma grows_run: "grows cs (fst (prog_run ops p cs))"
proof (induction p arbitrary: cs)
  case (PGet k c)
  show ?case using grows_trans [OF grows_read_key PGet] by (simp add: handle_get_def case_prod_beta)
next
  case (PHas k c)
  show ?case using grows_trans [OF grows_read_key PHas] by (simp add: handle_has_def case_prod_beta)
next
  case (PPrevious k c)
  show ?case using grows_trans [OF grows_previous PPrevious] by (simp add: case_prod_beta)
next
  case (PForeach c)
  show ?case using grows_trans [OF grows_iterations(1) PForeach] by (simp add: case_prod_beta)
next
  case (PSize c)
  show ?case using grows_trans [OF grows_iterations(2) PSize] by (simp add: case_prod_beta)
next
  case (PRange lo hi c)
  show ?case using grows_trans [OF grows_iterations(4) PRange] by (simp add: case_prod_beta)
next
  case (PClear p)
  show ?case using grows_trans [OF grows_iterations(3) PClear] by simp
qed (auto intro: grows_trans [OF grows_writes(1)] grows_trans [OF grows_writes(2)])

text \<open>
  Two change sets with the same writes, over states that agree on every key that the transaction comes to
  depend on, and are equal if it iterates.
\<close>

definition agree_on ::
  "('s, 'k, 'v versionv) map_ops \<Rightarrow> ('s, 'k, 'v) change_set \<Rightarrow> 's \<Rightarrow> 's \<Rightarrow> bool"
where
  "agree_on ops cs s s' \<longleftrightarrow>
     (\<forall>k\<in>fst ` set (ch_reads cs). m_get ops s k = m_get ops s' k) \<and> (ch_read_version cs \<noteq> NoVersion \<longrightarrow> s = s')"

lemma agree_on_back:
  assumes "grows cs cs'" "0 < ch_start_version cs \<or> ch_read_version cs = NoVersion" "agree_on ops cs' s s'"
  shows "agree_on ops cs s s'"
proof -
  have "\<forall>k\<in>fst ` set (ch_reads cs). m_get ops s k = m_get ops s' k"
    using assms(1,3) unfolding agree_on_def grows_def by blast
  moreover have "ch_read_version cs \<noteq> NoVersion \<Longrightarrow> ch_read_version cs' \<noteq> NoVersion"
    using assms(1,2) unfolding grows_def NoVersion_def by linarith
  ultimately show ?thesis using assms(3) unfolding agree_on_def by blast
qed

lemma agree_on_read: "agree_on ops (record_read cs k dep) s s' \<Longrightarrow> m_get ops s k = m_get ops s' k"
proof -
  assume "agree_on ops (record_read cs k dep) s s'"
  moreover have "k \<in> fst ` set (ch_reads (record_read cs k dep))" by (simp add: record_read_def set_omap_emplace_keys)
  ultimately show ?thesis unfolding agree_on_def by blast
qed

lemma record_read_writes [simp]: "ch_writes (record_read cs k dep) = ch_writes cs"
  by (simp add: record_read_def)

lemma read_key_same:
  assumes "ch_writes cs = ch_writes cs'" "agree_on ops (fst (read_key ops cs k)) (ch_state cs) (ch_state cs')"
  shows "snd (read_key ops cs k) = snd (read_key ops cs' k) \<and>
    ch_writes (fst (read_key ops cs k)) = ch_writes (fst (read_key ops cs' k))"
  using assms
  by (auto simp: read_key_def dest!: agree_on_read split: option.splits)

lemma previous_same:
  assumes "ch_writes cs = ch_writes cs'"
    "agree_on ops (fst (get_version_of_previous_write ops cs k)) (ch_state cs) (ch_state cs')"
  shows "snd (get_version_of_previous_write ops cs k) = snd (get_version_of_previous_write ops cs' k) \<and>
    ch_writes (fst (get_version_of_previous_write ops cs k)) = ch_writes (fst (get_version_of_previous_write ops cs' k))"
  using assms
  by (auto simp: get_version_of_previous_write_def dest!: agree_on_read split: option.splits)

lemma grows_keeps:
  "grows cs cs' \<Longrightarrow> ch_state cs' = ch_state cs" "grows cs cs' \<Longrightarrow> ch_start_version cs' = ch_start_version cs"
  by (simp_all add: grows_def)

lemma read_version_kept:
  "ch_read_version (fst (read_key ops cs k)) = ch_read_version cs"
  "ch_read_version (fst (get_version_of_previous_write ops cs k)) = ch_read_version cs"
  by (simp_all add: read_key_def get_version_of_previous_write_def record_read_def split: option.split)

lemma iteration_same:
  assumes "plain_visitor f" "0 < ch_start_version cs" "ch_writes cs = ch_writes cs'"
    "agree_on ops (fst (foreach_state_and_writes ops f always cs a)) (ch_state cs) (ch_state cs')"
  shows "snd (foreach_state_and_writes ops f always cs a) = snd (foreach_state_and_writes ops f always cs' a) \<and>
    ch_writes (fst (foreach_state_and_writes ops f always cs a)) = ch_writes (fst (foreach_state_and_writes ops f always cs' a))"
proof (rule foreach_same [OF assms(1) _ assms(3)])
  show "ch_state cs = ch_state cs'"
    using assms(2,4) grows_foreach(2) [OF assms(1), of ops always cs a] by (simp add: agree_on_def NoVersion_def)
qed

text \<open>One step and the rest of the transaction.\<close>

definition same_outcome ::
  "('s, 'k::linorder, 'v versionv) map_ops \<Rightarrow> ('k, 'v, 'a) prog \<Rightarrow> ('s, 'k, 'v) change_set \<Rightarrow> ('s, 'k, 'v) change_set \<Rightarrow> bool"
where
  "same_outcome ops p cs cs' \<longleftrightarrow> snd (prog_run ops p cs) = snd (prog_run ops p cs') \<and>
     ch_writes (fst (prog_run ops p cs)) = ch_writes (fst (prog_run ops p cs'))"

definition run_pre ::
  "('s, 'k::linorder, 'v versionv) map_ops \<Rightarrow> ('k, 'v, 'a) prog \<Rightarrow> ('s, 'k, 'v) change_set \<Rightarrow> ('s, 'k, 'v) change_set \<Rightarrow> bool"
where
  "run_pre ops p cs cs' \<longleftrightarrow> ch_writes cs = ch_writes cs' \<and>
     agree_on ops (fst (prog_run ops p cs)) (ch_state cs) (ch_state cs') \<and>
     (0 < ch_start_version cs \<or> iteration_free p \<and> ch_read_version cs = NoVersion)"

lemma step_same:
  assumes p: "\<And>cs. prog_run ops p cs = prog_run ops (c (snd (f cs))) (fst (f cs))"
    and free: "iteration_free p \<Longrightarrow> iteration_free (c r) \<and> ch_read_version (fst (f cs0)) = ch_read_version cs0"
    and r: "r = snd (f cs0)"
    and IH: "\<And>cs cs'. run_pre ops (c r) cs cs' \<Longrightarrow> same_outcome ops (c r) cs cs'"
    and g: "\<And>cs. grows cs (fst (f cs))"
    and same: "agree_on ops (fst (f cs0)) (ch_state cs0) (ch_state cs0') \<Longrightarrow>
      snd (f cs0) = snd (f cs0') \<and> ch_writes (fst (f cs0)) = ch_writes (fst (f cs0'))"
    and pre: "run_pre ops p cs0 cs0'"
  shows "same_outcome ops p cs0 cs0'"
proof -
  have v: "0 < ch_start_version (fst (f cs0)) \<or> iteration_free (c r) \<and> ch_read_version (fst (f cs0)) = NoVersion"
    using pre free grows_keeps(2) [OF g] unfolding run_pre_def by metis
  have ag: "agree_on ops (fst (prog_run ops (c r) (fst (f cs0)))) (ch_state cs0) (ch_state cs0')"
    using pre unfolding run_pre_def p r by blast
  have "agree_on ops (fst (f cs0)) (ch_state cs0) (ch_state cs0')"
    by (rule agree_on_back [OF grows_run _ ag]) (use v in blast)
  from same [OF this] have s: "r = snd (f cs0')" "ch_writes (fst (f cs0)) = ch_writes (fst (f cs0'))" using r by simp_all
  have "run_pre ops (c r) (fst (f cs0)) (fst (f cs0'))"
    unfolding run_pre_def using s(2) ag v by (simp add: grows_keeps(1) [OF g])
  from IH [OF this] show ?thesis
    unfolding same_outcome_def p r [symmetric] s(1) [symmetric] .
qed

lemma run_same: "run_pre ops p cs cs' \<Longrightarrow> same_outcome ops p cs cs'"
proof (induction p arbitrary: cs cs')
  case (PGet k c)
  show ?case
  proof (rule step_same [where f = "\<lambda>cs. read_key ops cs k" and c = c, OF _ _ refl _ grows_read_key _ PGet.prems])
    show "snd (read_key ops cs k) = snd (read_key ops cs' k) \<and>
        ch_writes (fst (read_key ops cs k)) = ch_writes (fst (read_key ops cs' k))"
      if "agree_on ops (fst (read_key ops cs k)) (ch_state cs) (ch_state cs')"
      using PGet.prems that by (intro read_key_same) (simp_all add: run_pre_def)
  qed (use PGet.IH in \<open>auto simp: handle_get_def case_prod_beta read_version_kept\<close>)
next
  case (PHas k c)
  show ?case
  proof (rule step_same [where f = "\<lambda>cs. handle_has ops cs k" and c = c, OF _ _ refl _ _ _ PHas.prems])
    show "snd (handle_has ops cs k) = snd (handle_has ops cs' k) \<and>
        ch_writes (fst (handle_has ops cs k)) = ch_writes (fst (handle_has ops cs' k))"
      if "agree_on ops (fst (handle_has ops cs k)) (ch_state cs) (ch_state cs')"
      using PHas.prems that read_key_same [of cs cs' ops k] by (simp add: run_pre_def handle_has_def case_prod_beta)
  qed (use PHas.IH grows_read_key in \<open>auto simp: handle_has_def case_prod_beta read_version_kept\<close>)
next
  case (PPrevious k c)
  show ?case
  proof (rule step_same [where f = "\<lambda>cs. get_version_of_previous_write ops cs k" and c = c,
        OF _ _ refl _ grows_previous _ PPrevious.prems])
    show "snd (get_version_of_previous_write ops cs k) = snd (get_version_of_previous_write ops cs' k) \<and>
        ch_writes (fst (get_version_of_previous_write ops cs k)) = ch_writes (fst (get_version_of_previous_write ops cs' k))"
      if "agree_on ops (fst (get_version_of_previous_write ops cs k)) (ch_state cs) (ch_state cs')"
      using PPrevious.prems that by (intro previous_same) (simp_all add: run_pre_def)
  qed (use PPrevious.IH in \<open>auto simp: case_prod_beta read_version_kept\<close>)
next
  case (PForeach c)
  have v: "0 < ch_start_version cs" "ch_writes cs = ch_writes cs'" using PForeach.prems by (simp_all add: run_pre_def)
  show ?case
    by (rule step_same [where f = "\<lambda>cs. handle_foreach ops collect cs []" and c = c, OF _ _ refl _ _ _ PForeach.prems])
      (use PForeach.IH iteration_same [OF plain_visitors(1) v] in
        \<open>auto simp: handle_foreach_def case_prod_beta grows_foreach plain_visitors\<close>)
next
  case (PSize c)
  have v: "0 < ch_start_version cs" "ch_writes cs = ch_writes cs'" using PSize.prems by (simp_all add: run_pre_def)
  show ?case
    by (rule step_same [where f = "\<lambda>cs. handle_size ops cs" and c = c, OF _ _ refl _ _ _ PSize.prems])
      (use PSize.IH iteration_same [OF plain_visitors(3) v] in
        \<open>auto simp: handle_size_def handle_foreach_def case_prod_beta grows_foreach plain_visitors\<close>)
next
  case (PRange lo hi c)
  have v: "0 < ch_start_version cs" "ch_writes cs = ch_writes cs'" using PRange.prems by (simp_all add: run_pre_def)
  show ?case
    by (rule step_same [where f = "handle_range ops True lo hi" and c = c, OF _ _ refl _ grows_iterations(4) _ PRange.prems])
      (use PRange.IH iteration_same [OF plain_visitors(2) v, of ops True lo hi True] v(2) in
        \<open>auto simp: handle_range_def case_prod_beta split: if_splits\<close>)
next
  case (PClear p)
  have v: "0 < ch_start_version cs" "ch_writes cs = ch_writes cs'" using PClear.prems by (simp_all add: run_pre_def)
  show ?case
    by (rule step_same [where f = "\<lambda>cs. handle_foreach ops remove_visitor cs ()" and c = "\<lambda>_. p", OF _ _ refl _ _ _ PClear.prems])
      (use PClear.IH iteration_same [OF plain_visitors(4) v] in
        \<open>auto simp: handle_clear_def handle_foreach_def case_prod_beta grows_foreach plain_visitors\<close>)
next
  case (PPut k v p)
  show ?case
    using PPut.IH [of "handle_put cs k v" "handle_put cs' k v"] PPut.prems
    by (auto simp: handle_put_def run_pre_def same_outcome_def)
next
  case (PRemove k p)
  show ?case
    using PRemove.IH [of "handle_remove cs k" "handle_remove cs' k"] PRemove.prems
    by (auto simp: handle_remove_def run_pre_def same_outcome_def)
qed (simp add: run_pre_def same_outcome_def)

section \<open>How a map evolves\<close>

text \<open>
  The commits of a map: versions ascend, an entry is not newer than the commit that holds it, and an entry with
  the same version in an older and a newer commit is the same entry.
\<close>

definition lc_key :: "('s, 'k, 'v) local_commit \<Rightarrow> nat \<times> 's" where
  "lc_key r = (lc_version r, lc_state r)"

definition entries_within :: "('s, 'k, 'v versionv) map_ops \<Rightarrow> nat \<Rightarrow> 's \<Rightarrow> bool" where
  "entries_within ops v s \<longleftrightarrow> (\<forall>k vv. m_get ops s k = Some vv \<longrightarrow> 0 < vv_version vv \<and> vv_version vv \<le> v)"

definition equal_entries :: "('s, 'k, 'v versionv) map_ops \<Rightarrow> 's \<Rightarrow> 's \<Rightarrow> bool" where
  "equal_entries ops s s' \<longleftrightarrow>
     (\<forall>k a b. m_get ops s k = Some a \<longrightarrow> m_get ops s' k = Some b \<longrightarrow> vv_version a = vv_version b \<longrightarrow> a = b)"

definition lc_before :: "('s, 'k, 'v versionv) map_ops \<Rightarrow> nat \<times> 's \<Rightarrow> nat \<times> 's \<Rightarrow> bool" where
  "lc_before ops a b \<longleftrightarrow> fst a < fst b \<and> equal_entries ops (snd a) (snd b)"

definition keys_wf :: "('s, 'k, 'v versionv) map_ops \<Rightarrow> ('s \<Rightarrow> bool) \<Rightarrow> (nat \<times> 's) list \<Rightarrow> bool" where
  "keys_wf ops ok ks \<longleftrightarrow> ks \<noteq> [] \<and> sorted_wrt (lc_before ops) ks \<and>
     (\<forall>x\<in>set ks. ok (snd x) \<and> entries_within ops (fst x) (snd x))"

definition map_wf :: "('s, 'k, 'v versionv) map_ops \<Rightarrow> ('s \<Rightarrow> bool) \<Rightarrow> ('s, 'k, 'v, 'h) kv_map \<Rightarrow> bool" where
  "map_wf ops ok m \<longleftrightarrow> keys_wf ops ok (map lc_key (km_commits m))"

text \<open>Everything that can happen to a map while a transaction runs.\<close>

inductive map_step ::
  "('s, 'k::linorder, 'v versionv) map_ops \<Rightarrow> ('s \<Rightarrow> bool) \<Rightarrow> ('s, 'k, 'v, 'h) kv_map \<Rightarrow> ('s, 'k, 'v, 'h) kv_map \<Rightarrow> bool"
  for ops ok
where
  commit: "lc_version (km_tail m) < v \<Longrightarrow> map_step ops ok m (fst (handle_commit ops v track cs m))"
| rollback: "map_step ops ok m (map_rollback v m)"
| compact: "map_step ops ok m (map_compact v m)"
| post_compact: "map_step ops ok m (fst (map_post_compact m))"
| snapshot: "ok s \<Longrightarrow> entries_within ops v s \<Longrightarrow> map_step ops ok m (snapshot_commit ops s v m)"
| set_map_hook: "map_step ops ok m (m\<lparr>km_hook := hook\<rparr>)"
| set_global_hook: "map_step ops ok m (m\<lparr>km_global_hook := g\<rparr>)"

text \<open>A change set against the map as it is now, unless the map has been rolled back since.\<close>

definition consistent ::
  "('s, 'k, 'v versionv) map_ops \<Rightarrow> ('s, 'k, 'v) change_set \<Rightarrow> ('s, 'k, 'v, 'h) kv_map \<Rightarrow> bool"
where
  "consistent ops cs m \<longleftrightarrow> entries_within ops (ch_start_version cs) (ch_state cs) \<and>
     ch_rollback_counter cs \<le> km_rollback_counter m \<and>
     (ch_rollback_counter cs = km_rollback_counter m \<longrightarrow>
        ch_start_version cs \<le> lc_version (km_tail m) \<and>
        (ch_start_version cs = lc_version (km_tail m) \<longrightarrow> ch_state cs = lc_state (km_tail m)) \<and>
        equal_entries ops (ch_state cs) (lc_state (km_tail m)))"

lemma compact_loop_keys:
  "cs \<noteq> [] \<Longrightarrow> \<exists>n<length cs. map lc_key (snd (compact_loop g v ds cs)) = drop n (map lc_key cs)"
proof (induction g v ds cs rule: compact_loop.induct)
  case (1 g v ds r r' cs)
  define ds2 where "ds2 = (if g \<and> lc_writes r \<noteq> [] then ds @ [(lc_version r, lc_writes r)] else ds)"
  show ?case
  proof (cases "lc_version r = v \<or> v < lc_version r'")
    case True
    then have "map lc_key (snd (compact_loop g v ds (r # r' # cs))) = drop 0 (map lc_key (r # r' # cs))"
      by (auto simp: lc_key_def)
    then show ?thesis by (intro exI [of _ 0]) simp
  next
    case False
    then have e: "compact_loop g v ds (r # r' # cs) = compact_loop g v ds2 (r' # cs)" by (simp add: ds2_def)
    have "\<exists>n<length (r' # cs). map lc_key (snd (compact_loop g v ds2 (r' # cs))) = drop n (map lc_key (r' # cs))"
      using False 1 by (cases "g \<and> lc_writes r \<noteq> []") (auto simp: ds2_def)
    then obtain n where "n < length (r' # cs)" "map lc_key (snd (compact_loop g v ds2 (r' # cs))) = drop n (map lc_key (r' # cs))"
      by blast
    then show ?thesis unfolding e by (intro exI [of _ "Suc n"]) simp
  qed
qed (auto simp: lc_key_def)

lemma keys_wf_drop: "keys_wf ops ok ks \<Longrightarrow> n < length ks \<Longrightarrow> keys_wf ops ok (drop n ks)"
  using sorted_wrt_drop [of "lc_before ops" ks n] set_drop_subset [of n ks] by (auto simp: keys_wf_def)

lemma keys_wf_take: "keys_wf ops ok ks \<Longrightarrow> 0 < n \<Longrightarrow> keys_wf ops ok (take n ks)"
  using sorted_wrt_take [of "lc_before ops" ks n] set_take_subset [of n ks] by (auto simp: keys_wf_def)

lemma tail_key: "km_commits m \<noteq> [] \<Longrightarrow> lc_key (km_tail m) = last (map lc_key (km_commits m))"
  by (simp add: last_map)

lemma rollback_take:
  obtains n where "0 < n" "km_commits (map_rollback v m) = take n (km_commits m)"
    "n < length (km_commits m) \<Longrightarrow> km_rollback_counter (map_rollback v m) = Suc (km_rollback_counter m)"
    "length (km_commits m) \<le> n \<Longrightarrow> km_rollback_counter (map_rollback v m) = km_rollback_counter m"
proof -
  define ps where "ps = pop_back_while (\<lambda>r. v < lc_version r) (drop 1 (km_commits m))"
  from pop_back_while_prefix [of "drop 1 (km_commits m)" "\<lambda>r. v < lc_version r", folded ps_def]
  obtain ys where "drop 1 (km_commits m) = ps @ ys" by (elim exE conjE)
  then have ps: "take (length ps) (drop 1 (km_commits m)) = ps" by simp
  have c: "take 1 (km_commits m) @ ps = take (Suc (length ps)) (km_commits m)"
    using ps by (cases "km_commits m") simp_all
  have m: "km_commits (map_rollback v m) = take 1 (km_commits m) @ ps"
    "km_rollback_counter (map_rollback v m) =
       (if length (take 1 (km_commits m) @ ps) < length (km_commits m) then Suc (km_rollback_counter m)
        else km_rollback_counter m)"
    unfolding map_rollback_def Let_def ps_def [symmetric] by simp_all
  show thesis
  proof (rule that [of "Suc (length ps)"])
    show "km_commits (map_rollback v m) = take (Suc (length ps)) (km_commits m)" unfolding m(1) by (rule c)
    show "km_rollback_counter (map_rollback v m) = Suc (km_rollback_counter m)" if "Suc (length ps) < length (km_commits m)"
      unfolding m(2) c using that by simp
    show "km_rollback_counter (map_rollback v m) = km_rollback_counter m" if "length (km_commits m) \<le> Suc (length ps)"
      unfolding m(2) c using that by simp
  qed simp
qed

lemma replay_entries:
  "foldl (replay_write v) M w k = Some vv \<Longrightarrow> vv_version vv = v \<or> M k = Some vv"
proof (induction w arbitrary: M)
  case (Cons kov w)
  from Cons.IH [of "replay_write v M kov"] Cons.prems
  consider "vv_version vv = v" | "replay_write v M kov k = Some vv" by auto
  then show ?case
    by cases (auto simp: replay_write_def split: if_splits)
qed simp

text \<open>The read set records the versions that the state of the change set has.\<close>

definition reads_ok :: "('s, 'k, 'v versionv) map_ops \<Rightarrow> ('s, 'k, 'v) change_set \<Rightarrow> bool" where
  "reads_ok ops cs \<longleftrightarrow>
     (\<forall>(k, ver, rv)\<in>set (ch_reads cs). ver = (case m_get ops (ch_state cs) k of None \<Rightarrow> NoVersion | Some vv \<Rightarrow> vv_version vv))"

lemma set_omap_emplace: "set (omap_emplace k v m) \<subseteq> insert (k, v) (set m)"
  by (induction k v m rule: omap_emplace.induct) auto

lemma reads_ok_record:
  "reads_ok ops cs \<Longrightarrow> fst dep = (case m_get ops (ch_state cs) k of None \<Rightarrow> NoVersion | Some vv \<Rightarrow> vv_version vv) \<Longrightarrow>
   reads_ok ops (record_read cs k dep)"
  using set_omap_emplace [of k dep "ch_reads cs"] by (cases dep) (fastforce simp: reads_ok_def record_read_def)

lemma reads_ok_read_key: "reads_ok ops cs \<Longrightarrow> reads_ok ops (fst (read_key ops cs k))"
  by (auto simp: read_key_def reads_ok_record split: option.split)

lemma reads_ok_previous: "reads_ok ops cs \<Longrightarrow> reads_ok ops (fst (get_version_of_previous_write ops cs k))"
  by (auto simp: get_version_of_previous_write_def reads_ok_record split: option.split)

lemma reads_ok_foreach:
  assumes "plain_visitor f" "reads_ok ops cs"
  shows "reads_ok ops (fst (foreach_state_and_writes ops f always cs a))"
proof -
  have "same_but_writes cs1 (cs\<lparr>ch_read_version := ch_start_version cs\<rparr>) \<Longrightarrow> reads_ok ops cs1" for cs1
    using assms(2) by (cases cs1; cases cs) (simp add: same_but_writes_def reads_ok_def)
  then show ?thesis using foreach_keeps [OF assms(1), of ops always cs a] by blast
qed

lemma reads_ok_run: "reads_ok ops cs \<Longrightarrow> reads_ok ops (fst (prog_run ops p cs))"
proof (induction p arbitrary: cs)
  case (PPut k v p)
  then show ?case using PPut.IH [of "handle_put cs k v"] by (simp add: reads_ok_def handle_put_def)
next
  case (PRemove k p)
  then show ?case using PRemove.IH [of "handle_remove cs k"] by (simp add: reads_ok_def handle_remove_def)
qed (auto simp: case_prod_beta handle_get_def handle_has_def handle_foreach_def handle_size_def handle_range_def
    handle_clear_def reads_ok_read_key reads_ok_previous reads_ok_foreach plain_visitors)

locale ordered_map = versioned_map ops ok
  for ops :: "('s, 'k::linorder, 'v versionv) map_ops" and ok
begin

lemma commit_state:
  assumes "ok s"
  shows "ok (fst (foldl (commit_write ops v track) (s, changes) w)) \<and>
    m_get ops (fst (foldl (commit_write ops v track) (s, changes) w)) = foldl (replay_write v) (m_get ops s) w"
  using assms
proof (induction w arbitrary: s changes)
  case (Cons kov w)
  obtain k ov where kov: "kov = (k, ov)" by (rule prod.exhaust)
  obtain s' changes' where st: "commit_write ops v track (s, changes) kov = (s', changes')" by (rule prod.exhaust)
  have "ok s'" "m_get ops s' = replay_write v (m_get ops s) kov"
    using st Cons.prems
    by (cases ov; auto simp: kov replay_write_def ok_put ok_remove get_put get_remove fun_upd_idem split: if_splits)+
  then show ?case using Cons.IH [of s' changes'] by (simp add: st)
qed simp

lemma map_commit_cases:
  assumes "ok (lc_state (km_tail m))"
  obtains "fst (handle_commit ops v track cs m) = m" |
    r where "fst (handle_commit ops v track cs m) = m\<lparr>km_commits := km_commits m @ [r]\<rparr>" "lc_version r = v"
      "ok (lc_state r)" "\<And>k vv. m_get ops (lc_state r) k = Some vv \<Longrightarrow>
         vv_version vv = v \<or> m_get ops (lc_state (km_tail m)) k = Some vv"
proof -
  obtain s changes where fold: "foldl (commit_write ops v track) (lc_state (km_tail m), False) (ch_writes cs) = (s, changes)"
    by (rule prod.exhaust)
  have s: "ok s" "m_get ops s = foldl (replay_write v) (m_get ops (lc_state (km_tail m))) (ch_writes cs)"
    using commit_state [OF assms, of v track False "ch_writes cs"] by (simp_all add: fold)
  show thesis
  proof (cases "ch_writes cs = [] \<or> \<not> changes")
    case True
    then show thesis by (intro that(1)) (auto simp: handle_commit_def fold)
  next
    case False
    then show thesis
      using s
      by (intro that(2) [of "\<lparr>lc_version = v, lc_state = s, lc_writes = ch_writes cs\<rparr>"])
        (auto simp: handle_commit_def fold dest!: replay_entries)
  qed
qed

lemma wf_tail:
  assumes "map_wf ops ok m"
  shows "km_commits m \<noteq> []" "ok (lc_state (km_tail m))" "entries_within ops (lc_version (km_tail m)) (lc_state (km_tail m))"
  using assms by (auto simp: map_wf_def keys_wf_def lc_key_def)

lemma wf_before_tail:
  assumes "map_wf ops ok m" "r \<in> set (km_commits m)"
  shows "r = km_tail m \<or> lc_before ops (lc_key r) (lc_key (km_tail m))"
proof -
  have s: "sorted_wrt (\<lambda>a b. lc_before ops (lc_key a) (lc_key b)) (km_commits m)"
    using assms(1) by (simp add: map_wf_def keys_wf_def sorted_wrt_map)
  obtain rs where rs: "km_commits m = rs @ [km_tail m]" using wf_tail(1) [OF assms(1)] by (metis append_butlast_last_id)
  then have "\<forall>a\<in>set rs. lc_before ops (lc_key a) (lc_key (km_tail m))"
    using s by (metis sorted_wrt_append list.set_intros(1))
  moreover have "r \<in> set rs \<or> r = km_tail m" using assms(2) rs by (metis Un_iff empty_iff empty_set set_ConsD set_append)
  ultimately show ?thesis by blast
qed

lemma commit_newer:
  assumes "entries_within ops u s" "u < v" "equal_entries ops s s1"
    "\<And>k vv. m_get ops s2 k = Some vv \<Longrightarrow> vv_version vv = v \<or> m_get ops s1 k = Some vv"
  shows "equal_entries ops s s2"
  unfolding equal_entries_def
proof (intro allI impI)
  fix k a b
  assume ab: "m_get ops s k = Some a" "m_get ops s2 k = Some b" "vv_version a = vv_version b"
  have "vv_version a \<le> u" using assms(1) ab(1) by (auto simp: entries_within_def)
  then have "m_get ops s1 k = Some b" using assms(2,4) ab by force
  then show "a = b" using assms(3) ab unfolding equal_entries_def by blast
qed

lemma equal_entries_refl [simp]: "equal_entries ops s s"
  by (auto simp: equal_entries_def)

lemma commit_wf:
  assumes wf: "map_wf ops ok m" and v: "lc_version (km_tail m) < v"
  shows "map_wf ops ok (fst (handle_commit ops v track cs m))"
proof (rule map_commit_cases [OF wf_tail(2) [OF wf], of v track cs])
  fix r
  assume r: "fst (handle_commit ops v track cs m) = m\<lparr>km_commits := km_commits m @ [r]\<rparr>" "lc_version r = v"
    "ok (lc_state r)" "\<And>k vv. m_get ops (lc_state r) k = Some vv \<Longrightarrow>
         vv_version vv = v \<or> m_get ops (lc_state (km_tail m)) k = Some vv"
  have "lc_before ops (lc_key a) (lc_key r)" if a: "a \<in> set (km_commits m)" for a
  proof -
    have w: "entries_within ops (lc_version a) (lc_state a)" using wf a by (auto simp: map_wf_def keys_wf_def lc_key_def)
    have "lc_version a < v \<and> equal_entries ops (lc_state a) (lc_state (km_tail m))"
      using wf_before_tail [OF wf a] v by (auto simp: lc_before_def lc_key_def)
    then show ?thesis using commit_newer [OF w _ _ r(4)] r(2) by (simp add: lc_before_def lc_key_def)
  qed
  moreover have "entries_within ops v (lc_state r)"
    using r(4) wf_tail(3) [OF wf] v by (fastforce simp: entries_within_def)
  ultimately show ?thesis
    using wf r(1-3) by (auto simp: map_wf_def keys_wf_def sorted_wrt_append lc_key_def [of r])
qed (use wf in simp)

lemma step_wf: "map_step ops ok m m' \<Longrightarrow> map_wf ops ok m \<Longrightarrow> map_wf ops ok m'"
proof (induction rule: map_step.induct)
  case (commit m v track cs)
  then show ?case by (intro commit_wf)
next
  case (rollback m v)
  show ?case
    by (rule rollback_take [of v m]) (use rollback in \<open>simp add: map_wf_def take_map [symmetric] keys_wf_take\<close>)
next
  case (compact m v)
  then have "km_commits m \<noteq> []" by (rule wf_tail)
  from compact_loop_keys [OF this, of "km_global_hook m" v "km_commit_deltas m"] compact
  show ?case by (auto simp: map_wf_def map_compact_def case_prod_beta keys_wf_drop)
next
  case (snapshot s v m)
  then show ?case by (simp add: map_wf_def keys_wf_def snapshot_commit_def Let_def lc_key_def)
qed (simp_all add: map_wf_def map_post_compact_def)

lemma created_consistent:
  assumes wf: "map_wf ops ok m" and cs: "create_change_set m u track = Some cs"
  shows "consistent ops cs m"
proof -
  obtain r where r: "r \<in> set (km_commits m)" "ch_rollback_counter cs = km_rollback_counter m"
      "ch_state cs = lc_state r" "ch_start_version cs = lc_version r"
  proof -
    obtain r where f: "find (\<lambda>r. lc_version r \<le> u) (rev (km_commits m)) = Some r" and
      c: "cs = new_change_set (km_rollback_counter m) (lc_state r) (lc_state (km_head m))
          (if track then lc_writes r else []) (lc_version r)"
      using cs by (auto simp: create_change_set_def)
    from f have "r \<in> set (rev (km_commits m))" by (metis find_Some_iff nth_mem)
    then show thesis using that c by (simp add: new_change_set_def)
  qed
  have "entries_within ops (lc_version r) (lc_state r)" using wf r(1) by (auto simp: map_wf_def keys_wf_def lc_key_def)
  then show ?thesis
    using wf_before_tail [OF wf r(1)] r(2-4) by (auto simp: consistent_def lc_before_def lc_key_def)
qed

lemma step_consistent:
  "map_step ops ok m m' \<Longrightarrow> map_wf ops ok m \<Longrightarrow> consistent ops cs m \<Longrightarrow> consistent ops cs m'"
proof (induction rule: map_step.induct)
  case (commit m v track cs')
  show ?case
  proof (rule map_commit_cases [OF wf_tail(2) [OF commit(2)], of v track cs'])
    fix r
    assume r: "fst (handle_commit ops v track cs' m) = m\<lparr>km_commits := km_commits m @ [r]\<rparr>" "lc_version r = v"
      "\<And>k vv. m_get ops (lc_state r) k = Some vv \<Longrightarrow>
         vv_version vv = v \<or> m_get ops (lc_state (km_tail m)) k = Some vv"
    show ?thesis
      using commit(1,3) commit_newer [OF _ _ _ r(3), of "ch_start_version cs" "ch_state cs"]
      by (auto simp: consistent_def r(1,2))
  qed (use commit in simp)
next
  case (rollback m v)
  show ?case
  proof (rule rollback_take [of v m])
    fix n
    assume n: "0 < n" "km_commits (map_rollback v m) = take n (km_commits m)"
      "n < length (km_commits m) \<Longrightarrow> km_rollback_counter (map_rollback v m) = Suc (km_rollback_counter m)"
      "length (km_commits m) \<le> n \<Longrightarrow> km_rollback_counter (map_rollback v m) = km_rollback_counter m"
    show ?thesis
      using rollback(2) n by (cases "n < length (km_commits m)") (auto simp: consistent_def)
  qed
next
  case (compact m v)
  have ne: "km_commits m \<noteq> []" by (rule wf_tail [OF compact(1)])
  obtain n where n: "n < length (km_commits m)" "map lc_key (km_commits (map_compact v m)) = drop n (map lc_key (km_commits m))"
    using compact_loop_keys [OF ne, of "km_global_hook m" v "km_commit_deltas m"]
    by (auto simp: map_compact_def case_prod_beta)
  then have "km_commits (map_compact v m) \<noteq> []" by auto
  from tail_key [OF this] have "lc_key (km_tail (map_compact v m)) = lc_key (km_tail m)"
    using n tail_key [OF ne] by (simp add: last_drop)
  then show ?case
    using compact(2) by (simp add: consistent_def lc_key_def map_compact_def case_prod_beta)
qed (auto simp: consistent_def snapshot_commit_def Let_def map_post_compact_def)

lemma steps_consistent:
  assumes "(map_step ops ok)\<^sup>*\<^sup>* m m'" "map_wf ops ok m" "consistent ops cs m"
  shows "map_wf ops ok m' \<and> consistent ops cs m'"
  using assms by (induction rule: rtranclp_induct) (auto intro: step_wf step_consistent)

lemma fresh_change_set:
  assumes "map_wf ops ok m"
  obtains cs where "create_change_set m (lc_version (km_tail m)) False = Some cs" "ch_state cs = lc_state (km_tail m)"
    "ch_writes cs = []"
proof -
  obtain rs where "rev (km_commits m) = km_tail m # rs"
    using wf_tail(1) [OF assms] by (metis hd_rev list.collapse rev_is_Nil_conv)
  then have "find (\<lambda>r. lc_version r \<le> lc_version (km_tail m)) (rev (km_commits m)) = Some (km_tail m)"
    by (simp only: find.simps order_refl if_True)
  then show thesis using that by (simp add: create_change_set_def new_change_set_def)
qed

lemma prepared_agrees:
  assumes cons: "consistent ops cs m" and reads: "reads_ok ops cs" and prep: "prepare ops m cs"
    and it: "ch_read_version cs = NoVersion \<or> ch_read_version cs = ch_start_version cs"
  shows "agree_on ops cs (ch_state cs) (lc_state (km_tail m))"
  unfolding agree_on_def
proof (intro conjI ballI impI)
  have c: "ch_rollback_counter cs = km_rollback_counter m" using prep by (simp add: prepare_def)
  show "ch_state cs = lc_state (km_tail m)" if "ch_read_version cs \<noteq> NoVersion"
    using that it prep cons c by (simp add: prepare_def consistent_def)
  fix k
  assume "k \<in> fst ` set (ch_reads cs)"
  then obtain ver rv where k: "(k, ver, rv) \<in> set (ch_reads cs)" by auto
  have r: "ver = (case m_get ops (ch_state cs) k of None \<Rightarrow> NoVersion | Some vv \<Rightarrow> vv_version vv)"
    using reads k by (fastforce simp: reads_ok_def)
  have p: "case m_get ops (lc_state (km_tail m)) k of None \<Rightarrow> ver = NoVersion
      | Some vv \<Rightarrow> ver \<noteq> NoVersion \<and> ver = vv_version vv"
    using prep k by (fastforce simp: prepare_def list_all_iff)
  have "vv_version a \<noteq> NoVersion" if "m_get ops (ch_state cs) k = Some a" for a
    using cons that by (auto simp: consistent_def entries_within_def NoVersion_def)
  moreover have "a = b" if "m_get ops (ch_state cs) k = Some a" "m_get ops (lc_state (km_tail m)) k = Some b"
      "vv_version a = vv_version b" for a b
    using cons c that unfolding consistent_def equal_entries_def by blast
  ultimately show "m_get ops (ch_state cs) k = m_get ops (lc_state (km_tail m)) k"
    using r p by (auto split: option.splits)
qed

lemma validated_serialises:
  assumes wf: "map_wf ops ok m0" and cs0: "create_change_set m0 u False = Some cs0"
    and v: "0 < ch_start_version cs0 \<or> iteration_free p" and run: "prog_run ops p cs0 = (cs, a)"
    and steps: "(map_step ops ok)\<^sup>*\<^sup>* m0 m" and prep: "prepare ops m cs"
  shows "\<exists>cs1 cs1'. create_change_set m (lc_version (km_tail m)) False = Some cs1 \<and> ch_state cs1 = lc_state (km_tail m) \<and>
    prog_run ops p cs1 = (cs1', a) \<and> ch_writes cs1' = ch_writes cs"
proof -
  have init: "ch_writes cs0 = []" "ch_reads cs0 = []" "ch_read_version cs0 = NoVersion"
    using cs0 by (auto simp: create_change_set_def new_change_set_def)
  have w: "map_wf ops ok m" "consistent ops cs0 m"
    using steps_consistent [OF steps wf created_consistent [OF wf cs0]] by simp_all
  have g: "grows cs0 cs" using grows_run [of cs0 ops p] run by simp
  then have cons: "consistent ops cs m" using w(2) by (simp add: consistent_def grows_def)
  have "reads_ok ops cs" using reads_ok_run [of ops cs0 p] run init(2) by (simp add: reads_ok_def)
  from prepared_agrees [OF cons this prep] have "agree_on ops cs (ch_state cs0) (lc_state (km_tail m))"
    using g init(3) by (simp add: grows_def)
  moreover obtain cs1 where cs1: "create_change_set m (lc_version (km_tail m)) False = Some cs1"
      "ch_state cs1 = lc_state (km_tail m)" "ch_writes cs1 = []"
    by (rule fresh_change_set [OF w(1)])
  ultimately have "run_pre ops p cs0 cs1" using init v run by (auto simp: run_pre_def)
  from run_same [OF this] have "snd (prog_run ops p cs1) = a" "ch_writes (fst (prog_run ops p cs1)) = ch_writes cs"
    using run by (simp_all add: same_outcome_def)
  then show ?thesis using cs1(1,2) by (metis prod.collapse)
qed

end

interpretation cho: ordered_map "champ_ops h esz" "champ_ok h"
  for h :: "'k::linorder \<Rightarrow> 32 word" and esz :: "'k \<Rightarrow> 'v versionv \<Rightarrow> nat"
  by unfold_locales

section \<open>Properties\<close>

text \<open>
  C29. A transaction that passes the conflict check is serialisable. Let a transaction run on a change set
  created at any version, while the map goes through any commits, rollbacks, compactions and snapshots. If the
  check against the map as it then is passes, the same transaction started from the newest state returns the same
  result and makes the same writes, so committing it has the effect of running it alone at that point. The
  transaction may read, write and iterate, but iterate only over a state with a version other than 0.
\<close>

theorem validated_transaction_serialises:
  assumes "map_wf (champ_ops h esz) (champ_ok h) m0" "create_change_set m0 u False = Some cs0"
    "0 < ch_start_version cs0 \<or> iteration_free p" "prog_run (champ_ops h esz) p cs0 = (cs, a)"
    "(map_step (champ_ops h esz) (champ_ok h))\<^sup>*\<^sup>* m0 m" "prepare (champ_ops h esz) m cs"
  shows "\<exists>cs1 cs1'. create_change_set m (lc_version (km_tail m)) False = Some cs1 \<and>
    ch_state cs1 = lc_state (km_tail m) \<and> prog_run (champ_ops h esz) p cs1 = (cs1', a) \<and> ch_writes cs1' = ch_writes cs"
  by (rule cho.validated_serialises [OF assms])

text \<open>A transaction that reads a key and writes another, while a third one is committed.\<close>

type_synonym sample_state = "(nat, nat versionv) champ"

definition sample_ops :: "(sample_state, nat, nat versionv) map_ops" where
  "sample_ops = champ_ops (\<lambda>_. 7) (\<lambda>_ _. 16)"

definition sample_writes :: "(nat, nat) write_set \<Rightarrow> (sample_state, nat, nat) change_set" where
  "sample_writes w = new_change_set 0 champ_empty champ_empty w 0"

definition sample_map :: "(sample_state, nat, nat, unit) kv_map" where
  "sample_map = fst (handle_commit sample_ops 1 False (sample_writes [(1, Some 10)]) (new_map sample_ops ''t'' PUBLIC))"

definition sample_map2 :: "(sample_state, nat, nat, unit) kv_map" where
  "sample_map2 = fst (handle_commit sample_ops 2 False (sample_writes [(3, Some 30)]) sample_map)"

definition sample_prog :: "(nat, nat, nat) prog" where
  "sample_prog = PGet 1 (\<lambda>r. case r of Some x \<Rightarrow> PPut 2 (x + 1) (PReturn x) | None \<Rightarrow> PReturn 0)"

definition sample_cs :: "(sample_state, nat, nat) change_set" where
  "sample_cs = the (create_change_set sample_map 1 False)"

lemma new_map_wf: "map_wf (champ_ops h esz) (champ_ok h) (new_map (champ_ops h esz) nm sd)"
  using ch.ok_empty [of h esz] ch.get_empty [of h esz]
  by (auto simp: map_wf_def keys_wf_def new_map_def reset_commits_def lc_key_def entries_within_def)

lemma sample_map_wf: "map_wf sample_ops (champ_ok (\<lambda>_. 7)) sample_map"
  unfolding sample_map_def sample_ops_def
  by (rule cho.commit_wf [OF new_map_wf]) (simp add: new_map_def reset_commits_def)

lemmas sample_simps = sample_ops_def sample_map_def sample_map2_def sample_prog_def sample_cs_def sample_writes_def
  handle_commit_def new_change_set_def new_map_def reset_commits_def create_change_set_def prepare_def
  handle_get_def read_key_def record_read_def handle_put_def NoVersion_def
  ch.ok_empty ch.get_empty ch.ok_put ch.get_put

lemma sample_prog_run:
  "create_change_set sample_map 1 False = Some sample_cs" "lc_version (km_tail sample_map) = 1"
  "lc_version (km_tail sample_map2) = 2" "snd (prog_run sample_ops sample_prog sample_cs) = 10"
  "ch_writes (fst (prog_run sample_ops sample_prog sample_cs)) = [(2, Some 11)]"
  "prepare sample_ops sample_map2 (fst (prog_run sample_ops sample_prog sample_cs))"
  by (simp_all add: sample_simps)

theorem validated_transaction_serialises_witness:
  "\<exists>cs1 cs1'. create_change_set sample_map2 2 False = Some cs1 \<and>
    prog_run sample_ops sample_prog cs1 = (cs1', 10) \<and> ch_writes cs1' = [(2, Some 11)]"
proof -
  obtain cs a where run: "prog_run sample_ops sample_prog sample_cs = (cs, a)" by (rule prod.exhaust)
  have "a = snd (prog_run sample_ops sample_prog sample_cs)" "cs = fst (prog_run sample_ops sample_prog sample_cs)"
    by (simp_all add: run)
  then have a: "a = 10" "ch_writes cs = [(2, Some 11)]" "prepare sample_ops sample_map2 cs" using sample_prog_run by simp_all
  have "lc_version (km_tail sample_map) < 2" by (simp add: sample_prog_run)
  then have "map_step sample_ops (champ_ok (\<lambda>_. 7)) sample_map sample_map2"
    unfolding sample_map2_def by (rule map_step.commit)
  then have st: "(map_step sample_ops (champ_ok (\<lambda>_. 7)))\<^sup>*\<^sup>* sample_map sample_map2" ..
  have f: "0 < ch_start_version sample_cs \<or> iteration_free sample_prog" by (simp add: sample_prog_def split: option.split)
  show ?thesis
    using sample_prog_run(3) validated_transaction_serialises [OF sample_map_wf [unfolded sample_ops_def] sample_prog_run(1) f run [unfolded sample_ops_def]
        st [unfolded sample_ops_def] a(3) [unfolded sample_ops_def]] a(1,2)
    by (auto simp: sample_ops_def)
qed


definition sample_empty :: "(sample_state, nat, nat, unit) kv_map" where
  "sample_empty = new_map sample_ops ''t'' PUBLIC"

definition sample_empty_cs :: "(sample_state, nat, nat) change_set" where
  "sample_empty_cs = the (create_change_set sample_empty 5 False)"

definition sample_fresh_cs :: "(sample_state, nat, nat) change_set" where
  "sample_fresh_cs = the (create_change_set sample_map 1 False)"


end
