(* ===== verification/KV_Handles.thy ===== *)
theory KV_Handles
  imports KV_Serial
begin

text \<open>
  What the operations of a handle return: a transaction sees the entries of its state overlaid with its own
  writes (\<open>cs_view\<close>), and the iterations of \<^verbatim>\<open>src/kv/untyped_map_handle.cpp\<close> and
  \<^verbatim>\<open>src/kv/untyped_map_diff.cpp\<close> visit exactly these entries.
\<close>

section \<open>What a transaction sees\<close>

definition cs_view :: "('s, 'k, 'v versionv) map_ops \<Rightarrow> ('s, 'k, 'v) change_set \<Rightarrow> 'k \<Rightarrow> 'v option" where
  "cs_view ops cs k =
     (case map_of (ch_writes cs) k of
        Some ov \<Rightarrow> ov
      | None \<Rightarrow> map_option vv_value (m_get ops (ch_state cs) k))"

definition visible :: "('s, 'k, 'v versionv) map_ops \<Rightarrow> ('s, 'k, 'v) change_set \<Rightarrow> ('k \<times> 'v) list" where
  "visible ops cs =
     [(k, vv_value vv). (k, vv) \<leftarrow> m_elems ops (ch_state cs), map_of (ch_writes cs) k = None] @
     [(k, the ov). (k, ov) \<leftarrow> ch_writes cs, ov \<noteq> None]"

definition in_bounds :: "'k::linorder option \<Rightarrow> 'k option \<Rightarrow> 'k \<Rightarrow> bool" where
  "in_bounds from to k \<longleftrightarrow>
     (case from of Some f \<Rightarrow> f \<le> k | None \<Rightarrow> True) \<and> (case to of Some t \<Rightarrow> k < t | None \<Rightarrow> True)"

abbreviation writes_ok :: "('s, 'k::linorder, 'v) change_set \<Rightarrow> bool" where
  "writes_ok cs \<equiv> sorted_wrt (<) (omap_keys (ch_writes cs))"

abbreviation step_of :: "('k \<Rightarrow> 'v \<Rightarrow> 'x \<Rightarrow> 'x \<times> bool) \<Rightarrow> 'x \<Rightarrow> 'k \<times> 'v \<Rightarrow> 'x" where
  "step_of f x kv \<equiv> fst (f (fst kv) (snd kv) x)"

section \<open>Visits that do not stop early\<close>

lemma visit_all_through:
  assumes "\<And>k v x. snd (f k v x)"
  shows "visit_all f es x = (foldl (step_of f) x es, True)"
  using assms by (induction es arbitrary: x) (auto simp: Let_def case_prod_beta)

lemma visit_writes_through:
  assumes "\<And>k v x. snd (f k v x)"
  shows "visit_writes f w x True = foldl (step_of f) x [(k, the ov). (k, ov) \<leftarrow> w, ov \<noteq> None]"
  using assms by (induction w arbitrary: x) (auto simp: Let_def case_prod_beta split: option.splits)

lemma visit_all_skip:
  assumes "\<And>k v x. snd (f k v x)"
  shows "visit_all (\<lambda>k vv x. if P k then f k (g vv) x else (x, True)) es x =
    (foldl (step_of f) x [(k, g vv). (k, vv) \<leftarrow> es, P k], True)"
  using assms by (induction es arbitrary: x) (auto simp: Let_def case_prod_beta)

lemma foreach_through:
  assumes "\<And>k v x. snd (f k v x)"
  shows "foreach_state_and_writes ops f b cs a =
    foldl (step_of f) (cs\<lparr>ch_read_version := ch_start_version cs\<rparr>, a) (visible ops cs)"
  using visit_all_skip [where f = f and P = "\<lambda>k. map_of (ch_writes cs) k = None" and g = "vv_value :: _ versionv \<Rightarrow> _", OF assms]
    visit_writes_through [where f = f, OF assms]
  by (simp add: foreach_state_and_writes_def visible_def Let_def)

lemma map_of_keep: "map_of [(k, g vv). (k, vv) \<leftarrow> es, P k] k = (if P k then map_option g (map_of es k) else None)"
  by (induction es) (auto split: if_splits)

lemma map_of_written:
  "distinct (map fst w) \<Longrightarrow> map_of [(k, the ov). (k, ov) \<leftarrow> w, ov \<noteq> None] k = (case map_of w k of Some ov \<Rightarrow> ov | None \<Rightarrow> None)"
proof (induction w)
  case (Cons e w)
  obtain k' ov where e: "e = (k', ov)" by (rule prod.exhaust)
  have "map_of w k' = None" using Cons.prems by (auto simp: e map_of_eq_None_iff)
  then show ?case using Cons by (auto simp: e split: if_splits)
qed simp

lemma distinct_keep: "distinct (map fst es) \<Longrightarrow> distinct (map fst [(k, g k x). (k, x) \<leftarrow> es, P k x])"
proof (induction es)
  case (Cons e es)
  obtain k x where e: "e = (k, x)" by (rule prod.exhaust)
  then show ?case using Cons by (auto simp: image_iff)
qed simp

lemma foldl_omap_set:
  assumes "sorted_wrt (<) (omap_keys res)"
  shows "sorted_wrt (<) (omap_keys (foldl (\<lambda>r kv. omap_set (fst kv) (snd kv) r) res es)) \<and>
    (distinct (map fst es) \<longrightarrow>
     map_of (foldl (\<lambda>r kv. omap_set (fst kv) (snd kv) r) res es) = map_of res ++ map_of es)"
  using assms
proof (induction es arbitrary: res)
  case (Cons e es)
  have "map_of (omap_set (fst e) (snd e) res) = (map_of res)(fst e \<mapsto> snd e)"
    by (auto simp: map_of_omap_set map_of_omap_set_other)
  moreover have "distinct (map fst (e # es)) \<Longrightarrow> map_of es (fst e) = None" by (auto simp: map_of_eq_None_iff image_iff)
  ultimately show ?case
    using Cons.IH [OF sorted_omap_set [OF Cons.prems], of "fst e" "snd e"]
    by (auto simp: map_add_def split: option.split)
qed simp

lemma range_step:
  "range_visitor True from to k v x = ((fst x, if in_bounds from to k then omap_set k v (snd x) else snd x), True)"
  by (auto simp: range_visitor_def in_bounds_def split: option.splits)

lemma visitors_go_on:
  "snd (count_visitor k v x)" "snd (remove_visitor k v y)" "snd (range_visitor True lo hi k v z)"
  by (simp_all add: count_visitor_def remove_visitor_def range_step)

lemmas foreach_all = foreach_through [where f = count_visitor, OF visitors_go_on(1)]
  foreach_through [where f = remove_visitor, OF visitors_go_on(2)]
  foreach_through [where f = "range_visitor True lo hi" for lo hi, OF visitors_go_on(3)]

lemma foldl_range:
  "foldl (step_of (range_visitor True from to)) (cs, res) es =
   (cs, foldl (\<lambda>r kv. omap_set (fst kv) (snd kv) r) res (filter (\<lambda>kv. in_bounds from to (fst kv)) es))"
  by (induction es arbitrary: res) (auto simp: range_step)

lemma map_of_filter_keys: "map_of (filter (\<lambda>kv. P (fst kv)) es) k = (if P k then map_of es k else None)"
  by (induction es) auto

lemma foldl_count:
  "foldl (step_of count_visitor) (cs, n) es = (cs, (n + length es) mod two64)" if "n < two64"
  using that
proof (induction es arbitrary: n)
  case (Cons e es)
  then show ?case using Cons.IH [of "add64 n 1"] by (simp add: count_visitor_def add64_def two64_def mod_simps)
qed simp

lemma foldl_remove:
  "foldl (step_of remove_visitor) (cs, ()) es = (foldl handle_remove cs (map fst es), ())"
  by (induction es arbitrary: cs) (auto simp: remove_visitor_def)

lemma foldl_handle_remove:
  "ch_state (foldl handle_remove cs ks) = ch_state cs"
  "map_of (ch_writes (foldl handle_remove cs ks)) k = (if k \<in> set ks then Some None else map_of (ch_writes cs) k)"
  by (induction ks arbitrary: cs) (auto simp: handle_remove_def map_of_omap_set map_of_omap_set_other)

text \<open>An iteration over the entries in between two bounds of which one is not below the other visits none.\<close>

lemma empty_bounds: "f = t \<or> t < f \<Longrightarrow> \<not> in_bounds (Some f) (Some t) k"
  by (auto simp: in_bounds_def)

lemma omap_set_last: "\<forall>k'\<in>fst ` set m. k' < k \<Longrightarrow> omap_set k v m = m @ [(k, v)]"
  by (induction m) auto

text \<open>
  The writes are visited in ascending order, so that stopping at the end of the range, which the
  ordered state does, loses nothing.
\<close>

lemma diff_range_exact:
  assumes "sorted_wrt (<) (omap_keys w)"
  shows "diff_range past from to w = filter (\<lambda>kv. in_bounds from to (fst kv)) w"
proof -
  let ?g = "\<lambda>k v res. if (case from of Some f \<Rightarrow> k < f | None \<Rightarrow> False) then (res, True)
           else if (case to of Some t \<Rightarrow> k = t \<or> t < k | None \<Rightarrow> False) then (res, past)
           else (omap_set k v res, True)"
  have "fst (visit_all ?g w res) = res @ filter (\<lambda>kv. in_bounds from to (fst kv)) w"
    if "\<forall>k'\<in>fst ` set res. \<forall>k\<in>fst ` set w. k' < k" for res
    using assms that
  proof (induction w arbitrary: res)
    case (Cons e w)
    obtain k v where e: "e = (k, v)" by (rule prod.exhaust)
    have w: "\<forall>k'\<in>fst ` set w. k < k'" using Cons.prems(1) by (auto simp: e)
    have none: "filter (\<lambda>kv. in_bounds from to (fst kv)) w = []" if "to = Some t" "t \<le> k" for t
      using that w by (force simp: in_bounds_def filter_empty_conv)
    have o: "omap_set k v res = res @ [(k, v)]" using Cons.prems(2) by (intro omap_set_last) (auto simp: e)
    have "fst (visit_all ?g w res) = res @ filter (\<lambda>kv. in_bounds from to (fst kv)) w"
      "fst (visit_all ?g w (res @ [(k, v)])) = res @ [(k, v)] @ filter (\<lambda>kv. in_bounds from to (fst kv)) w"
      using Cons.IH [of res] Cons.IH [of "res @ [(k, v)]"] Cons.prems w by (auto simp: e)
    then show ?case
      using none by (cases "from"; cases "to") (auto simp: e o in_bounds_def not_less)
  qed simp
  from this [of "[]"] show ?thesis
    by (auto simp: diff_range_def diff_foreach_def empty_bounds split: option.splits)
qed

section \<open>Handles over a persistent map\<close>

context ordered_map
begin

lemma visible_view:
  assumes "ok (ch_state cs)" "writes_ok cs"
  shows "distinct (map fst (visible ops cs))" "map_of (visible ops cs) = cs_view ops cs"
proof -
  have w: "distinct (map fst (ch_writes cs))" using assms(2) strict_sorted_iff by blast
  have e: "distinct (map fst (m_elems ops (ch_state cs)))" "map_of (m_elems ops (ch_state cs)) = m_get ops (ch_state cs)"
    using elems [OF assms(1)] by auto
  have "fst ` set [(k, vv_value vv). (k, vv) \<leftarrow> m_elems ops (ch_state cs), map_of (ch_writes cs) k = None] \<inter>
      fst ` set [(k, the ov). (k, ov) \<leftarrow> ch_writes cs, ov \<noteq> None] = {}"
    by (auto simp: map_of_eq_None_iff image_iff split: if_splits)
  then show "distinct (map fst (visible ops cs))"
    using distinct_keep [OF e(1), where g = "\<lambda>_. vv_value" and P = "\<lambda>k _. map_of (ch_writes cs) k = None"]
      distinct_keep [OF w, where g = "\<lambda>_. the" and P = "\<lambda>_ ov. ov \<noteq> None"] by (simp add: visible_def)
  show "map_of (visible ops cs) = cs_view ops cs"
    by (rule ext) (simp add: visible_def cs_view_def map_add_def map_of_keep map_of_written [OF w] e(2) del: not_None_eq split: option.split)
qed

lemma handle_get_view: "snd (handle_get ops cs k) = cs_view ops cs k"
  by (simp add: handle_get_def read_key_def cs_view_def split: option.split)

lemma handle_size_view:
  assumes "ok (ch_state cs)" "writes_ok cs"
  shows "snd (handle_size ops cs) = card (dom (cs_view ops cs)) mod two64"
proof -
  have "card (dom (cs_view ops cs)) = length (visible ops cs)"
    using visible_view [OF assms] by (metis distinct_card dom_map_of_conv_image_fst length_map set_map)
  then show ?thesis
    by (simp add: handle_size_def handle_foreach_def foreach_all foldl_count two64_pos)
qed

lemma handle_range_view:
  assumes "ok (ch_state cs)" "writes_ok cs"
  shows "sorted_wrt (<) (map fst (snd (handle_range ops True from to cs)))"
    "map_of (snd (handle_range ops True from to cs)) k = (if in_bounds from to k then cs_view ops cs k else None)"
proof -
  let ?es = "filter (\<lambda>kv. in_bounds from to (fst kv)) (visible ops cs)"
  have d: "distinct (map fst ?es)" using visible_view(1) [OF assms] by (simp add: distinct_map_filter)
  have "snd (foreach_state_and_writes ops (range_visitor True from to) True cs []) =
      foldl (\<lambda>r kv. omap_set (fst kv) (snd kv) r) [] ?es"
    by (simp add: foreach_all foldl_range)
  then have r: "sorted_wrt (<) (map fst (snd (foreach_state_and_writes ops (range_visitor True from to) True cs [])))"
    "map_of (snd (foreach_state_and_writes ops (range_visitor True from to) True cs [])) = map_of ?es"
    using foldl_omap_set [of "[]" ?es] d by simp_all
  show "sorted_wrt (<) (map fst (snd (handle_range ops True from to cs)))"
    using r(1) by (simp add: handle_range_def split: option.splits)
  show "map_of (snd (handle_range ops True from to cs)) k = (if in_bounds from to k then cs_view ops cs k else None)"
    using r(2) visible_view(2) [OF assms] empty_bounds
    by (auto simp: handle_range_def map_of_filter_keys split: option.splits)
qed

lemma handle_clear_view:
  assumes "ok (ch_state cs)" "writes_ok cs"
  shows "cs_view ops (handle_clear ops cs) = Map.empty"
proof
  fix k
  have "k \<in> fst ` set (visible ops cs) \<longleftrightarrow> cs_view ops cs k \<noteq> None"
    using visible_view(2) [OF assms] by (metis domIff dom_map_of_conv_image_fst)
  then show "cs_view ops (handle_clear ops cs) k = None"
    by (auto simp: handle_clear_def handle_foreach_def foreach_all foldl_remove cs_view_def foldl_handle_remove split: option.splits)
qed

end

section \<open>Properties\<close>

lemma cs_view_updates:
  "cs_view ops (handle_put cs k v) = (cs_view ops cs)(k \<mapsto> v)" "cs_view ops (handle_remove cs k) = (cs_view ops cs)(k := None)"
  by (auto simp: cs_view_def handle_put_def handle_remove_def map_of_omap_set map_of_omap_set_other fun_eq_iff
      split: option.split)

text \<open>
  C32. A handle behaves like a map of its own: after any writes of the transaction, \<^verbatim>\<open>get\<close> and \<^verbatim>\<open>has\<close> answer from
  the state overlaid with the writes, \<^verbatim>\<open>put\<close> and \<^verbatim>\<open>remove\<close> change one key, \<^verbatim>\<open>size\<close> counts the entries, \<^verbatim>\<open>range\<close> calls
  the functor on exactly the entries from \<open>lo\<close> up to but not at \<open>hi\<close>, in ascending order, each once, and
  \<^verbatim>\<open>clear\<close> leaves no entry.
\<close>

theorem handle_is_a_map:
  fixes cs :: "(('k::linorder, 'v versionv) champ, 'k, 'v) change_set"
  assumes "champ_ok h (ch_state cs)" "sorted_wrt (<) (map fst (ch_writes cs))"
  shows "let ops = champ_ops h esz; entries = snd (handle_range ops True lo hi cs)
    in snd (handle_get ops cs k) = cs_view ops cs k \<and>
       (snd (handle_has ops cs k) \<longleftrightarrow> cs_view ops cs k \<noteq> None) \<and>
       cs_view ops (handle_put cs k v) = (cs_view ops cs)(k \<mapsto> v) \<and>
       cs_view ops (handle_remove cs k) = (cs_view ops cs)(k := None) \<and>
       snd (handle_size ops cs) = card (dom (cs_view ops cs)) mod two64 \<and>
       sorted_wrt (<) (map fst entries) \<and>
       (\<forall>k. map_of entries k = (if in_bounds lo hi k then cs_view ops cs k else None)) \<and>
       cs_view ops (handle_clear ops cs) = Map.empty"
  using assms cho.handle_get_view [of h esz cs k]
  by (simp add: Let_def cs_view_updates cho.handle_size_view cho.handle_range_view cho.handle_clear_view
      handle_get_def handle_has_def case_prod_beta)

definition sample_writer :: "(sample_state, nat, nat) change_set" where
  "sample_writer = handle_remove (handle_put (handle_put sample_cs 5 50) 3 30) 1"

lemma sample_writer_view: "cs_view sample_ops sample_writer = [3 \<mapsto> 30, 5 \<mapsto> 50]"
  by (auto simp: cs_view_def sample_writer_def sample_simps handle_remove_def fun_eq_iff)

theorem handle_is_a_map_witness:
  "let entries = snd (handle_range sample_ops True (Some 2) (Some 4) sample_writer)
   in sorted_wrt (<) (map fst entries) \<and> map_of entries = [3 \<mapsto> 30] \<and> snd (handle_size sample_ops sample_writer) = 2"
proof -
  have "champ_ok (\<lambda>_. 7) (ch_state sample_writer)" "sorted_wrt (<) (map fst (ch_writes sample_writer))"
    by (simp_all add: sample_writer_def sample_simps handle_remove_def)
  from handle_is_a_map [OF this, where esz = "\<lambda>_ _. 16" and lo = "Some 2" and hi = "Some 4"]
  show ?thesis
    by (simp add: Let_def sample_ops_def [symmetric] sample_writer_view fun_eq_iff in_bounds_def two64_def)
qed

end
