(* ===== verification/Ledger_Secrets.thy ===== *)
theory Ledger_Secrets
  imports Tx_Status Serialized
begin

text \<open>
  The secrets that encrypt the private part of ledger entries (\<^verbatim>\<open>src/node/ledger_secrets.h\<close>,
  \<^verbatim>\<open>src/node/ledger_secret.h\<close>), the header of an encrypted entry (\<^verbatim>\<open>src/crypto/symmetric_key.cpp\<close>,
  \<^verbatim>\<open>src/node/encryptor.h\<close>) and the encryptor on top of them (\<^verbatim>\<open>src/kv/encryptor.h\<close>).

  AES-GCM comes from OpenSSL and is the argument \<open>gcm\<close>; \<open>gcm_ok\<close> is what the code relies on. A secret is the value
  behind its shared pointer. \<^verbatim>\<open>std::map\<close> is an ordered association list, and an iterator into it is the key
  of its entry, because insertions and the removal of other entries leave it valid.
\<close>

section \<open>Entry types and exceptions\<close>

datatype entry_type =
  WriteSet | Snapshot | WriteSetWithClaims | WriteSetWithCommitEvidence | WriteSetWithCommitEvidenceAndClaims

datatype kv_error = SpaceError | LogicError | RuntimeError | SerialiserError | CompactedVersionConflict | Fault

text \<open>\<open>Fault\<close> is an access outside of a buffer, the other values are exceptions.\<close>

fun of_ser :: "ser_error + 'a \<Rightarrow> kv_error + 'a" where
  "of_ser (Inl InsufficientSpace) = Inl SpaceError"
| "of_ser (Inl OutOfBoundsRead) = Inl Fault"
| "of_ser (Inr x) = Inr x"

section \<open>Secrets\<close>

record ledger_secret =
  raw_key :: bytes
  previous_secret_stored_version :: "nat option"

record ledger_secrets =
  secrets_map :: "(nat \<times> ledger_secret) list"
  initial_latest_ledger_secret_version :: nat
  last_used_secret_it :: "nat option"

definition no_secrets :: ledger_secrets where
  "no_secrets = \<lparr>secrets_map = [], initial_latest_ledger_secret_version = 0, last_used_secret_it = None\<rparr>"

definition next_secret :: "(nat \<times> ledger_secret) list \<Rightarrow> nat \<Rightarrow> nat option" where
  "next_secret m it = map_option fst (find (\<lambda>e. it < fst e) m)"

definition get_secret_for_version ::
  "ledger_secrets \<Rightarrow> nat \<Rightarrow> bool \<Rightarrow> ledger_secrets \<times> ledger_secret option"
where
  "get_secret_for_version ls version historical_hint =
     (if secrets_map ls = [] then (ls, None)
      else case (historical_hint, last_used_secret_it ls) of
        (False, Some it) \<Rightarrow>
          (let it = (case next_secret (secrets_map ls) it of
                       Some n \<Rightarrow> if n \<le> version then n else it
                     | None \<Rightarrow> it)
           in (ls\<lparr>last_used_secret_it := Some it\<rparr>, map_of (secrets_map ls) it))
      | _ \<Rightarrow>
          (let search = upper_bound (map fst (secrets_map ls)) version
           in if search = 0 then (ls, None)
              else let (k, s) = secrets_map ls ! (search - 1)
                   in (if historical_hint then ls else ls\<lparr>last_used_secret_it := Some k\<rparr>, Some s)))"

text \<open>\<^verbatim>\<open>std::map::emplace\<close> keeps an entry that is there. The fresh random key is an argument.\<close>

definition secrets_init :: "ledger_secrets \<Rightarrow> nat \<Rightarrow> bytes \<Rightarrow> ledger_secrets" where
  "secrets_init ls initial_version random =
     ls\<lparr>secrets_map := omap_emplace initial_version \<lparr>raw_key = random, previous_secret_stored_version = None\<rparr> (secrets_map ls),
        initial_latest_ledger_secret_version := initial_version\<rparr>"

text \<open>\<^verbatim>\<open>rbegin\<close> of an empty map is undefined behaviour, here a missing result.\<close>

definition init_from_map :: "ledger_secrets \<Rightarrow> (nat \<times> ledger_secret) list \<Rightarrow> ledger_secrets option" where
  "init_from_map ls m =
     (if m = [] then None
      else Some (ls\<lparr>secrets_map := m, initial_latest_ledger_secret_version := fst (last m)\<rparr>))"

definition adjust_previous_secret_stored_version :: "ledger_secrets \<Rightarrow> nat \<Rightarrow> kv_error + ledger_secrets" where
  "adjust_previous_secret_stored_version ls version =
     (if secrets_map ls = [] then Inl LogicError
      else let (k, s) = last (secrets_map ls)
           in Inr (ls\<lparr>secrets_map := butlast (secrets_map ls) @ [(k, s\<lparr>previous_secret_stored_version := Some version\<rparr>)]\<rparr>))"

definition get_first :: "ledger_secrets \<Rightarrow> kv_error + nat \<times> ledger_secret" where
  "get_first ls = (if secrets_map ls = [] then Inl LogicError else Inr (hd (secrets_map ls)))"

definition get_latest :: "ledger_secrets \<Rightarrow> kv_error + nat \<times> ledger_secret" where
  "get_latest ls = (if secrets_map ls = [] then Inl LogicError else Inr (last (secrets_map ls)))"

definition get_latest_and_penultimate ::
  "ledger_secrets \<Rightarrow> kv_error + (nat \<times> ledger_secret) \<times> (nat \<times> ledger_secret) option"
where
  "get_latest_and_penultimate ls =
     (if secrets_map ls = [] then Inl LogicError
      else if length (secrets_map ls) < 2 then Inr (last (secrets_map ls), None)
      else Inr (last (secrets_map ls), Some (last (butlast (secrets_map ls)))))"

definition get_secrets :: "ledger_secrets \<Rightarrow> nat option \<Rightarrow> kv_error + (nat \<times> ledger_secret) list" where
  "get_secrets ls up_to =
     (case up_to of
        None \<Rightarrow> Inr (secrets_map ls)
      | Some v \<Rightarrow>
          if map_of (secrets_map ls) v = None then Inl LogicError
          else Inr (takeWhile (\<lambda>e. fst e \<noteq> v) (secrets_map ls) @ take 1 (dropWhile (\<lambda>e. fst e \<noteq> v) (secrets_map ls))))"

text \<open>\<^verbatim>\<open>std::map::merge\<close> moves the entries whose key is not there yet.\<close>

definition restore_historical :: "ledger_secrets \<Rightarrow> (nat \<times> ledger_secret) list \<Rightarrow> kv_error + ledger_secrets" where
  "restore_historical ls restored =
     (if secrets_map ls \<noteq> [] \<and> restored \<noteq> [] \<and> fst (hd (secrets_map ls)) \<le> fst (last restored) then Inl LogicError
      else Inr (ls\<lparr>secrets_map := foldl (\<lambda>m (k, s). omap_emplace k s m) (secrets_map ls) restored\<rparr>))"

definition get_encryption_key_for :: "ledger_secrets \<Rightarrow> nat \<Rightarrow> bool \<Rightarrow> ledger_secrets \<times> bytes option" where
  "get_encryption_key_for ls version historical_hint =
     (let (ls, s) = get_secret_for_version ls version historical_hint in (ls, map_option raw_key s))"

definition set_secret :: "ledger_secrets \<Rightarrow> nat \<Rightarrow> ledger_secret \<Rightarrow> ledger_secrets" where
  "set_secret ls version secret = ls\<lparr>secrets_map := omap_emplace version secret (secrets_map ls)\<rparr>"

definition secrets_rollback :: "ledger_secrets \<Rightarrow> nat \<Rightarrow> ledger_secrets" where
  "secrets_rollback ls version =
     (if secrets_map ls = [] \<or> version < fst (hd (secrets_map ls)) then ls
      else ls\<lparr>secrets_map := take 1 (secrets_map ls) @
                pop_back_while (\<lambda>e. \<not> (fst e \<le> version \<or> fst e \<le> initial_latest_ledger_secret_version ls))
                  (drop 1 (secrets_map ls)),
              last_used_secret_it := None\<rparr>)"

section \<open>Headers\<close>

record gcm_header =
  gh_tag :: bytes
  gh_iv :: bytes

definition GCM_SIZE_TAG :: nat where
  "GCM_SIZE_TAG = 16"

definition iv_size :: nat where
  "iv_size = 12"

definition IV_DELIMITER :: nat where
  "IV_DELIMITER = 8"

definition gcm_header_size :: nat where
  "gcm_header_size = GCM_SIZE_TAG + iv_size"

definition new_gcm_header :: gcm_header where
  "new_gcm_header = \<lparr>gh_tag = replicate GCM_SIZE_TAG 0, gh_iv = replicate iv_size 0\<rparr>"

definition gcm_serialise :: "gcm_header \<Rightarrow> bytes" where
  "gcm_serialise h = gh_tag h @ gh_iv h"

definition gcm_deserialise :: "bytes \<Rightarrow> kv_error + gcm_header" where
  "gcm_deserialise ser =
     (case ser_read_block GCM_SIZE_TAG ser of
        Inl e \<Rightarrow> Inl SpaceError
      | Inr (tag, rest) \<Rightarrow>
          (case ser_read_block iv_size rest of
             Inl e \<Rightarrow> Inl SpaceError
           | Inr (iv, _) \<Rightarrow> Inr \<lparr>gh_tag = tag, gh_iv = iv\<rparr>))"

definition set_iv_seq :: "gcm_header \<Rightarrow> nat \<Rightarrow> gcm_header" where
  "set_iv_seq h seq = h\<lparr>gh_iv := le_bytes 8 seq @ drop 8 (gh_iv h)\<rparr>"

definition set_iv_term :: "gcm_header \<Rightarrow> nat \<Rightarrow> kv_error + gcm_header" where
  "set_iv_term h term =
     (if term > 0x7FFFFFFF then Inl LogicError
      else Inr (h\<lparr>gh_iv := take IV_DELIMITER (gh_iv h) @ le_bytes 4 term @ drop (IV_DELIMITER + 4) (gh_iv h)\<rparr>))"

definition get_iv_term :: "gcm_header \<Rightarrow> nat" where
  "get_iv_term h = le_value (take 4 (drop IV_DELIMITER (gh_iv h)))"

definition set_iv_is_snapshot :: "gcm_header \<Rightarrow> gcm_header" where
  "set_iv_is_snapshot h = h\<lparr>gh_iv := butlast (gh_iv h) @ [or (last (gh_iv h)) 0x80]\<rparr>"

section \<open>The encryptor\<close>

record aes_gcm =
  gcm_encrypt :: "bytes \<Rightarrow> bytes \<Rightarrow> bytes \<Rightarrow> bytes \<Rightarrow> bytes \<times> bytes"
  gcm_decrypt :: "bytes \<Rightarrow> bytes \<Rightarrow> bytes \<Rightarrow> bytes \<Rightarrow> bytes \<Rightarrow> bytes option"

definition set_iv :: "tx_id \<Rightarrow> entry_type \<Rightarrow> kv_error + gcm_header" where
  "set_iv tx et =
     (case set_iv_term (set_iv_seq new_gcm_header (tx_seqno tx)) (tx_view tx) of
        Inl e \<Rightarrow> Inl e
      | Inr h \<Rightarrow> Inr (if et = Snapshot then set_iv_is_snapshot h else h))"

text \<open>\<^verbatim>\<open>KeyAesGcm_OpenSSL::encrypt\<close> refuses to encrypt nothing; the result is the cipher and the tag.\<close>

definition key_encrypt :: "aes_gcm \<Rightarrow> bytes \<Rightarrow> bytes \<Rightarrow> bytes \<Rightarrow> bytes \<Rightarrow> kv_error + bytes \<times> bytes" where
  "key_encrypt gcm key iv plain aad =
     (if aad = [] \<and> plain = [] then Inl LogicError else Inr (gcm_encrypt gcm key iv plain aad))"

text \<open>\<open>Inr None\<close> is the result \<^verbatim>\<open>false\<close>.\<close>

definition tx_encrypt ::
  "aes_gcm \<Rightarrow> ledger_secrets \<Rightarrow> bytes \<Rightarrow> bytes \<Rightarrow> tx_id \<Rightarrow> entry_type \<Rightarrow> bool \<Rightarrow>
   ledger_secrets \<times> (kv_error + (bytes \<times> bytes) option)"
where
  "tx_encrypt gcm ls plain additional_data tx et historical_hint =
     (case set_iv tx et of
        Inl e \<Rightarrow> (ls, Inl e)
      | Inr hdr \<Rightarrow>
          (case get_encryption_key_for ls (tx_seqno tx) historical_hint of
             (ls, None) \<Rightarrow> (ls, Inr None)
           | (ls, Some key) \<Rightarrow>
               (case key_encrypt gcm key (gh_iv hdr) plain additional_data of
                  Inl e \<Rightarrow> (ls, Inl e)
                | Inr (cipher, tag) \<Rightarrow> (ls, Inr (Some (gcm_serialise (hdr\<lparr>gh_tag := tag\<rparr>), cipher))))))"

definition tx_decrypt ::
  "aes_gcm \<Rightarrow> ledger_secrets \<Rightarrow> bytes \<Rightarrow> bytes \<Rightarrow> bytes \<Rightarrow> nat \<Rightarrow> bool \<Rightarrow>
   ledger_secrets \<times> (kv_error + (bytes \<times> nat) option)"
where
  "tx_decrypt gcm ls cipher additional_data serialised_header version historical_hint =
     (case gcm_deserialise serialised_header of
        Inl e \<Rightarrow> (ls, Inl e)
      | Inr hdr \<Rightarrow>
          (case get_encryption_key_for ls version historical_hint of
             (ls, None) \<Rightarrow> (ls, Inr None)
           | (ls, Some key) \<Rightarrow>
               (ls, Inr (map_option (\<lambda>plain. (plain, get_iv_term hdr))
                      (gcm_decrypt gcm key (gh_iv hdr) (gh_tag hdr) cipher additional_data)))))"

definition tx_get_term :: "bytes \<Rightarrow> kv_error + nat" where
  "tx_get_term data = (case gcm_deserialise data of Inl e \<Rightarrow> Inl e | Inr h \<Rightarrow> Inr (get_iv_term h))"

section \<open>Finding a secret\<close>

text \<open>The secret of a version is the one with the highest version up to it.\<close>

definition secret_for :: "(nat \<times> ledger_secret) list \<Rightarrow> nat \<Rightarrow> ledger_secret option" where
  "secret_for m v = (case filter (\<lambda>e. fst e \<le> v) m of [] \<Rightarrow> None | es \<Rightarrow> Some (snd (last es)))"

abbreviation secrets_sorted :: "(nat \<times> ledger_secret) list \<Rightarrow> bool" where
  "secrets_sorted m \<equiv> sorted_wrt (<) (map fst m)"

lemma secret_for_filter: "secret_for m v = (if filter (\<lambda>e. fst e \<le> v) m = [] then None else Some (snd (last (filter (\<lambda>e. fst e \<le> v) m))))"
  by (simp add: secret_for_def split: list.split)

lemma filter_upto_take:
  "secrets_sorted m \<Longrightarrow> filter (\<lambda>e. fst e \<le> v) m = take (upper_bound (map fst m) v) m"
proof (induction m)
  case (Cons e m)
  then show ?case
  proof (cases "fst e \<le> v")
    case False
    then have "filter (\<lambda>e. fst e \<le> v) m = []" using Cons.prems by (force simp: filter_empty_conv)
    then show ?thesis using False by (simp add: upper_bound_def)
  qed (simp add: upper_bound_def)
qed simp

lemma secret_for_upper_bound:
  assumes "secrets_sorted m"
  shows "secret_for m v =
    (let i = upper_bound (map fst m) v in if i = 0 then None else Some (snd (m ! (i - 1))))"
proof -
  have l: "upper_bound (map fst m) v \<le> length m" using upper_bound_le_length [of "map fst m" v] by simp
  then show ?thesis
    by (auto simp: secret_for_filter filter_upto_take [OF assms] Let_def last_conv_nth min_def)
qed

text \<open>A key up to a version with no other key in between decides.\<close>

lemma secret_for_key:
  assumes "secrets_sorted m" "map_of m k = Some s" "k \<le> v" "\<forall>k'\<in>fst ` set m. \<not> (k < k' \<and> k' \<le> v)"
  shows "secret_for m v = Some s"
proof -
  let ?f = "filter (\<lambda>e. fst e \<le> v) m"
  have ks: "(k, s) \<in> set ?f" using assms(2,3) map_of_SomeD by fastforce
  then have ne: "?f \<noteq> []" by (metis empty_iff empty_set)
  then have l: "last ?f \<in> set ?f" by (rule last_in_set)
  have "sorted_wrt (<) (map fst ?f)" using assms(1) by (simp add: sorted_wrt_map sorted_wrt_filter)
  moreover have "k \<in> set (map fst ?f)" using ks by (auto intro: rev_image_eqI)
  ultimately have "k \<le> last (map fst ?f)" by (rule last_in_set_sorted)
  then have "k \<le> fst (last ?f)" using ne by (simp add: last_map)
  moreover have "\<not> k < fst (last ?f)" using l assms(4) by auto
  ultimately have "fst (last ?f) = k" by simp
  then have "map_of m k = Some (snd (last ?f))"
    using l sorted_less_distinct [OF assms(1)] by (intro map_of_is_SomeI) auto
  then show ?thesis using assms(2) ne by (simp add: secret_for_filter)
qed

text \<open>
  A node uses the secrets in the order of the versions: \<open>last\<close> is the last version it used. The iterator,
  if there is one, is at the secret of that version.
\<close>

definition tracks :: "ledger_secrets \<Rightarrow> nat \<Rightarrow> bool" where
  "tracks ls last_used \<longleftrightarrow> secrets_sorted (secrets_map ls) \<and>
     (\<forall>it. last_used_secret_it ls = Some it \<longrightarrow>
        it \<in> fst ` set (secrets_map ls) \<and> it \<le> last_used \<and>
        (\<forall>k\<in>fst ` set (secrets_map ls). \<not> (it < k \<and> k \<le> last_used)))"

lemma next_secret_Some:
  assumes "secrets_sorted m" "next_secret m it = Some n"
  shows "n \<in> fst ` set m" "it < n" "\<forall>k\<in>fst ` set m. it < k \<longrightarrow> n \<le> k"
proof -
  obtain s where f: "find (\<lambda>e. it < fst e) m = Some (n, s)" using assms(2) by (auto simp: next_secret_def)
  then obtain i where i: "i < length m" "it < n" "m ! i = (n, s)" "\<forall>j<i. \<not> it < fst (m ! j)"
    unfolding find_Some_iff by (metis fst_conv)
  then show "n \<in> fst ` set m" "it < n" by (force simp: in_set_conv_nth)+
  have "n \<le> fst (m ! j)" if "j < length m" "it < fst (m ! j)" for j
  proof (cases "i = j")
    case False
    then have "i < j" using i(4) that(2) by (metis linorder_neqE_nat)
    then show ?thesis using assms(1) that(1) i(3) by (force simp: sorted_wrt_iff_nth_less)
  qed (use i(3) in auto)
  then show "\<forall>k\<in>fst ` set m. it < k \<longrightarrow> n \<le> k" by (force simp: in_set_conv_nth)
qed

lemma next_secret_None: "next_secret m it = None \<Longrightarrow> \<forall>k\<in>fst ` set m. \<not> it < k"
  by (auto simp: next_secret_def find_None_iff)

text \<open>The slow path searches, and so is right in any case.\<close>

lemma slow_path:
  assumes "secrets_sorted (secrets_map ls)" "historical_hint \<or> last_used_secret_it ls = None"
  shows "snd (get_secret_for_version ls v historical_hint) = secret_for (secrets_map ls) v"
    "secrets_map (fst (get_secret_for_version ls v historical_hint)) = secrets_map ls"
  using assms(2)
  by (auto simp: get_secret_for_version_def secret_for_upper_bound [OF assms(1)] Let_def case_prod_beta
      split: bool.split option.split)

lemma slow_path_tracks:
  assumes "secrets_sorted (secrets_map ls)" "last_used_secret_it ls = None"
  shows "tracks (fst (get_secret_for_version ls v False)) v"
proof -
  let ?m = "secrets_map ls"
  let ?i = "upper_bound (map fst ?m) v"
  have l: "?i \<le> length ?m" using upper_bound_le_length [of "map fst ?m" v] by simp
  have "fst (?m ! (?i - 1)) \<le> v" if "0 < ?i"
    using nth_before_upper_bound [of "?i - 1" "map fst ?m" v] that l by simp
  moreover have "\<not> (fst (?m ! (?i - 1)) < k \<and> k \<le> v)" if pos: "0 < ?i" and k: "k \<in> fst ` set ?m" for k
  proof
    assume a: "fst (?m ! (?i - 1)) < k \<and> k \<le> v"
    obtain j where j: "j < length ?m" "k = fst (?m ! j)" using k by (auto simp: in_set_conv_nth)
    have "j < ?i"
      using upper_bound_sorted_iff [of "map fst ?m" j v] assms(1) a j by (simp add: strict_sorted_imp_sorted)
    moreover have "fst (?m ! j) \<le> fst (?m ! (?i - 1))" if "j \<le> ?i - 1"
      using sorted_wrt_nth_less [OF assms(1), of j "?i - 1"] that pos l by (cases "j = ?i - 1") (auto intro: less_imp_le)
    ultimately show False using a j(2) by linarith
  qed
  moreover have "fst (?m ! (?i - 1)) \<in> fst ` set ?m" if "0 < ?i" using that l by simp
  ultimately show ?thesis
    using assms by (auto simp: tracks_def get_secret_for_version_def Let_def case_prod_beta)
qed

lemma use_in_order:
  assumes "tracks ls u" "u \<le> v" "v \<le> Suc u"
  shows "snd (get_secret_for_version ls v False) = secret_for (secrets_map ls) v"
    "tracks (fst (get_secret_for_version ls v False)) v"
    "secrets_map (fst (get_secret_for_version ls v False)) = secrets_map ls"
proof -
  let ?m = "secrets_map ls"
  have s: "secrets_sorted ?m" using assms(1) by (simp add: tracks_def)
  show "secrets_map (fst (get_secret_for_version ls v False)) = ?m"
    by (auto simp: get_secret_for_version_def Let_def case_prod_beta split: option.split)
  have "snd (get_secret_for_version ls v False) = secret_for ?m v \<and> tracks (fst (get_secret_for_version ls v False)) v"
  proof (cases "last_used_secret_it ls")
    case None
    then show ?thesis using slow_path [OF s] slow_path_tracks [OF s] by simp
  next
    case (Some it)
    then have it: "it \<in> fst ` set ?m" "it \<le> u" "\<forall>k\<in>fst ` set ?m. \<not> (it < k \<and> k \<le> u)"
      using assms(1) by (auto simp: tracks_def)
    then have ne: "?m \<noteq> []" by auto
    define it' where "it' = (case next_secret ?m it of Some n \<Rightarrow> if n \<le> v then n else it | None \<Rightarrow> it)"
    have r: "get_secret_for_version ls v False = (ls\<lparr>last_used_secret_it := Some it'\<rparr>, map_of ?m it')"
      using Some ne by (simp add: get_secret_for_version_def it'_def Let_def)
    have it': "it' \<in> fst ` set ?m" "it' \<le> v" "\<forall>k\<in>fst ` set ?m. \<not> (it' < k \<and> k \<le> v)"
      using it assms(2,3) next_secret_Some [OF s, of it] next_secret_None [of ?m it]
      by (auto simp: it'_def le_Suc_eq split: option.splits) fastforce+
    then obtain x where x: "map_of ?m it' = Some x" by (metis map_of_eq_None_iff option.exhaust)
    then show ?thesis using secret_for_key [OF s x it'(2,3)] it' s by (simp add: r tracks_def)
  qed
  then show "snd (get_secret_for_version ls v False) = secret_for ?m v" "tracks (fst (get_secret_for_version ls v False)) v"
    by simp_all
qed

lemma historical_use:
  assumes "tracks ls u"
  shows "snd (get_secret_for_version ls v True) = secret_for (secrets_map ls) v" "fst (get_secret_for_version ls v True) = ls"
  using slow_path(1) [of ls True v] assms
  by (auto simp: tracks_def get_secret_for_version_def Let_def case_prod_beta)

lemma rekey_tracks:
  assumes "tracks ls u" "u < k"
  shows "tracks (set_secret ls k s) u"
  using assms by (auto simp: tracks_def set_secret_def sorted_omap_emplace set_omap_emplace_keys)

lemma pop_back_secrets:
  "secrets_sorted m \<Longrightarrow>
   pop_back_while (\<lambda>e. \<not> (fst e \<le> v \<or> fst e \<le> i)) m = filter (\<lambda>e. fst e \<le> v \<or> fst e \<le> i) m"
proof (induction m rule: rev_induct)
  case (snoc e m)
  then have s: "secrets_sorted m" "\<forall>e'\<in>set m. fst e' < fst e" by (auto simp: sorted_wrt_append)
  have "filter (\<lambda>e. fst e \<le> v \<or> fst e \<le> i) m = m" if "fst e \<le> v \<or> fst e \<le> i"
    using s(2) that by (force simp: filter_id_conv)
  then show ?case using snoc.IH [OF s(1)] by auto
qed simp

lemma rollback_map:
  assumes "secrets_sorted (secrets_map ls)" "secrets_map ls \<noteq> []" "fst (hd (secrets_map ls)) \<le> v"
  shows "secrets_map (secrets_rollback ls v) =
      filter (\<lambda>e. fst e \<le> v \<or> fst e \<le> initial_latest_ledger_secret_version ls) (secrets_map ls)"
    "last_used_secret_it (secrets_rollback ls v) = None"
proof -
  obtain e m where m: "secrets_map ls = e # m" using assms(2) by (cases "secrets_map ls") auto
  then have "secrets_sorted m" using assms(1) by simp
  from pop_back_secrets [OF this] show
    "secrets_map (secrets_rollback ls v) =
      filter (\<lambda>e. fst e \<le> v \<or> fst e \<le> initial_latest_ledger_secret_version ls) (secrets_map ls)"
    "last_used_secret_it (secrets_rollback ls v) = None"
    using assms(3) m by (simp_all add: secrets_rollback_def)
qed

lemma rollback_tracks:
  assumes "tracks ls u" "secrets_map ls \<noteq> []" "fst (hd (secrets_map ls)) \<le> v"
  shows "tracks (secrets_rollback ls v) v"
  using rollback_map [OF _ assms(2,3)] assms(1)
  by (simp add: tracks_def sorted_wrt_map sorted_wrt_filter)

lemma emplace_all:
  "secrets_sorted m \<Longrightarrow> secrets_sorted (foldl (\<lambda>m (k, s). omap_emplace k s m) m r)"
  "fst ` set (foldl (\<lambda>m (k, s). omap_emplace k s m) m r) = fst ` set m \<union> fst ` set r"
  by (induction r arbitrary: m) (simp_all add: sorted_omap_emplace set_omap_emplace_keys case_prod_beta)

lemma restore_tracks:
  assumes "tracks ls u" "restore_historical ls r = Inr ls'" "secrets_sorted r"
  shows "tracks ls' u"
proof -
  let ?m = "secrets_map ls"
  have s: "secrets_sorted ?m" using assms(1) by (simp add: tracks_def)
  have ls': "ls' = ls\<lparr>secrets_map := foldl (\<lambda>m (k, s). omap_emplace k s m) ?m r\<rparr>"
    using assms(2) by (auto simp: restore_historical_def split: if_splits)
  have "k < it" if "k \<in> fst ` set r" "it \<in> fst ` set ?m" for k it
  proof -
    have "k \<le> last (map fst r)" by (rule last_in_set_sorted [OF assms(3)]) (use that in simp)
    moreover have "r \<noteq> []" "?m \<noteq> []" using that by auto
    moreover from this have "fst (last r) < fst (hd ?m)"
      using assms(2) by (auto simp: restore_historical_def split: if_splits)
    moreover have "fst (hd ?m) \<le> it" using that(2) s by (cases ?m) auto
    ultimately show ?thesis by (simp add: last_map)
  qed
  then show ?thesis
    using assms(1) emplace_all(1) [OF s] by (fastforce simp: tracks_def ls' emplace_all(2))
qed

section \<open>Histories of use\<close>

text \<open>
  What a node does with its secrets: use the secret of a version, look up an old one for a historical query,
  add the secret of a rekey, roll back, and restore old secrets during recovery.
\<close>

datatype secret_event =
  Use nat | UseHistorical nat | Rekey nat ledger_secret | Undo nat | Restore "(nat \<times> ledger_secret) list"

fun secrets_run :: "secret_event list \<Rightarrow> ledger_secrets \<Rightarrow> ledger_secret option list" where
  "secrets_run [] ls = []"
| "secrets_run (Use v # es) ls =
     (let (ls, s) = get_secret_for_version ls v False in s # secrets_run es ls)"
| "secrets_run (UseHistorical v # es) ls =
     (let (ls, s) = get_secret_for_version ls v True in s # secrets_run es ls)"
| "secrets_run (Rekey k s # es) ls = secrets_run es (set_secret ls k s)"
| "secrets_run (Undo v # es) ls = secrets_run es (secrets_rollback ls v)"
| "secrets_run (Restore r # es) ls =
     secrets_run es (case restore_historical ls r of Inr ls \<Rightarrow> ls | Inl _ \<Rightarrow> ls)"

text \<open>The specification: the secrets are a plain map, and every use searches it.\<close>

fun map_after :: "secret_event \<Rightarrow> nat \<Rightarrow> (nat \<times> ledger_secret) list \<Rightarrow> (nat \<times> ledger_secret) list" where
  "map_after (Rekey k s) i m = omap_emplace k s m"
| "map_after (Undo v) i m = filter (\<lambda>e. fst e \<le> v \<or> fst e \<le> i) m"
| "map_after (Restore r) i m =
     (if m \<noteq> [] \<and> r \<noteq> [] \<and> fst (hd m) \<le> fst (last r) then m else foldl (\<lambda>m (k, s). omap_emplace k s m) m r)"
| "map_after _ i m = m"

fun spec_run :: "secret_event list \<Rightarrow> nat \<Rightarrow> (nat \<times> ledger_secret) list \<Rightarrow> ledger_secret option list" where
  "spec_run [] i m = []"
| "spec_run (e # es) i m =
     (case e of Use v \<Rightarrow> [secret_for m v] | UseHistorical v \<Rightarrow> [secret_for m v] | _ \<Rightarrow> []) @ spec_run es i (map_after e i m)"

text \<open>
  In order: from the last version used, either the same or the next one is used; a rekey is for a later
  version; a rollback keeps the first secret.
\<close>

fun in_order :: "secret_event list \<Rightarrow> nat \<Rightarrow> nat \<Rightarrow> (nat \<times> ledger_secret) list \<Rightarrow> bool" where
  "in_order [] i u m \<longleftrightarrow> True"
| "in_order (e # es) i u m \<longleftrightarrow>
     (case e of
        Use v \<Rightarrow> u \<le> v \<and> v \<le> Suc u \<and> in_order es i v m
      | UseHistorical v \<Rightarrow> in_order es i u m
      | Rekey k s \<Rightarrow> u < k \<and> in_order es i u (map_after e i m)
      | Undo v \<Rightarrow> m \<noteq> [] \<and> fst (hd m) \<le> v \<and> in_order es i v (map_after e i m)
      | Restore r \<Rightarrow> secrets_sorted r \<and> in_order es i u (map_after e i m))"

lemma initial_kept [simp]:
  "initial_latest_ledger_secret_version (fst (get_secret_for_version ls v b)) = initial_latest_ledger_secret_version ls"
  "initial_latest_ledger_secret_version (set_secret ls k s) = initial_latest_ledger_secret_version ls"
  "initial_latest_ledger_secret_version (secrets_rollback ls v) = initial_latest_ledger_secret_version ls"
  by (auto simp: get_secret_for_version_def set_secret_def secrets_rollback_def Let_def case_prod_beta
      split: option.split bool.split)

lemma run_matches_spec:
  assumes "tracks ls u" "in_order es (initial_latest_ledger_secret_version ls) u (secrets_map ls)"
  shows "secrets_run es ls = spec_run es (initial_latest_ledger_secret_version ls) (secrets_map ls)"
  using assms
proof (induction es arbitrary: ls u)
  case (Cons e es)
  show ?case
  proof (cases e)
    case (Use v)
    then have v: "u \<le> v" "v \<le> Suc u" using Cons.prems(2) by simp_all
    show ?thesis
      using use_in_order [OF Cons.prems(1) v] Cons.IH [of "fst (get_secret_for_version ls v False)" v] Cons.prems(2) Use
      by (simp add: case_prod_beta)
  next
    case (UseHistorical v)
    then show ?thesis
      using historical_use [OF Cons.prems(1), of v] Cons.IH [OF Cons.prems(1)] Cons.prems(2) by (simp add: case_prod_beta)
  next
    case (Rekey k s)
    then show ?thesis
      using rekey_tracks [OF Cons.prems(1), of k s] Cons.IH [of "set_secret ls k s" u] Cons.prems(2)
      by (simp add: set_secret_def)
  next
    case (Undo v)
    have s: "secrets_sorted (secrets_map ls)" using Cons.prems(1) by (simp add: tracks_def)
    have n: "secrets_map ls \<noteq> []" "fst (hd (secrets_map ls)) \<le> v" using Undo Cons.prems(2) by simp_all
    show ?thesis
      using rollback_tracks [OF Cons.prems(1) n] rollback_map(1) [OF s n] Cons.IH [of "secrets_rollback ls v" v] Cons.prems(2) Undo
      by simp
  next
    case (Restore r)
    then have r: "secrets_sorted r" using Cons.prems(2) by simp
    show ?thesis
    proof (cases "restore_historical ls r")
      case (Inl err)
      then show ?thesis
        using Restore Cons.IH [OF Cons.prems(1)] Cons.prems(2) by (auto simp: restore_historical_def split: if_splits)
    next
      case (Inr ls')
      then show ?thesis
        using Restore Cons.IH [OF restore_tracks [OF Cons.prems(1) Inr r]] Cons.prems(2)
        by (auto simp: restore_historical_def split: if_splits)
    qed
  qed
qed simp

section \<open>Encryption\<close>

definition gcm_ok :: "aes_gcm \<Rightarrow> bool" where
  "gcm_ok gcm \<longleftrightarrow>
     (\<forall>key iv plain aad cipher tag. gcm_encrypt gcm key iv plain aad = (cipher, tag) \<longrightarrow>
        length cipher = length plain \<and> length tag = GCM_SIZE_TAG \<and> gcm_decrypt gcm key iv tag cipher aad = Some plain)"

definition snapshot_bit :: "entry_type \<Rightarrow> byte" where
  "snapshot_bit et = (if et = Snapshot then 0x80 else 0)"

lemma le_bytes_4: "le_bytes 4 n = [of_nat (n mod 256), of_nat (n div 256 mod 256), of_nat (n div 256 div 256 mod 256),
    of_nat (n div 256 div 256 div 256 mod 256)]"
proof -
  have "(4::nat) = Suc (Suc (Suc (Suc 0)))" by simp
  then show ?thesis by (simp only: le_bytes.simps)
qed

text \<open>The nonce is the sequence number, then the term with the snapshot bit in its highest byte.\<close>

lemma set_iv_bytes:
  assumes "set_iv tx et = Inr h"
  shows "gh_iv h = le_bytes 8 (tx_seqno tx) @ butlast (le_bytes 4 (tx_view tx)) @ [or (last (le_bytes 4 (tx_view tx))) (snapshot_bit et)]"
    "tx_view tx < 2 ^ 31"
proof -
  have v: "\<not> tx_view tx > 0x7FFFFFFF" using assms by (auto simp: set_iv_def set_iv_term_def split: if_splits)
  then have "gh_iv (if et = Snapshot then set_iv_is_snapshot h' else h') =
      le_bytes 8 (tx_seqno tx) @ butlast (le_bytes 4 (tx_view tx)) @ [or (last (le_bytes 4 (tx_view tx))) (snapshot_bit et)]"
    if "h' = (set_iv_seq new_gcm_header (tx_seqno tx))\<lparr>gh_iv := take IV_DELIMITER (gh_iv (set_iv_seq new_gcm_header (tx_seqno tx))) @
        le_bytes 4 (tx_view tx) @ drop (IV_DELIMITER + 4) (gh_iv (set_iv_seq new_gcm_header (tx_seqno tx)))\<rparr>" for h'
    using that by (simp add: set_iv_seq_def new_gcm_header_def IV_DELIMITER_def iv_size_def set_iv_is_snapshot_def
        snapshot_bit_def le_bytes_4 butlast_append)
  then show "gh_iv h = le_bytes 8 (tx_seqno tx) @ butlast (le_bytes 4 (tx_view tx)) @ [or (last (le_bytes 4 (tx_view tx))) (snapshot_bit et)]"
    using assms v by (auto simp: set_iv_def set_iv_term_def split: if_splits)
  show "tx_view tx < 2 ^ 31" using v by simp
qed

lemma set_iv_length: "set_iv tx et = Inr h \<Longrightarrow> length (gh_iv h) = iv_size"
  using set_iv_bytes(1) [of tx et h] by (simp add: iv_size_def)

lemma set_iv_term_back:
  assumes "set_iv tx et = Inr h" "et \<noteq> Snapshot"
  shows "get_iv_term h = tx_view tx"
proof -
  have "gh_iv h = le_bytes 8 (tx_seqno tx) @ le_bytes 4 (tx_view tx)"
    using set_iv_bytes(1) [OF assms(1)] assms(2) by (simp add: snapshot_bit_def le_bytes_4)
  moreover have "tx_view tx < 256 ^ 4" using set_iv_bytes(2) [OF assms(1)] by simp
  ultimately show ?thesis by (simp add: get_iv_term_def IV_DELIMITER_def le_value_le_bytes)
qed

lemma gcm_round_trip:
  "length (gh_tag h) = GCM_SIZE_TAG \<Longrightarrow> length (gh_iv h) = iv_size \<Longrightarrow> gcm_deserialise (gcm_serialise h) = Inr h"
  by (simp add: gcm_deserialise_def gcm_serialise_def ser_read_block_def)

lemma decrypt_encrypted:
  assumes "gcm_ok gcm" "et \<noteq> Snapshot" "snd (tx_encrypt gcm ls plain aad tx et hint) = Inr (Some (hdr, cipher))"
    "\<And>h. snd (get_encryption_key_for ls (tx_seqno tx) h) = Some key" "\<And>h. snd (get_encryption_key_for ls' (tx_seqno tx) h) = Some key"
  shows "length hdr = gcm_header_size" "length cipher = length plain"
    "snd (tx_decrypt gcm ls' cipher aad hdr (tx_seqno tx) hint') = Inr (Some (plain, tx_view tx))"
    "tx_get_term hdr = Inr (tx_view tx)"
proof -
  obtain h where h: "set_iv tx et = Inr h" using assms(3) by (auto simp: tx_encrypt_def split: sum.splits)
  obtain l where l: "get_encryption_key_for ls (tx_seqno tx) hint = (l, Some key)" using assms(4) [of hint] by (metis prod.collapse)
  obtain l' where l': "get_encryption_key_for ls' (tx_seqno tx) hint' = (l', Some key)" using assms(5) [of hint'] by (metis prod.collapse)
  obtain tag where c: "gcm_encrypt gcm key (gh_iv h) plain aad = (cipher, tag)" "hdr = gcm_serialise (h\<lparr>gh_tag := tag\<rparr>)"
    using assms(3) h l by (auto simp: tx_encrypt_def key_encrypt_def split: if_splits prod.splits)
  note g = assms(1) [unfolded gcm_ok_def, rule_format, OF c(1)]
  have iv: "length (gh_iv h) = iv_size" by (rule set_iv_length [OF h])
  have d: "gcm_deserialise hdr = Inr (h\<lparr>gh_tag := tag\<rparr>)" unfolding c(2) by (rule gcm_round_trip) (use g iv in simp_all)
  have t: "get_iv_term (h\<lparr>gh_tag := tag\<rparr>) = tx_view tx" using set_iv_term_back [OF h assms(2)] by (simp add: get_iv_term_def)
  show "length hdr = gcm_header_size" using c(2) g iv by (simp add: gcm_serialise_def gcm_header_size_def)
  show "length cipher = length plain" using g by simp
  show "snd (tx_decrypt gcm ls' cipher aad hdr (tx_seqno tx) hint') = Inr (Some (plain, tx_view tx))"
    using d l' g t by (simp add: tx_decrypt_def)
  show "tx_get_term hdr = Inr (tx_view tx)" using d t by (simp add: tx_get_term_def)
qed

lemma bit_snapshot_bit: "bit (snapshot_bit et) i \<longleftrightarrow> et = Snapshot \<and> i = 7"
proof -
  have "bit (2 ^ 7 :: byte) i \<longleftrightarrow> i = 7" by (subst bit_exp_iff) (auto simp: possible_bit_def)
  then have "bit (0x80 :: byte) i \<longleftrightarrow> i = 7" by simp
  then show ?thesis by (simp add: snapshot_bit_def)
qed

lemma highest_byte_unique:
  assumes "m < 128" "n < 128" "or (of_nat m :: byte) (snapshot_bit et) = or (of_nat n) (snapshot_bit et')"
  shows "m = n" "et = Snapshot \<longleftrightarrow> et' = Snapshot"
proof -
  have top: "\<not> bit (of_nat k :: byte) 7" if "k < 128" for k
    using that by (simp add: bit_of_nat_iff bit_nat_def)
  have b: "bit (of_nat m :: byte) i \<or> (et = Snapshot \<and> i = 7) \<longleftrightarrow> bit (of_nat n :: byte) i \<or> (et' = Snapshot \<and> i = 7)" for i
    using arg_cong [OF assms(3), of "\<lambda>w. bit w i"] by (simp add: bit_or_iff bit_snapshot_bit)
  show "et = Snapshot \<longleftrightarrow> et' = Snapshot" using b [of 7] top assms(1,2) by simp
  have "(of_nat m :: byte) = of_nat n"
  proof (rule bit_eqI)
    fix i
    show "bit (of_nat m :: byte) i = bit (of_nat n :: byte) i" using b [of i] top assms(1,2) by (cases "i = 7") auto
  qed
  then have "unat (of_nat m :: byte) = unat (of_nat n :: byte)" by simp
  then show "m = n" using unat_of_nat_byte [of m] unat_of_nat_byte [of n] assms(1,2) by simp
qed

section \<open>Properties\<close>

text \<open>
  C35. The cached lookup of secrets is as good as a search. A node that uses the secrets in the order of the
  versions, with rekeys for later versions, rollbacks that keep the first secret, historical lookups and
  restored secrets in between, gets in every call the secret with the highest version up to the one it asks
  for.
\<close>

theorem secrets_in_order:
  assumes "sorted_wrt (<) (map fst (secrets_map ls))" "last_used_secret_it ls = None"
    "in_order es (initial_latest_ledger_secret_version ls) first (secrets_map ls)"
  shows "secrets_run es ls = spec_run es (initial_latest_ledger_secret_version ls) (secrets_map ls)"
  by (rule run_matches_spec [OF _ assms(3)]) (use assms(1,2) in \<open>simp add: tracks_def\<close>)

definition sample_secret :: "nat \<Rightarrow> ledger_secret" where
  "sample_secret n = \<lparr>raw_key = [of_nat n], previous_secret_stored_version = None\<rparr>"

definition sample_events :: "secret_event list" where
  "sample_events =
     [Use 1, Use 2, Rekey 4 (sample_secret 4), Use 3, Use 4, UseHistorical 2, Rekey 6 (sample_secret 6), Use 5, Use 6, Undo 3,
      Use 4, Rekey 5 (sample_secret 5), Use 5]"

theorem secrets_in_order_witness:
  "secrets_run sample_events (secrets_init no_secrets 1 [1]) =
     [Some (sample_secret 1), Some (sample_secret 1), Some (sample_secret 1), Some (sample_secret 4), Some (sample_secret 1),
      Some (sample_secret 4), Some (sample_secret 6), Some (sample_secret 1), Some (sample_secret 5)]"
proof -
  have "sorted_wrt (<) (map fst (secrets_map (secrets_init no_secrets 1 [1])))" "last_used_secret_it (secrets_init no_secrets 1 [1]) = None"
    "in_order sample_events (initial_latest_ledger_secret_version (secrets_init no_secrets 1 [1])) 0 (secrets_map (secrets_init no_secrets 1 [1]))"
    "spec_run sample_events (initial_latest_ledger_secret_version (secrets_init no_secrets 1 [1])) (secrets_map (secrets_init no_secrets 1 [1])) =
     [Some (sample_secret 1), Some (sample_secret 1), Some (sample_secret 1), Some (sample_secret 4), Some (sample_secret 1),
      Some (sample_secret 4), Some (sample_secret 6), Some (sample_secret 1), Some (sample_secret 5)]"
    by (simp_all add: sample_events_def secrets_init_def no_secrets_def sample_secret_def secret_for_def)
  then show ?thesis by (simp only: secrets_in_order)
qed

text \<open>Out of order, the cached iterator answers with a secret for later versions.\<close>

lemma late_use_gets_newer_secret:
  "secrets_run [Use 1, Rekey 3 (sample_secret 3), Use 3, Use 2] (secrets_init no_secrets 1 [1]) =
     [Some (sample_secret 1), Some (sample_secret 3), Some (sample_secret 3)]"
  by (simp add: secrets_init_def no_secrets_def sample_secret_def get_secret_for_version_def set_secret_def next_secret_def
      upper_bound_def)

text \<open>
  C34. A nonce is not used twice. If the nonce of two encryptions is the same, they are of the same transaction, and
  either both or none are of a snapshot.
\<close>

theorem iv_unique:
  assumes "set_iv tx et = Inr h" "set_iv tx' et' = Inr h'" "gh_iv h = gh_iv h'"
    "tx_seqno tx < two64" "tx_seqno tx' < two64"
  shows "tx = tx' \<and> (et = Snapshot \<longleftrightarrow> et' = Snapshot)"
proof -
  let ?v = "tx_view tx" and ?v' = "tx_view tx'"
  have v: "?v < 2 ^ 31" "?v' < 2 ^ 31" by (rule set_iv_bytes(2) [OF assms(1)], rule set_iv_bytes(2) [OF assms(2)])
  have e: "le_bytes 8 (tx_seqno tx) = le_bytes 8 (tx_seqno tx')"
    "butlast (le_bytes 4 ?v) @ [or (last (le_bytes 4 ?v)) (snapshot_bit et)] = butlast (le_bytes 4 ?v') @ [or (last (le_bytes 4 ?v')) (snapshot_bit et')]"
    using assms(3) unfolding set_iv_bytes(1) [OF assms(1)] set_iv_bytes(1) [OF assms(2)] by simp_all
  have s: "tx_seqno tx = tx_seqno tx'" using arg_cong [OF e(1), of le_value] assms(4,5) by (simp add: le_value_le_bytes two64_def)
  have inj: "m mod 256 = n mod 256" if "(of_nat (m mod 256) :: byte) = of_nat (n mod 256)" for m n
    using arg_cong [OF that, of unat] unat_of_nat_byte [of "m mod 256"] unat_of_nat_byte [of "n mod 256"] by simp
  have d: "?v div 256 div 256 div 256 mod 256 < 128" "?v' div 256 div 256 div 256 mod 256 < 128"
    using v by (simp_all add: div_mult2_eq [symmetric])
  have "?v mod 256 = ?v' mod 256" "?v div 256 mod 256 = ?v' div 256 mod 256" "?v div 256 div 256 mod 256 = ?v' div 256 div 256 mod 256"
    using e(2) by (auto simp: le_bytes_4 intro!: inj)
  moreover have "?v div 256 div 256 div 256 mod 256 = ?v' div 256 div 256 div 256 mod 256" "et = Snapshot \<longleftrightarrow> et' = Snapshot"
    using e(2) highest_byte_unique [OF d, of et et'] by (simp_all add: le_bytes_4)
  moreover from calculation have "le_value (le_bytes 4 ?v) = le_value (le_bytes 4 ?v')" by (simp add: le_bytes_4)
  then have "?v = ?v'" using v by (simp add: le_value_le_bytes)
  ultimately show ?thesis using s by (cases tx; cases tx') simp
qed

definition sample_tx :: tx_id where
  "sample_tx = \<lparr>tx_view = 2, tx_seqno = 7\<rparr>"

theorem iv_unique_witness:
  "\<exists>h h'. set_iv sample_tx WriteSet = Inr h \<and> set_iv sample_tx WriteSetWithClaims = Inr h' \<and> gh_iv h = gh_iv h' \<and>
     (sample_tx = sample_tx \<and> (WriteSet = Snapshot \<longleftrightarrow> WriteSetWithClaims = Snapshot))"
proof -
  have "set_iv sample_tx WriteSetWithClaims = set_iv sample_tx WriteSet" by (simp add: set_iv_def split: sum.split)
  moreover obtain h where "set_iv sample_tx WriteSet = Inr h" by (auto simp: set_iv_def set_iv_term_def sample_tx_def)
  moreover have "tx_seqno sample_tx < two64" by (simp add: sample_tx_def two64_def)
  ultimately show ?thesis using iv_unique [of sample_tx WriteSet h sample_tx WriteSetWithClaims h] by auto
qed

end
