(* ===== verification/KV_Serialise.thy ===== *)
theory KV_Serialise
  imports KV_Map Ledger_Secrets
begin

text \<open>
  How a transaction becomes the bytes of a ledger entry and back: the raw writer and reader
  (\<^verbatim>\<open>src/kv/raw_serialise.h\<close>), the wrapper that separates the public from the encrypted private part
  (\<^verbatim>\<open>src/kv/generic_serialise_wrapper.h\<close>), and the change set of one map (\<^verbatim>\<open>src/kv/untyped_map.h\<close>).

  A reader has the memory from its first byte to the end of the buffer it points into, which may be shorter than
  the size it was given: reading past the memory is a \<open>Fault\<close>. An offset that would wrap around lies outside of
  the memory and faults. A destination that is too small for what is copied into it is a \<open>Fault\<close> as well.
\<close>

type_synonym key = bytes
type_synonym kv_writes = "(bytes, bytes) write_set"

section \<open>The raw writer\<close>

definition string_bytes :: "string \<Rightarrow> bytes" where
  "string_bytes s = map (\<lambda>c. of_nat (of_char c)) s"

definition bytes_string :: "bytes \<Rightarrow> string" where
  "bytes_string bs = map (\<lambda>b. char_of (unat b)) bs"

definition append_u64 :: "nat \<Rightarrow> bytes" where
  "append_u64 v = le_bytes 8 v"

definition append_bytes :: "bytes \<Rightarrow> bytes" where
  "append_bytes entry = le_bytes 8 (length entry) @ entry"

definition append_versions :: "nat list \<Rightarrow> bytes" where
  "append_versions vs = le_bytes 8 (8 * length vs) @ concat (map (le_bytes 8) vs)"

definition append_string :: "string \<Rightarrow> bytes" where
  "append_string s = le_bytes 8 (length s) @ string_bytes s"

fun entry_type_code :: "entry_type \<Rightarrow> nat" where
  "entry_type_code WriteSet = 0"
| "entry_type_code Snapshot = 1"
| "entry_type_code WriteSetWithClaims = 2"
| "entry_type_code WriteSetWithCommitEvidence = 3"
| "entry_type_code WriteSetWithCommitEvidenceAndClaims = 4"

definition append_entry_type :: "entry_type \<Rightarrow> bytes" where
  "append_entry_type et = le_bytes 1 (entry_type_code et)"

definition has_claims :: "entry_type \<Rightarrow> bool" where
  "has_claims et \<longleftrightarrow> et = WriteSetWithClaims \<or> et = WriteSetWithCommitEvidenceAndClaims"

definition has_commit_evidence :: "entry_type \<Rightarrow> bool" where
  "has_commit_evidence et \<longleftrightarrow> et = WriteSetWithCommitEvidence \<or> et = WriteSetWithCommitEvidenceAndClaims"

section \<open>The serialising wrapper\<close>

text \<open>The encryptor as the wrapper calls it; \<open>Inr None\<close> is the result \<^verbatim>\<open>false\<close>.\<close>

record crypto_util =
  cu_header_length :: nat
  cu_encrypt :: "bytes \<Rightarrow> bytes \<Rightarrow> tx_id \<Rightarrow> entry_type \<Rightarrow> bool \<Rightarrow> kv_error + (bytes \<times> bytes) option"
  cu_decrypt :: "bytes \<Rightarrow> bytes \<Rightarrow> bytes \<Rightarrow> nat \<Rightarrow> bool \<Rightarrow> kv_error + (bytes \<times> nat) option"
  cu_get_term :: "bytes \<Rightarrow> kv_error + nat"

definition node_encryptor :: "aes_gcm \<times> ledger_secrets \<Rightarrow> crypto_util" where
  "node_encryptor e =
     \<lparr>cu_header_length = gcm_header_size,
      cu_encrypt = (\<lambda>plain aad tx et hint. snd (tx_encrypt (fst e) (snd e) plain aad tx et hint)),
      cu_decrypt = (\<lambda>cipher aad hdr v hint. snd (tx_decrypt (fst e) (snd e) cipher aad hdr v hint)),
      cu_get_term = tx_get_term\<rparr>"

record ser_wrapper =
  sw_public :: bytes
  sw_private :: bytes
  sw_domain :: security_domain
  sw_tx_id :: tx_id
  sw_entry_type :: entry_type
  sw_flags :: nat
  sw_crypto :: "crypto_util option"
  sw_historical_hint :: bool

definition sw_append :: "ser_wrapper \<Rightarrow> bytes \<Rightarrow> ser_wrapper" where
  "sw_append s bs =
     (case sw_domain s of
        PUBLIC \<Rightarrow> s\<lparr>sw_public := sw_public s @ bs\<rparr>
      | PRIVATE \<Rightarrow> s\<lparr>sw_private := sw_private s @ bs\<rparr>)"

definition new_ser_wrapper ::
  "crypto_util option \<Rightarrow> tx_id \<Rightarrow> entry_type \<Rightarrow> nat \<Rightarrow> bytes \<Rightarrow> bytes \<Rightarrow> bool \<Rightarrow> ser_wrapper"
where
  "new_ser_wrapper e tx et flags commit_evidence_digest claims_digest historical_hint =
     sw_append
       \<lparr>sw_public = [], sw_private = [], sw_domain = PUBLIC, sw_tx_id = tx, sw_entry_type = et, sw_flags = flags,
        sw_crypto = e, sw_historical_hint = historical_hint\<rparr>
       (append_entry_type et @ append_u64 (tx_seqno tx) @ (if has_claims et then claims_digest else []) @
        (if has_commit_evidence et then commit_evidence_digest else []) @ append_u64 0)"

definition sw_start_map :: "ser_wrapper \<Rightarrow> string \<Rightarrow> security_domain \<Rightarrow> kv_error + ser_wrapper" where
  "sw_start_map s nm domain =
     (if domain = PRIVATE \<and> sw_crypto s = None then Inl SerialiserError
      else Inr (sw_append (s\<lparr>sw_domain := domain\<rparr>) (append_string nm)))"

definition entry_format_v1 :: nat where
  "entry_format_v1 = 1"

definition serialise_domains :: "ser_wrapper \<Rightarrow> kv_error + bytes" where
  "serialise_domains s =
     (case sw_crypto s of
        None \<Rightarrow>
          Inr (encode_entry_header \<lparr>eh_version = entry_format_v1, eh_flags = sw_flags s, eh_size = length (sw_public s)\<rparr> @
               sw_public s)
      | Some e \<Rightarrow>
          (let size = length (sw_public s) + (cu_header_length e + 8 + length (sw_private s))
           in case cu_encrypt e (sw_private s) (sw_public s) (sw_tx_id s) (sw_entry_type s) (sw_historical_hint s) of
                Inl err \<Rightarrow> Inl err
              | Inr None \<Rightarrow> Inl SerialiserError
              | Inr (Some (hdr, cipher)) \<Rightarrow>
                  (let body = hdr @ le_bytes 8 (length (sw_public s)) @ sw_public s @ cipher
                   in if size < length body then Inl SpaceError
                      else Inr (encode_entry_header \<lparr>eh_version = entry_format_v1, eh_flags = sw_flags s, eh_size = size\<rparr> @
                                body @ replicate (size - length body) 0))))"

definition sw_get_raw_data :: "ser_wrapper \<Rightarrow> kv_error + bytes" where
  "sw_get_raw_data s = serialise_domains s"

section \<open>The raw reader\<close>

record raw_reader =
  rr_data :: bytes
  rr_offset :: nat
  rr_size :: nat

definition rr_init :: "bytes \<Rightarrow> nat \<Rightarrow> raw_reader" where
  "rr_init data n = \<lparr>rr_data = data, rr_offset = 0, rr_size = n\<rparr>"

definition rr_memory :: "raw_reader \<Rightarrow> nat \<Rightarrow> nat \<Rightarrow> bytes option" where
  "rr_memory r start n = (if start + n \<le> length (rr_data r) then Some (take n (drop start (rr_data r))) else None)"

definition read_entry :: "nat \<Rightarrow> raw_reader \<Rightarrow> kv_error + nat \<times> raw_reader" where
  "read_entry n r =
     (if sub64 (rr_size r) (rr_offset r) < n then Inl SpaceError
      else case rr_memory r (rr_offset r) n of
          None \<Rightarrow> Inl Fault
        | Some bs \<Rightarrow> Inr (le_value bs, r\<lparr>rr_offset := rr_offset r + n\<rparr>))"

definition read_size_prefixed_entry :: "raw_reader \<Rightarrow> kv_error + (nat \<times> nat) \<times> raw_reader" where
  "read_size_prefixed_entry r =
     (let remainder = sub64 (rr_size r) (rr_offset r)
      in case read_entry 8 r of
           Inl e \<Rightarrow> Inl e
         | Inr (entry_size, r) \<Rightarrow>
             if remainder < entry_size then Inl RuntimeError
             else Inr ((entry_size, rr_offset r), r\<lparr>rr_offset := rr_offset r + entry_size\<rparr>))"

text \<open>\<open>width\<close> is the size of an element of the vector, which has room for whole elements only.\<close>

definition read_vector :: "nat \<Rightarrow> raw_reader \<Rightarrow> kv_error + bytes \<times> raw_reader" where
  "read_vector width r =
     (case read_size_prefixed_entry r of
        Inl e \<Rightarrow> Inl e
      | Inr ((entry_size, start), r) \<Rightarrow>
          if entry_size div width * width < entry_size then Inl Fault
          else case rr_memory r start entry_size of None \<Rightarrow> Inl Fault | Some bs \<Rightarrow> Inr (bs, r))"

definition read_array :: "nat \<Rightarrow> raw_reader \<Rightarrow> kv_error + bytes \<times> raw_reader" where
  "read_array n r =
     (case rr_memory r (rr_offset r) n of
        None \<Rightarrow> Inl Fault
      | Some bs \<Rightarrow> Inr (bs, r\<lparr>rr_offset := rr_offset r + n\<rparr>))"

fun entry_type_of :: "nat \<Rightarrow> entry_type" where
  "entry_type_of n =
     (if n = 0 then WriteSet else if n = 1 then Snapshot else if n = 2 then WriteSetWithClaims
      else if n = 3 then WriteSetWithCommitEvidence else WriteSetWithCommitEvidenceAndClaims)"

definition read_entry_type :: "raw_reader \<Rightarrow> kv_error + entry_type \<times> raw_reader" where
  "read_entry_type r =
     (case read_entry 1 r of
        Inl e \<Rightarrow> Inl e
      | Inr (n, r) \<Rightarrow>
          if entry_type_code WriteSetWithCommitEvidenceAndClaims < n then Inl LogicError else Inr (entry_type_of n, r))"

definition read_string :: "raw_reader \<Rightarrow> kv_error + string \<times> raw_reader" where
  "read_string r =
     (case read_size_prefixed_entry r of
        Inl e \<Rightarrow> Inl e
      | Inr ((entry_size, start), r) \<Rightarrow>
          (case rr_memory r start entry_size of None \<Rightarrow> Inl Fault | Some bs \<Rightarrow> Inr (bytes_string bs, r)))"

definition is_eos :: "raw_reader \<Rightarrow> bool" where
  "is_eos r \<longleftrightarrow> rr_size r \<le> rr_offset r"

section \<open>The deserialising wrapper\<close>

text \<open>Sequencing of operations that may throw.\<close>

definition bind_kv :: "kv_error + 'a \<times> 's \<Rightarrow> ('a \<Rightarrow> 's \<Rightarrow> kv_error + 'b) \<Rightarrow> kv_error + 'b" where
  "bind_kv m f = (case m of Inl e \<Rightarrow> Inl e | Inr (x, s) \<Rightarrow> f x s)"

lemma bind_kv_simps [simp]: "bind_kv (Inl e) f = Inl e" "bind_kv (Inr (x, s)) f = f x s"
  by (simp_all add: bind_kv_def)

lemma bind_kv_cong [fundef_cong]:
  "m = m' \<Longrightarrow> (\<And>x s. m' = Inr (x, s) \<Longrightarrow> f x s = f' x s) \<Longrightarrow> bind_kv m f = bind_kv m' f'"
  by (auto simp: bind_kv_def split: sum.split)

lemma bind_kv_Inr: "bind_kv m f = Inr y \<longleftrightarrow> (\<exists>x s. m = Inr (x, s) \<and> f x s = Inr y)"
  by (auto simp: bind_kv_def split: sum.splits)

record deserialiser =
  ds_public :: raw_reader
  ds_private :: raw_reader
  ds_on_private :: bool
  ds_entry_type :: entry_type
  ds_claims_digest :: "bytes option"
  ds_commit_evidence_digest :: "bytes option"
  ds_version :: nat
  ds_crypto :: "crypto_util option"
  ds_domain_restriction :: "security_domain option"

definition new_deserialiser :: "crypto_util option \<Rightarrow> security_domain option \<Rightarrow> deserialiser" where
  "new_deserialiser e restriction =
     \<lparr>ds_public = rr_init [] 0, ds_private = rr_init [] 0, ds_on_private = False, ds_entry_type = WriteSet,
      ds_claims_digest = None, ds_commit_evidence_digest = None, ds_version = 0, ds_crypto = e,
      ds_domain_restriction = restriction\<rparr>"

lemma new_deserialiser_simps [simp]:
  "ds_crypto (new_deserialiser e restriction) = e" "ds_domain_restriction (new_deserialiser e restriction) = restriction"
  by (simp_all add: new_deserialiser_def)

definition sha256_size :: nat where
  "sha256_size = 32"

definition read_digest :: "bool \<Rightarrow> raw_reader \<Rightarrow> kv_error + bytes option \<times> raw_reader" where
  "read_digest present r = (if present then bind_kv (read_array sha256_size r) (\<lambda>d r. Inr (Some d, r)) else Inr (None, r))"

definition read_public_header :: "deserialiser \<Rightarrow> kv_error + deserialiser" where
  "read_public_header d =
     bind_kv (read_entry_type (ds_public d)) (\<lambda>et r.
     bind_kv (read_entry 8 r) (\<lambda>v r.
     bind_kv (read_digest (has_claims et) r) (\<lambda>claims r.
     bind_kv (read_digest (has_commit_evidence et) r) (\<lambda>evidence r.
     bind_kv (read_entry 8 r) (\<lambda>_ r.
       Inr (d\<lparr>ds_public := r, ds_entry_type := et, ds_version := v,
              ds_claims_digest := (if has_claims et then claims else ds_claims_digest d),
              ds_commit_evidence_digest := (if has_commit_evidence et then evidence else ds_commit_evidence_digest d)\<rparr>))))))"

text \<open>
  The result is \<^verbatim>\<open>std::nullopt\<close> if decryption fails, else the version, with the term (unless there is no
  encryptor), the flags and the deserialiser.
\<close>

definition ds_init ::
  "deserialiser \<Rightarrow> bytes \<Rightarrow> bool \<Rightarrow> kv_error + (nat \<times> nat option \<times> nat) option \<times> deserialiser"
where
  "ds_init d data historical_hint =
     (if length data < serialised_entry_header_size then Inl SpaceError
      else
        let tx_header = decode_entry_header data;
            data = drop serialised_entry_header_size data;
            flags = eh_flags tx_header;
            d = d\<lparr>ds_on_private := False\<rparr>
        in if eh_size tx_header \<noteq> length data then Inl LogicError
           else if eh_version tx_header \<noteq> entry_format_v1 then Inl LogicError
           else case ds_crypto d of
               None \<Rightarrow>
                 (case read_public_header (d\<lparr>ds_public := rr_init data (length data)\<rparr>) of
                    Inl e \<Rightarrow> Inl e
                  | Inr d \<Rightarrow> Inr (Some (ds_version d, None, flags), d))
             | Some e \<Rightarrow>
                 let gcm_hdr = take (cu_header_length e) data
                 in case of_ser (ser_skip (cu_header_length e) data) of
                      Inl err \<Rightarrow> Inl err
                    | Inr data \<Rightarrow>
                   (case of_ser (ser_read 8 data) of
                      Inl err \<Rightarrow> Inl err
                    | Inr (public_domain_length, data) \<Rightarrow>
                   (case read_public_header (d\<lparr>ds_public := rr_init data public_domain_length\<rparr>) of
                      Inl err \<Rightarrow> Inl err
                    | Inr d \<Rightarrow>
                        if ds_domain_restriction d = Some PUBLIC then
                          (case cu_get_term e gcm_hdr of
                             Inl err \<Rightarrow> Inl err
                           | Inr term \<Rightarrow> Inr (Some (ds_version d, Some term, flags), d))
                        else
                          (case of_ser (ser_skip public_domain_length data) of
                             Inl err \<Rightarrow> Inl err
                           | Inr cipher \<Rightarrow>
                               (case cu_decrypt e cipher (take public_domain_length data) gcm_hdr (ds_version d) historical_hint of
                                  Inl err \<Rightarrow> Inl err
                                | Inr None \<Rightarrow> Inr (None, d)
                                | Inr (Some (plain, term)) \<Rightarrow>
                                    Inr (Some (ds_version d, Some term, flags),
                                         d\<lparr>ds_private := rr_init plain (length plain)\<rparr>))))))"

definition ds_reader :: "deserialiser \<Rightarrow> raw_reader" where
  "ds_reader d = (if ds_on_private d then ds_private d else ds_public d)"

definition ds_set_reader :: "deserialiser \<Rightarrow> raw_reader \<Rightarrow> deserialiser" where
  "ds_set_reader d r = (if ds_on_private d then d\<lparr>ds_private := r\<rparr> else d\<lparr>ds_public := r\<rparr>)"

definition ds_read :: "(raw_reader \<Rightarrow> kv_error + 'a \<times> raw_reader) \<Rightarrow> deserialiser \<Rightarrow> kv_error + 'a \<times> deserialiser" where
  "ds_read f d = bind_kv (f (ds_reader d)) (\<lambda>x r. Inr (x, ds_set_reader d r))"

definition ds_start_map :: "deserialiser \<Rightarrow> kv_error + string option \<times> deserialiser" where
  "ds_start_map d =
     (if is_eos (ds_reader d) then
        (if \<not> ds_on_private d \<and> \<not> is_eos (ds_private d)
         then bind_kv (ds_read read_string (d\<lparr>ds_on_private := True\<rparr>)) (\<lambda>s d. Inr (Some s, d))
         else Inr (None, d))
      else bind_kv (ds_read read_string d) (\<lambda>s d. Inr (Some s, d)))"

definition ds_entry_version :: "deserialiser \<Rightarrow> kv_error + nat \<times> deserialiser" where
  "ds_entry_version = ds_read (read_entry 8)"

definition ds_count_header :: "deserialiser \<Rightarrow> kv_error + nat \<times> deserialiser" where
  "ds_count_header = ds_read (read_entry 8)"

definition ds_read_dependency :: "deserialiser \<Rightarrow> kv_error + (bytes \<times> nat) \<times> deserialiser" where
  "ds_read_dependency d =
     bind_kv (ds_read (read_vector 1) d) (\<lambda>k d. bind_kv (ds_read (read_entry 8) d) (\<lambda>v d. Inr ((k, v), d)))"

definition ds_write :: "deserialiser \<Rightarrow> kv_error + (bytes \<times> bytes) \<times> deserialiser" where
  "ds_write d =
     bind_kv (ds_read (read_vector 1) d) (\<lambda>k d. bind_kv (ds_read (read_vector 1) d) (\<lambda>v d. Inr ((k, v), d)))"

definition ds_remove :: "deserialiser \<Rightarrow> kv_error + bytes \<times> deserialiser" where
  "ds_remove = ds_read (read_vector 1)"

definition ds_raw :: "deserialiser \<Rightarrow> kv_error + bytes \<times> deserialiser" where
  "ds_raw = ds_read (read_vector 1)"

fun le_words :: "bytes \<Rightarrow> nat list" where
  "le_words bs = (if length bs < 8 then [] else le_value (take 8 bs) # le_words (drop 8 bs))"

definition ds_view_history :: "deserialiser \<Rightarrow> kv_error + nat list \<times> deserialiser" where
  "ds_view_history d = bind_kv (ds_read (read_vector 8) d) (\<lambda>bs d. Inr (le_words bs, d))"

definition ds_end :: "deserialiser \<Rightarrow> bool" where
  "ds_end d \<longleftrightarrow> is_eos (ds_reader d) \<and> is_eos (ds_public d)"

section \<open>Change sets\<close>

definition serialise_changes ::
  "string \<Rightarrow> security_domain \<Rightarrow> ('s, bytes, bytes) change_set \<Rightarrow> ser_wrapper \<Rightarrow> bool \<Rightarrow> kv_error + ser_wrapper"
where
  "serialise_changes nm domain cs s include_reads =
     (case sw_start_map s nm domain of
        Inl e \<Rightarrow> Inl e
      | Inr s \<Rightarrow>
          let s = (if include_reads
                   then sw_append s (append_u64 (ch_read_version cs) @ append_u64 (length (ch_reads cs)) @
                          concat (map (\<lambda>(k, v, _). append_bytes k @ append_u64 v) (ch_reads cs)))
                   else sw_append s (append_u64 NoVersion @ append_u64 0));
              puts = [(k, the ov). (k, ov) \<leftarrow> ch_writes cs, ov \<noteq> None];
              removes = [k. (k, ov) \<leftarrow> ch_writes cs, ov = None]
          in Inr (sw_append s
               (append_u64 (length puts) @ concat (map (\<lambda>(k, v). append_bytes k @ append_bytes v) puts) @
                append_u64 (length removes) @ concat (map append_bytes removes))))"

primrec read_times ::
  "nat \<Rightarrow> (deserialiser \<Rightarrow> kv_error + 'x \<times> deserialiser) \<Rightarrow> ('x \<Rightarrow> 'a \<Rightarrow> 'a) \<Rightarrow> 'a \<Rightarrow> deserialiser \<Rightarrow> kv_error + 'a \<times> deserialiser"
where
  "read_times 0 rd f a d = Inr (a, d)"
| "read_times (Suc n) rd f a d = bind_kv (rd d) (\<lambda>x d. read_times n rd f (f x a) d)"

definition deserialise_internal ::
  "('s, bytes, bytes, 'h) kv_map \<Rightarrow> nat \<Rightarrow> deserialiser \<Rightarrow> kv_error + ('s, bytes, bytes) change_set \<times> deserialiser"
where
  "deserialise_internal m version d =
     (case create_change_set m version False of
        None \<Rightarrow> Inl LogicError
      | Some cs \<Rightarrow>
          bind_kv (ds_entry_version d) (\<lambda>rv d.
          let cs = (if rv \<noteq> NoVersion then cs\<lparr>ch_read_version := rv\<rparr> else cs) in
          bind_kv (ds_count_header d) (\<lambda>n d.
          bind_kv (read_times n ds_read_dependency (\<lambda>(k, v) cs. cs\<lparr>ch_reads := omap_set k (v, NoVersion) (ch_reads cs)\<rparr>) cs d) (\<lambda>cs d.
          bind_kv (ds_count_header d) (\<lambda>n d.
          bind_kv (read_times n ds_write (\<lambda>(k, v) cs. cs\<lparr>ch_writes := omap_set k (Some v) (ch_writes cs)\<rparr>) cs d) (\<lambda>cs d.
          bind_kv (ds_count_header d) (\<lambda>n d.
          read_times n ds_remove (\<lambda>k cs. cs\<lparr>ch_writes := omap_set k None (ch_writes cs)\<rparr>) cs d)))))))"

text \<open>The changes of a transaction, one map after the other, those of the public domain first.\<close>

fun serialise_all ::
  "(string \<times> security_domain \<times> ('s, bytes, bytes) change_set) list \<Rightarrow> ser_wrapper \<Rightarrow> kv_error + ser_wrapper"
where
  "serialise_all [] s = Inr s"
| "serialise_all ((nm, domain, cs) # ms) s =
     (case serialise_changes nm domain cs s False of Inl e \<Rightarrow> Inl e | Inr s \<Rightarrow> serialise_all ms s)"

definition in_domain_order ::
  "(string \<times> security_domain \<times> ('s, 'k, 'v) change_set) list \<Rightarrow> (string \<times> security_domain \<times> ('s, 'k, 'v) change_set) list"
where
  "in_domain_order changes =
     concat (map (\<lambda>domain. filter (\<lambda>(nm, d, cs). d = domain \<and> has_writes cs) changes) [PUBLIC, PRIVATE])"

section \<open>Reading what was written\<close>

text \<open>A reader that stands before \<open>bs\<close>, with \<open>n\<close> bytes of its size left.\<close>

definition stands_at :: "raw_reader \<Rightarrow> bytes \<Rightarrow> nat \<Rightarrow> bool" where
  "stands_at r bs n \<longleftrightarrow> rr_offset r \<le> length (rr_data r) \<and> drop (rr_offset r) (rr_data r) = bs \<and>
     rr_size r = rr_offset r + n \<and> n \<le> length bs \<and> rr_size r < two64"

lemma stands_at_init: "n \<le> length bs \<Longrightarrow> n < two64 \<Longrightarrow> stands_at (rr_init bs n) bs n"
  by (simp add: stands_at_def rr_init_def)

lemma stands_at_remainder: "stands_at r bs n \<Longrightarrow> sub64 (rr_size r) (rr_offset r) = n"
  by (simp add: stands_at_def sub64_def)

lemma stands_at_memory: "stands_at r (xs @ bs) n \<Longrightarrow> rr_memory r (rr_offset r) (length xs) = Some xs"
  by (auto simp: stands_at_def rr_memory_def dest: arg_cong [where f = length])

lemma stands_at_advance:
  assumes "stands_at r (xs @ bs) n" "length xs \<le> n"
  shows "stands_at (r\<lparr>rr_offset := rr_offset r + length xs\<rparr>) bs (n - length xs)"
proof -
  have "drop (length xs) (drop (rr_offset r) (rr_data r)) = bs"
    using assms(1) by (simp add: stands_at_def del: drop_drop)
  then have "drop (rr_offset r + length xs) (rr_data r) = bs" by (simp add: add.commute)
  moreover have "length (rr_data r) - rr_offset r = length xs + length bs"
    using assms(1) by (auto simp: stands_at_def dest: arg_cong [where f = length])
  moreover have "rr_offset r \<le> length (rr_data r)" "rr_size r = rr_offset r + n" "n \<le> length xs + length bs" "rr_size r < two64"
    using assms(1) by (simp_all add: stands_at_def)
  moreover from calculation have "rr_offset r + length xs \<le> length (rr_data r)" "n - length xs \<le> length bs" by linarith+
  ultimately show ?thesis using assms(2) by (simp add: stands_at_def)
qed

lemma read_entry_written:
  assumes "stands_at r (le_bytes k v @ bs) n" "k \<le> n" "v < 256 ^ k"
  shows "\<exists>r'. read_entry k r = Inr (v, r') \<and> stands_at r' bs (n - k)"
  using assms stands_at_memory [OF assms(1)] stands_at_advance [OF assms(1)]
  by (simp add: read_entry_def stands_at_remainder [OF assms(1)] le_value_le_bytes)

lemma read_u64_written:
  assumes "stands_at r (append_u64 v @ bs) n" "8 \<le> n" "v < two64"
  shows "\<exists>r'. read_entry 8 r = Inr (v, r') \<and> stands_at r' bs (n - 8)"
  using read_entry_written [of r 8 v bs n] assms by (simp add: append_u64_def two64_def)

lemma read_prefixed_written:
  assumes "stands_at r (le_bytes 8 (length xs) @ xs @ bs) n" "8 + length xs \<le> n"
  shows "\<exists>r' start. read_size_prefixed_entry r = Inr ((length xs, start), r') \<and>
    rr_memory r' start (length xs) = Some xs \<and> stands_at r' bs (n - 8 - length xs)"
proof -
  have "n < two64" using assms(1) by (auto simp: stands_at_def)
  then have "length xs < 256 ^ 8" using assms(2) by (simp add: two64_def)
  from read_entry_written [OF assms(1) _ this] obtain r1 where
    r1: "read_entry 8 r = Inr (length xs, r1)" "stands_at r1 (xs @ bs) (n - 8)" using assms(2) by auto
  have "rr_memory (r1\<lparr>rr_offset := rr_offset r1 + length xs\<rparr>) (rr_offset r1) (length xs) = Some xs"
    using stands_at_memory [OF r1(2)] by (simp add: rr_memory_def split: if_splits)
  moreover have "stands_at (r1\<lparr>rr_offset := rr_offset r1 + length xs\<rparr>) bs (n - 8 - length xs)"
    by (rule stands_at_advance [OF r1(2)]) (use assms(2) in simp)
  ultimately show ?thesis
    using assms(2) r1(1) by (simp add: read_size_prefixed_entry_def stands_at_remainder [OF assms(1)])
qed

lemma read_bytes_written:
  assumes "stands_at r (append_bytes xs @ bs) n" "8 + length xs \<le> n"
  shows "\<exists>r'. read_vector 1 r = Inr (xs, r') \<and> stands_at r' bs (n - 8 - length xs)"
  using read_prefixed_written [of r xs bs n] assms by (clarsimp simp: append_bytes_def read_vector_def)

lemma bytes_string_bytes [simp]: "bytes_string (string_bytes s) = s"
  by (simp add: bytes_string_def string_bytes_def comp_def unat_of_nat_byte nat_of_char_less_256)

lemma read_string_written:
  assumes "stands_at r (append_string s @ bs) n" "8 + length s \<le> n"
  shows "\<exists>r'. read_string r = Inr (s, r') \<and> stands_at r' bs (n - 8 - length s)"
proof -
  have "length (string_bytes s) = length s" by (simp add: string_bytes_def)
  then show ?thesis
    using read_prefixed_written [of r "string_bytes s" bs n] assms by (auto simp: append_string_def read_string_def)
qed

text \<open>
  \<open>reads f xs x\<close>: in front of \<open>xs\<close> the operation \<open>f\<close> returns \<open>x\<close> and leaves the current reader behind \<open>xs\<close>. Such
  operations compose.
\<close>

definition reads :: "(deserialiser \<Rightarrow> kv_error + 'a \<times> deserialiser) \<Rightarrow> bytes \<Rightarrow> 'a \<Rightarrow> bool" where
  "reads f xs x \<longleftrightarrow>
     (\<forall>d bs m. stands_at (ds_reader d) (xs @ bs) (length xs + m) \<longrightarrow>
        (\<exists>r. f d = Inr (x, ds_set_reader d r) \<and> stands_at r bs m))"

lemma ds_reader_set [simp]: "ds_reader (ds_set_reader d r) = r"
  by (simp add: ds_reader_def ds_set_reader_def)

lemma ds_set_reader_twice [simp]: "ds_set_reader (ds_set_reader d r) r' = ds_set_reader d r'"
  by (simp add: ds_set_reader_def)

lemma ds_set_reader_same [simp]: "ds_set_reader d (ds_reader d) = d"
  by (simp add: ds_reader_def ds_set_reader_def)

lemma reads_return: "reads (\<lambda>d. Inr (x, d)) [] x"
  unfolding reads_def by (metis append_Nil ds_set_reader_same list.size(3) add_0)

lemma reads_bind:
  assumes "reads f xs x" "reads (g x) ys y"
  shows "reads (\<lambda>d. bind_kv (f d) g) (xs @ ys) y"
  unfolding reads_def
proof (intro allI impI)
  fix d bs m
  assume "stands_at (ds_reader d) ((xs @ ys) @ bs) (length (xs @ ys) + m)"
  then have "stands_at (ds_reader d) (xs @ (ys @ bs)) (length xs + (length ys + m))" by (simp add: add.assoc)
  then obtain r where r: "f d = Inr (x, ds_set_reader d r)" "stands_at r (ys @ bs) (length ys + m)"
    using assms(1) unfolding reads_def by blast
  then have "stands_at (ds_reader (ds_set_reader d r)) (ys @ bs) (length ys + m)" by simp
  then obtain r' where "g x (ds_set_reader d r) = Inr (y, ds_set_reader (ds_set_reader d r) r')" "stands_at r' bs m"
    using assms(2) unfolding reads_def by blast
  then show "\<exists>r. bind_kv (f d) g = Inr (y, ds_set_reader d r) \<and> stands_at r bs m" using r(1) by auto
qed

definition raw_reads :: "(raw_reader \<Rightarrow> kv_error + 'a \<times> raw_reader) \<Rightarrow> bytes \<Rightarrow> 'a \<Rightarrow> bool" where
  "raw_reads f xs x \<longleftrightarrow>
     (\<forall>r bs m. stands_at r (xs @ bs) (length xs + m) \<longrightarrow> (\<exists>r'. f r = Inr (x, r') \<and> stands_at r' bs m))"

lemma raw_reads_bind:
  assumes "raw_reads f xs x" "raw_reads (g x) ys y"
  shows "raw_reads (\<lambda>r. bind_kv (f r) g) (xs @ ys) y"
  unfolding raw_reads_def
proof (intro allI impI)
  fix r bs m
  assume "stands_at r ((xs @ ys) @ bs) (length (xs @ ys) + m)"
  then have "stands_at r (xs @ (ys @ bs)) (length xs + (length ys + m))" by (simp add: add.assoc)
  then obtain r1 where r1: "f r = Inr (x, r1)" "stands_at r1 (ys @ bs) (length ys + m)"
    using assms(1) unfolding raw_reads_def by blast
  then obtain r2 where "g x r1 = Inr (y, r2)" "stands_at r2 bs m"
    using assms(2) unfolding raw_reads_def by blast
  then show "\<exists>r'. bind_kv (f r) g = Inr (y, r') \<and> stands_at r' bs m" using r1(1) by auto
qed

lemma raw_reads_return: "raw_reads (\<lambda>r. Inr (x, r)) [] x"
  by (simp add: raw_reads_def)

lemma reads_ds_read: "raw_reads f xs x \<Longrightarrow> reads (ds_read f) xs x"
  unfolding raw_reads_def reads_def ds_read_def by fastforce

lemma raw_reads_u64: "v < two64 \<Longrightarrow> raw_reads (read_entry 8) (append_u64 v) v"
  unfolding raw_reads_def
proof (intro allI impI)
  fix r bs m
  assume "v < two64" "stands_at r (append_u64 v @ bs) (length (append_u64 v) + m)"
  then show "\<exists>r'. read_entry 8 r = Inr (v, r') \<and> stands_at r' bs m"
    using read_u64_written [of r v bs "8 + m"] by (simp add: append_u64_def)
qed

lemma raw_reads_bytes: "raw_reads (read_vector 1) (append_bytes xs) xs"
  unfolding raw_reads_def
proof (intro allI impI)
  fix r bs m
  assume "stands_at r (append_bytes xs @ bs) (length (append_bytes xs) + m)"
  then show "\<exists>r'. read_vector 1 r = Inr (xs, r') \<and> stands_at r' bs m"
    using read_bytes_written [of r xs bs "8 + length xs + m"] by (simp add: append_bytes_def)
qed

lemma raw_reads_string: "raw_reads read_string (append_string s) s"
  unfolding raw_reads_def
proof (intro allI impI)
  fix r bs m
  assume "stands_at r (append_string s @ bs) (length (append_string s) + m)"
  then show "\<exists>r'. read_string r = Inr (s, r') \<and> stands_at r' bs m"
    using read_string_written [of r s bs "8 + length s + m"] by (simp add: append_string_def string_bytes_def)
qed

lemma raw_reads_entry_type: "raw_reads read_entry_type (append_entry_type et) et"
  unfolding raw_reads_def
proof (intro allI impI)
  fix r bs m
  assume a: "stands_at r (append_entry_type et @ bs) (length (append_entry_type et) + m)"
  have "entry_type_code et < 256 ^ 1" by (cases et) simp_all
  with a obtain r' where "read_entry 1 r = Inr (entry_type_code et, r')" "stands_at r' bs m"
    using read_entry_written [of r 1 "entry_type_code et" bs "1 + m"] by (auto simp: append_entry_type_def)
  moreover have "entry_type_of (entry_type_code et) = et" "\<not> entry_type_code WriteSetWithCommitEvidenceAndClaims < entry_type_code et"
    by (cases et; simp)+
  ultimately show "\<exists>r'. read_entry_type r = Inr (et, r') \<and> stands_at r' bs m" by (simp add: read_entry_type_def)
qed

lemma raw_reads_array: "raw_reads (read_array (length xs)) xs xs"
  unfolding raw_reads_def
proof (intro allI impI)
  fix r bs m
  assume "stands_at r (xs @ bs) (length xs + m)"
  then show "\<exists>r'. read_array (length xs) r = Inr (xs, r') \<and> stands_at r' bs m"
    using stands_at_memory [of r xs bs "length xs + m"] stands_at_advance [of r xs bs "length xs + m"]
    by (simp add: read_array_def)
qed

lemma raw_reads_digest:
  assumes "present \<Longrightarrow> length x = sha256_size"
  shows "raw_reads (read_digest present) (if present then x else []) (if present then Some x else None)"
proof (cases present)
  case True
  have "raw_reads (\<lambda>r. bind_kv (read_array sha256_size r) (\<lambda>d r. Inr (Some d, r))) (x @ []) (Some x)"
    using raw_reads_bind [OF raw_reads_array raw_reads_return, of x "\<lambda>d r. Inr (Some d, r)"] assms [OF True]
    by (metis raw_reads_array raw_reads_bind raw_reads_return)
  then show ?thesis using True by (simp add: raw_reads_def read_digest_def)
qed (simp add: raw_reads_def read_digest_def)

lemmas reads_u64 = reads_ds_read [OF raw_reads_u64]
lemmas reads_bytes = reads_ds_read [OF raw_reads_bytes]
lemmas reads_string = reads_ds_read [OF raw_reads_string]

lemma read_times_0: "read_times 0 rd f a = (\<lambda>d. Inr (a, d))"
  by (simp add: fun_eq_iff)

lemma reads_times:
  assumes "\<And>x. x \<in> set ys \<Longrightarrow> reads rd (enc x) x"
  shows "reads (read_times (length ys) rd f a) (concat (map enc ys)) (foldl (\<lambda>a x. f x a) a ys)"
  using assms
proof (induction ys arbitrary: a)
  case (Cons y ys)
  have "reads (\<lambda>d. bind_kv (rd d) (\<lambda>x d. read_times (length ys) rd f (f x a) d)) (enc y @ concat (map enc ys))
      (foldl (\<lambda>a x. f x a) (f y a) ys)"
    by (rule reads_bind) (use Cons in auto)
  then show ?case by (simp add: reads_def)
qed (simp add: reads_return read_times_0 del: read_times.simps)

lemma omap_ext:
  fixes a b :: "('k::linorder \<times> 'v) list"
  assumes "sorted_wrt (<) (omap_keys a)" "sorted_wrt (<) (omap_keys b)" "map_of a = map_of b"
  shows "a = b"
proof -
  have "set (omap_keys a) = set (omap_keys b)" using assms(3) by (metis dom_map_of_conv_image_fst set_map)
  then have k: "omap_keys a = omap_keys b"
    using assms(1,2) by (intro sorted_distinct_set_unique) (auto simp: strict_sorted_iff)
  have id: "map (\<lambda>k. (k, the (map_of m k))) (omap_keys m) = m" if "distinct (omap_keys m)" for m :: "('k \<times> 'v) list"
    unfolding map_map comp_def by (rule map_idI) (use map_of_is_SomeI [OF that] in \<open>metis option.sel prod.collapse\<close>)
  show ?thesis using id [OF sorted_less_distinct [OF assms(1)]] id [OF sorted_less_distinct [OF assms(2)]] k assms(3) by metis
qed

section \<open>One map\<close>

abbreviation puts_of :: "('k, 'v) write_set \<Rightarrow> ('k \<times> 'v) list" where
  "puts_of w \<equiv> [(k, the ov). (k, ov) \<leftarrow> w, ov \<noteq> None]"

abbreviation removes_of :: "('k, 'v) write_set \<Rightarrow> 'k list" where
  "removes_of w \<equiv> [k. (k, ov) \<leftarrow> w, ov = None]"

definition writes_bytes :: "kv_writes \<Rightarrow> bytes" where
  "writes_bytes w =
     append_u64 NoVersion @ append_u64 0 @
     append_u64 (length (puts_of w)) @ concat (map (\<lambda>(k, v). append_bytes k @ append_bytes v) (puts_of w)) @
     append_u64 (length (removes_of w)) @ concat (map append_bytes (removes_of w))"

lemma serialise_changes_bytes:
  "sw_crypto s \<noteq> None \<or> domain = PUBLIC \<Longrightarrow>
   serialise_changes nm domain cs s False =
     Inr (sw_append (s\<lparr>sw_domain := domain\<rparr>) (append_string nm @ writes_bytes (ch_writes cs)))"
  by (auto simp: serialise_changes_def sw_start_map_def sw_append_def writes_bytes_def Let_def split: security_domain.split)

text \<open>Setting the puts and then the removals gives the write set back.\<close>

lemma map_of_foldl_set:
  "map_of (foldl (\<lambda>m (k, v). omap_set k v m) a xs) k = (case map_of (rev xs) k of Some v \<Rightarrow> Some v | None \<Rightarrow> map_of a k)"
proof (induction xs arbitrary: a)
  case (Cons x xs)
  then show ?case
    by (cases "fst x = k") (auto simp: case_prod_beta map_of_omap_set map_of_omap_set_other map_add_def split: option.split)
qed simp

lemma sorted_foldl_set:
  "sorted_wrt (<) (omap_keys a) \<Longrightarrow> sorted_wrt (<) (omap_keys (foldl (\<lambda>m (k, v). omap_set k v m) a xs))"
  by (induction xs arbitrary: a) (auto simp: sorted_omap_set)

lemma puts_and_removes:
  "map (\<lambda>(k, v). (k, Some v)) (puts_of w) = filter (\<lambda>e. snd e \<noteq> None) w"
  "map (\<lambda>k. (k, None)) (removes_of w) = filter (\<lambda>e. snd e = None) w"
  by (induction w) auto

lemma writes_rebuilt:
  assumes "sorted_wrt (<) (omap_keys w)"
  shows "foldl (\<lambda>m (k, v). omap_set k v m) [] (filter (\<lambda>e. snd e \<noteq> None) w @ filter (\<lambda>e. snd e = None) w) = w"
proof (rule omap_ext [OF sorted_foldl_set assms])
  let ?xs = "filter (\<lambda>e. snd e \<noteq> None) w @ filter (\<lambda>e. snd e = None) w"
  have d: "distinct (omap_keys w)" using assms by (rule sorted_less_distinct)
  then have "distinct (omap_keys ?xs)"
    by (auto simp: distinct_map_filter dest: eq_key_imp_eq_value)
  then have "distinct (map fst (rev ?xs))" by (metis distinct_rev rev_map)
  then have "map_of (rev ?xs) = map_of w" using d by (intro map_of_inject_set [THEN iffD2]) auto
  then show "map_of (foldl (\<lambda>m (k, v). omap_set k v m) [] ?xs) = map_of w"
    unfolding map_of_foldl_set by (simp add: map_of_foldl_set fun_eq_iff split: option.split)
qed simp

lemma reads_write: "reads ds_write (append_bytes (fst kv) @ append_bytes (snd kv)) kv"
proof -
  have "reads (\<lambda>d. bind_kv (ds_read (read_vector 1) d) (\<lambda>k d. bind_kv (ds_read (read_vector 1) d) (\<lambda>v d. Inr ((k, v), d))))
      (append_bytes (fst kv) @ append_bytes (snd kv) @ []) (fst kv, snd kv)"
    by (rule reads_bind [OF reads_bytes reads_bind [OF reads_bytes reads_return]])
  then show ?thesis unfolding ds_write_def by (simp add: reads_def)
qed

lemma foldl_cs_writes:
  "foldl (\<lambda>cs x. (case x of (k, v) \<Rightarrow> \<lambda>cs. cs\<lparr>ch_writes := omap_set k (Some v) (ch_writes cs)\<rparr>) cs) cs ps =
     cs\<lparr>ch_writes := foldl (\<lambda>m (k, v). omap_set k v m) (ch_writes cs) (map (\<lambda>(k, v). (k, Some v)) ps)\<rparr>"
  "foldl (\<lambda>cs k. cs\<lparr>ch_writes := omap_set k None (ch_writes cs)\<rparr>) cs ks =
     cs\<lparr>ch_writes := foldl (\<lambda>m (k, v). omap_set k v m) (ch_writes cs) (map (\<lambda>k. (k, None)) ks)\<rparr>"
  by (induction ps arbitrary: cs) (auto, induction ks arbitrary: cs, auto)

lemma reads_changes:
  fixes w :: kv_writes
  assumes "create_change_set m v False = Some cs" "sorted_wrt (<) (omap_keys w)" "length w < two64"
  shows "reads (deserialise_internal m v) (writes_bytes w) (cs\<lparr>ch_writes := w\<rparr>)"
proof -
  let ?puts = "puts_of w" and ?removes = "removes_of w"
  let ?put = "\<lambda>(k, v) cs. cs\<lparr>ch_writes := omap_set k (Some v) (ch_writes cs)\<rparr>"
  let ?remove = "\<lambda>k cs. cs\<lparr>ch_writes := omap_set k None (ch_writes cs)\<rparr>"
  let ?cs1 = "foldl (\<lambda>cs x. ?put x cs) cs ?puts"
  have l: "length ?puts < two64" "length ?removes < two64"
    using assms(3) length_filter_le [of _ w] arg_cong [OF puts_and_removes(1) [of w], of length]
      arg_cong [OF puts_and_removes(2) [of w], of length] le_less_trans by (metis (no_types, lifting) length_map)+
  have cs0: "ch_writes cs = []" using assms(1) by (auto simp: create_change_set_def new_change_set_def)
  have z: "reads ds_entry_version (append_u64 NoVersion) NoVersion" "reads ds_count_header (append_u64 0) 0"
    by (simp_all add: ds_entry_version_def ds_count_header_def reads_u64 two64_pos NoVersion_def)
  have n: "reads ds_count_header (append_u64 k) k" if "k < two64" for k
    using that by (simp add: ds_count_header_def reads_u64)
  have removes: "reads (read_times (length ?removes) ds_remove ?remove ?cs1) (concat (map append_bytes ?removes))
      (foldl (\<lambda>cs x. ?remove x cs) ?cs1 ?removes)"
    unfolding ds_remove_def by (rule reads_times) (rule reads_bytes)
  have puts: "reads (read_times (length ?puts) ds_write ?put cs)
      (concat (map (\<lambda>kv. append_bytes (fst kv) @ append_bytes (snd kv)) ?puts)) ?cs1"
    by (rule reads_times) (rule reads_write)
  have nothing: "reads (read_times 0 ds_read_dependency f cs) [] cs" for f
    unfolding read_times_0 by (rule reads_return)
  have eq: "deserialise_internal m v =
    (\<lambda>d. bind_kv (ds_entry_version d) (\<lambda>rv d.
          let cs = (if rv \<noteq> NoVersion then cs\<lparr>ch_read_version := rv\<rparr> else cs) in
          bind_kv (ds_count_header d) (\<lambda>n d.
          bind_kv (read_times n ds_read_dependency (\<lambda>(k, v) cs. cs\<lparr>ch_reads := omap_set k (v, NoVersion) (ch_reads cs)\<rparr>) cs d) (\<lambda>cs d.
          bind_kv (ds_count_header d) (\<lambda>n d.
          bind_kv (read_times n ds_write ?put cs d) (\<lambda>cs d.
          bind_kv (ds_count_header d) (\<lambda>n d. read_times n ds_remove ?remove cs d)))))))"
    by (simp add: fun_eq_iff deserialise_internal_def assms(1))
  have "reads (deserialise_internal m v)
      (append_u64 NoVersion @ append_u64 0 @ [] @ append_u64 (length ?puts) @
       concat (map (\<lambda>kv. append_bytes (fst kv) @ append_bytes (snd kv)) ?puts) @
       append_u64 (length ?removes) @ concat (map append_bytes ?removes)) (foldl (\<lambda>cs x. ?remove x cs) ?cs1 ?removes)"
    unfolding eq
    apply (rule reads_bind [OF z(1)])
    apply (simp only: Let_def simp_thms if_False)
    apply (rule reads_bind [OF z(2)])
    apply (rule reads_bind [where xs = "[]" and x = cs])
     apply (unfold read_times_0)[1]
     apply (rule reads_return)
    apply (rule reads_bind [OF n [OF l(1)]])
    apply (rule reads_bind [OF puts])
    apply (rule reads_bind [OF n [OF l(2)]])
    apply (rule removes)
    done
  moreover have "foldl (\<lambda>cs x. ?remove x cs) ?cs1 ?removes = cs\<lparr>ch_writes := w\<rparr>"
    using writes_rebuilt [OF assms(2)] cs0
    by (simp add: foldl_cs_writes puts_and_removes del: not_None_eq)
  ultimately show ?thesis unfolding writes_bytes_def by (simp add: case_prod_unfold)
qed

section \<open>Entries\<close>

definition public_header :: "tx_id \<Rightarrow> entry_type \<Rightarrow> bytes \<Rightarrow> bytes \<Rightarrow> bytes" where
  "public_header tx et evidence claims =
     append_entry_type et @ append_u64 (tx_seqno tx) @ (if has_claims et then claims else []) @
     (if has_commit_evidence et then evidence else []) @ append_u64 0"

lemma read_public_header_written:
  assumes "stands_at (ds_public d) (public_header tx et evidence claims @ bs) (length (public_header tx et evidence claims) + m)"
    "tx_seqno tx < two64" "has_claims et \<Longrightarrow> length claims = sha256_size" "has_commit_evidence et \<Longrightarrow> length evidence = sha256_size"
    "ds_claims_digest d = None" "ds_commit_evidence_digest d = None"
  shows "\<exists>r. stands_at r bs m \<and> read_public_header d =
    Inr (d\<lparr>ds_public := r, ds_entry_type := et, ds_version := tx_seqno tx,
           ds_claims_digest := (if has_claims et then Some claims else None),
           ds_commit_evidence_digest := (if has_commit_evidence et then Some evidence else None)\<rparr>)"
proof -
  let ?c = "if has_claims et then Some claims else None" and ?ev = "if has_commit_evidence et then Some evidence else None"
  have "raw_reads (\<lambda>r. bind_kv (read_entry_type r) (\<lambda>et r. bind_kv (read_entry 8 r) (\<lambda>v r.
      bind_kv (read_digest (has_claims et) r) (\<lambda>claims r. bind_kv (read_digest (has_commit_evidence et) r) (\<lambda>evidence r.
      bind_kv (read_entry 8 r) (\<lambda>_ r. Inr ((et, v, claims, evidence), r)))))))
      (append_entry_type et @ append_u64 (tx_seqno tx) @ (if has_claims et then claims else []) @
       (if has_commit_evidence et then evidence else []) @ append_u64 0 @ []) (et, tx_seqno tx, ?c, ?ev)"
    by (rule raw_reads_bind [OF raw_reads_entry_type raw_reads_bind [OF raw_reads_u64 [OF assms(2)] raw_reads_bind
          [OF raw_reads_digest [OF assms(3)] raw_reads_bind [OF raw_reads_digest [OF assms(4)] raw_reads_bind
          [OF raw_reads_u64 [OF two64_pos] raw_reads_return]]]]])
  then have "raw_reads (\<lambda>r. bind_kv (read_entry_type r) (\<lambda>et r. bind_kv (read_entry 8 r) (\<lambda>v r.
      bind_kv (read_digest (has_claims et) r) (\<lambda>claims r. bind_kv (read_digest (has_commit_evidence et) r) (\<lambda>evidence r.
      bind_kv (read_entry 8 r) (\<lambda>_ r. Inr ((et, v, claims, evidence), r)))))))
      (public_header tx et evidence claims) (et, tx_seqno tx, ?c, ?ev)" unfolding public_header_def by simp
  from this [unfolded raw_reads_def, rule_format, OF assms(1)]
  obtain r where r: "stands_at r bs m" "bind_kv (read_entry_type (ds_public d)) (\<lambda>et r. bind_kv (read_entry 8 r) (\<lambda>v r.
      bind_kv (read_digest (has_claims et) r) (\<lambda>claims r. bind_kv (read_digest (has_commit_evidence et) r) (\<lambda>evidence r.
      bind_kv (read_entry 8 r) (\<lambda>_ r. Inr ((et, v, claims, evidence), r)))))) = Inr ((et, tx_seqno tx, ?c, ?ev), r)"
    by blast
  then show ?thesis
    using assms(5,6) unfolding read_public_header_def
    by (intro exI [of _ r] conjI) (auto simp: bind_kv_Inr)
qed

locale entry_crypto =
  fixes util :: "'e \<Rightarrow> crypto_util" and agree :: "'e \<Rightarrow> 'e \<Rightarrow> tx_id \<Rightarrow> bool"
  assumes same_header: "agree e d tx \<Longrightarrow> cu_header_length (util d) = cu_header_length (util e)"
    and decrypts: "agree e d tx \<Longrightarrow> et \<noteq> Snapshot \<Longrightarrow> cu_encrypt (util e) p aad tx et hint = Inr (Some (hdr, c)) \<Longrightarrow>
      length hdr = cu_header_length (util e) \<and> length c = length p \<and>
      cu_decrypt (util d) c aad hdr (tx_seqno tx) hint' = Inr (Some (p, tx_view tx)) \<and>
      cu_get_term (util d) hdr = Inr (tx_view tx)"
begin

text \<open>An entry that was written is opened at its first map, in both domains.\<close>

lemma init_written:
  assumes "agree e d (sw_tx_id s)" "sw_entry_type s \<noteq> Snapshot" "sw_crypto s = Some (util e)"
    and pub: "sw_public s = public_header (sw_tx_id s) (sw_entry_type s) evidence claims @ P"
    and ser: "serialise_domains s = Inr data"
    and b: "sw_flags s < 256" "length data < 2 ^ 48" "tx_seqno (sw_tx_id s) < two64"
      "length evidence = sha256_size" "length claims = sha256_size"
  shows "\<exists>d' rest. ds_init (new_deserialiser (Some (util d)) restriction) data hint =
      Inr (Some (tx_seqno (sw_tx_id s), Some (tx_view (sw_tx_id s)), sw_flags s), d') \<and>
    \<not> ds_on_private d' \<and> stands_at (ds_public d') (P @ rest) (length P) \<and>
    (if restriction = Some PUBLIC then ds_private d' = rr_init [] 0
     else stands_at (ds_private d') (sw_private s) (length (sw_private s))) \<and>
    ds_claims_digest d' = (if has_claims (sw_entry_type s) then Some claims else None) \<and>
    ds_commit_evidence_digest d' = (if has_commit_evidence (sw_entry_type s) then Some evidence else None) \<and>
    ds_version d' = tx_seqno (sw_tx_id s)"
proof -
  let ?e = "util e" and ?d = "util d" and ?pub = "sw_public s" and ?tx = "sw_tx_id s"
  obtain hdr c where enc: "cu_encrypt ?e (sw_private s) ?pub ?tx (sw_entry_type s) (sw_historical_hint s) = Inr (Some (hdr, c))"
    using ser assms(3) by (auto simp: serialise_domains_def Let_def split: sum.splits option.splits)
  note D = decrypts [OF assms(1,2) enc]
  have hd: "length hdr = cu_header_length ?d" using D same_header [OF assms(1)] by simp
  let ?body = "hdr @ le_bytes 8 (length ?pub) @ ?pub @ c"
  let ?h = "\<lparr>eh_version = entry_format_v1, eh_flags = sw_flags s, eh_size = length ?body\<rparr>"
  have data: "data = encode_entry_header ?h @ ?body"
    using ser assms(3) enc D by (auto simp: serialise_domains_def Let_def ac_simps split: if_splits)
  then have small: "length ?body < 2 ^ 48" using b(2) by simp
  have dec: "decode_entry_header data = ?h"
    unfolding data by (rule decode_encode_entry_header) (use b(1) small in \<open>simp_all add: entry_format_v1_def\<close>)
  have dropped: "drop serialised_entry_header_size data = ?body" by (simp add: data serialised_entry_header_size_def)
  have long: "\<not> length data < serialised_entry_header_size" by (simp add: data serialised_entry_header_size_def)
  have two: "length ?pub + length c < two64" using small by (simp add: two64_def)
  have at: "stands_at (rr_init (?pub @ c) (length ?pub)) (public_header ?tx (sw_entry_type s) evidence claims @ (P @ c))
      (length (public_header ?tx (sw_entry_type s) evidence claims) + length P)"
    using stands_at_init [of "length ?pub" "?pub @ c"] two by (simp add: pub)
  let ?start = "(new_deserialiser (Some ?d) restriction)\<lparr>ds_on_private := False, ds_public := rr_init (?pub @ c) (length ?pub)\<rparr>"
  obtain r where r: "stands_at r (P @ c) (length P)" "read_public_header ?start =
      Inr (?start\<lparr>ds_public := r, ds_entry_type := sw_entry_type s, ds_version := tx_seqno ?tx,
           ds_claims_digest := (if has_claims (sw_entry_type s) then Some claims else None),
           ds_commit_evidence_digest := (if has_commit_evidence (sw_entry_type s) then Some evidence else None)\<rparr>)"
    using read_public_header_written [of ?start ?tx "sw_entry_type s" evidence claims "P @ c" "length P"] at b(3-5)
    by (auto simp: new_deserialiser_def)
  have skip: "of_ser (ser_skip (cu_header_length ?d) ?body) = Inr (le_bytes 8 (length ?pub) @ ?pub @ c)"
    "take (cu_header_length ?d) ?body = hdr" by (simp_all add: ser_skip_def hd [symmetric])
  have len: "of_ser (ser_read 8 (le_bytes 8 (length ?pub) @ ?pub @ c)) = Inr (length ?pub, ?pub @ c)"
    using ser_read_le_bytes_small [of "length ?pub" 8 "?pub @ c"] two by (simp add: two64_def)
  have priv: "of_ser (ser_skip (length ?pub) (?pub @ c)) = Inr c" by (simp add: ser_skip_def)
  have p64: "length (sw_private s) < two64" using two D by simp
  define d1 where "d1 = ?start\<lparr>ds_public := r, ds_entry_type := sw_entry_type s, ds_version := tx_seqno ?tx,
     ds_claims_digest := (if has_claims (sw_entry_type s) then Some claims else None),
     ds_commit_evidence_digest := (if has_commit_evidence (sw_entry_type s) then Some evidence else None)\<rparr>"
  let ?result = "if restriction = Some PUBLIC then d1 else d1\<lparr>ds_private := rr_init (sw_private s) (length (sw_private s))\<rparr>"
  have d1: "ds_version d1 = tx_seqno ?tx" "ds_domain_restriction d1 = restriction" by (simp_all add: d1_def)
  have dec': "cu_decrypt ?d c (take (length ?pub) (?pub @ c)) hdr (tx_seqno ?tx) hint = Inr (Some (sw_private s, tx_view ?tx))"
    "cu_get_term ?d hdr = Inr (tx_view ?tx)" using D [of hint] by simp_all
  have "ds_init (new_deserialiser (Some ?d) restriction) data hint =
      Inr (Some (tx_seqno ?tx, Some (tx_view ?tx), sw_flags s), ?result)"
    unfolding ds_init_def Let_def dropped dec using long r(2) [folded d1_def]
    by (simp add: skip len priv dec' d1 del: append_assoc take_append)
  moreover have "stands_at (rr_init (sw_private s) (length (sw_private s))) (sw_private s) (length (sw_private s))"
    by (rule stands_at_init [OF order_refl p64])
  ultimately show ?thesis
    using r(1) by (intro exI [of _ ?result] exI [of _ c]) (simp add: d1_def new_deserialiser_def)
qed

end

text \<open>
  Two nodes agree on a transaction if both use the same cipher and find the same secret for its version.
\<close>

definition same_secret :: "aes_gcm \<times> ledger_secrets \<Rightarrow> aes_gcm \<times> ledger_secrets \<Rightarrow> tx_id \<Rightarrow> bool" where
  "same_secret e d tx \<longleftrightarrow> fst e = fst d \<and> gcm_ok (fst e) \<and>
     (\<exists>key. \<forall>h. snd (get_encryption_key_for (snd e) (tx_seqno tx) h) = Some key \<and>
                snd (get_encryption_key_for (snd d) (tx_seqno tx) h) = Some key)"

interpretation ne: entry_crypto node_encryptor same_secret
proof
  fix e d :: "aes_gcm \<times> ledger_secrets" and tx et p aad hint hdr c hint'
  assume s: "same_secret e d tx"
  show "cu_header_length (node_encryptor d) = cu_header_length (node_encryptor e)" by (simp add: node_encryptor_def)
  assume et: "et \<noteq> Snapshot" and enc: "cu_encrypt (node_encryptor e) p aad tx et hint = Inr (Some (hdr, c))"
  obtain key where k: "\<And>h. snd (get_encryption_key_for (snd e) (tx_seqno tx) h) = Some key"
    "\<And>h. snd (get_encryption_key_for (snd d) (tx_seqno tx) h) = Some key" and g: "fst d = fst e" "gcm_ok (fst e)"
    using s by (auto simp: same_secret_def)
  have "snd (tx_encrypt (fst e) (snd e) p aad tx et hint) = Inr (Some (hdr, c))" using enc by (simp add: node_encryptor_def)
  from decrypt_encrypted [OF g(2) et this k] show "length hdr = cu_header_length (node_encryptor e) \<and> length c = length p \<and>
      cu_decrypt (node_encryptor d) c aad hdr (tx_seqno tx) hint' = Inr (Some (p, tx_view tx)) \<and>
      cu_get_term (node_encryptor d) hdr = Inr (tx_view tx)"
    by (simp add: node_encryptor_def g(1))
qed

section \<open>Properties\<close>

text \<open>
  C36. Where the reader leaves its buffer. For a reader over a whole buffer, reading an integer never does. A
  digest is read past the end of the buffer exactly if fewer bytes are left. A size-prefixed value is read past the
  end exactly if its announced size is at most what was left before the prefix, but more than what is left behind it;
  and the eight-byte elements of a view history are copied past the end of the new vector if the announced size is
  not a multiple of eight.
\<close>

theorem reader_faults:
  assumes "rr_size r = length (rr_data r)" "rr_offset r \<le> rr_size r" "rr_size r < two64"
  defines "left \<equiv> rr_size r - rr_offset r" and "announced \<equiv> le_value (take 8 (drop (rr_offset r) (rr_data r)))"
  shows "read_entry n r \<noteq> Inl Fault \<and>
    (read_array n r = Inl Fault \<longleftrightarrow> left < n) \<and>
    (read_vector 1 r = Inl Fault \<longleftrightarrow> 8 \<le> left \<and> announced \<le> left \<and> left < 8 + announced) \<and>
    (read_vector 8 r = Inl Fault \<longleftrightarrow> 8 \<le> left \<and> announced \<le> left \<and> (left < 8 + announced \<or> announced mod 8 \<noteq> 0))"
proof (intro conjI)
  have "rr_size r = rr_offset r + left" "left < two64" using assms(2,3) by (simp_all add: left_def)
  then have sub: "sub64 (rr_size r) (rr_offset r) = left" by (simp add: sub64_def)
  have len: "length (rr_data r) = rr_offset r + left" using assms(1,2) by (simp add: left_def)
  show "read_entry n r \<noteq> Inl Fault" by (simp add: read_entry_def sub rr_memory_def len)
  show "read_array n r = Inl Fault \<longleftrightarrow> left < n" by (auto simp: read_array_def rr_memory_def len)
  have p: "read_size_prefixed_entry r =
     (if left < 8 then Inl SpaceError else if left < announced then Inl RuntimeError
      else Inr ((announced, rr_offset r + 8), r\<lparr>rr_offset := rr_offset r + 8 + announced\<rparr>))"
    by (simp add: read_size_prefixed_entry_def read_entry_def sub rr_memory_def len announced_def)
  show "read_vector 1 r = Inl Fault \<longleftrightarrow> 8 \<le> left \<and> announced \<le> left \<and> left < 8 + announced"
    by (auto simp: read_vector_def p rr_memory_def len split: if_splits)
  have "announced div 8 * 8 < announced \<longleftrightarrow> announced mod 8 \<noteq> 0"
    using div_mult_mod_eq [of announced 8] by linarith
  then show "read_vector 8 r = Inl Fault \<longleftrightarrow> 8 \<le> left \<and> announced \<le> left \<and> (left < 8 + announced \<or> announced mod 8 \<noteq> 0)"
    by (auto simp: read_vector_def p rr_memory_def len split: if_splits)
qed

text \<open>A key that announces nine bytes in a buffer with one left behind the prefix, and a view history of three bytes.\<close>

theorem reader_faults_witness:
  "read_vector 1 (rr_init (append_u64 9 @ [0]) 9) = Inl Fault \<and>
   read_vector 8 (rr_init (append_u64 3 @ [0, 0, 0]) 11) = Inl Fault \<and> read_array 32 (rr_init [] 0) = Inl Fault"
proof -
  have a: "le_value (take 8 (append_u64 k @ bs)) = k" if "k < two64" for k bs
    using that by (simp add: append_u64_def le_value_le_bytes two64_def)
  have "read_vector 1 (rr_init (append_u64 9 @ [0]) 9) = Inl Fault"
    using reader_faults [of "rr_init (append_u64 9 @ [0]) 9" 0] a [of 9 "[0]"]
    by (simp add: rr_init_def append_u64_def two64_def)
  moreover have "read_vector 8 (rr_init (append_u64 3 @ [0, 0, 0]) 11) = Inl Fault"
    using reader_faults [of "rr_init (append_u64 3 @ [0, 0, 0]) 11" 0] a [of 3 "[0, 0, 0]"]
    by (simp add: rr_init_def append_u64_def two64_def)
  moreover have "read_array 32 (rr_init [] 0) = Inl Fault"
    using reader_faults [of "rr_init [] 0" 32] by (simp add: rr_init_def two64_def)
  ultimately show ?thesis by simp
qed

end
