(* ===== verification/KV_Store.thy ===== *)
theory KV_Store
  imports KV_Serial KV_Serialise Ledger_Chunker Hex
begin

unbundle bit_operations_syntax

text \<open>
  The key-value store (\<^verbatim>\<open>src/kv/store.h\<close>), transactions over its maps (\<^verbatim>\<open>src/kv/tx.cpp\<close>,
  \<^verbatim>\<open>src/kv/committable_tx.h\<close>, \<^verbatim>\<open>src/kv/apply_changes.h\<close>) and the pipeline that hands committed transactions to the
  consensus in the order of their versions.

  Maps are shared between the store and its transactions: a pointer to a map is an index into the list of all maps
  ever created. Locks are left out; an operation is atomic where the code holds the lock of the versions or of the
  maps, and \<^verbatim>\<open>Store::commit\<close>, which gives up the lock of the versions, is cut into steps at these points. Calls on the history,
  the snapshotter, the rollback of the encryptor and the observer of write sets are recorded in the order in which they are made;
  the answers of these components may depend on the calls made so far. Hashes, signatures and
  the nonce of the commit evidence are parameters.
\<close>

section \<open>State\<close>

type_synonym map_ptr = nat
type_synonym ('s, 'h) kv_cell = "('s, bytes, bytes, 'h) kv_map"
type_synonym 's kv_changes = "('s, bytes, bytes) change_set"
type_synonym 's ordered_changes = "(string \<times> map_ptr \<times> 's kv_changes) list"
type_synonym map_collection = "(string \<times> map_ptr) list"

datatype commit_result = SUCCESS | FAIL_CONFLICT | FAIL_NO_REPLICATE

record 'h pending_info =
  pi_success :: commit_result
  pi_data :: bytes
  pi_claims_digest :: "bytes option"
  pi_commit_evidence_digest :: bytes
  pi_hooks :: "'h list"

datatype 'h pending_tx = MovePendingTx bytes "bytes option" bytes "'h list" | SignaturePendingTx tx_id

datatype store_call =
    HistoryAppend bytes "bytes option" "bytes option" "nat option"
  | HistoryRollback tx_id nat
  | HistoryCompact nat
  | HistorySetTerm nat
  | SnapshotterCommit nat bool
  | SnapshotterRollback nat
  | SnapshotterRecord nat
  | EncryptorRollback nat
  | GlobalHook string nat kv_writes
  | WriteSetObserved bytes string

record ('s, 'h) store =
  st_heap :: "('s, 'h) kv_cell list"
  st_maps :: "(string \<times> nat \<times> map_ptr) list"
  st_version :: nat
  st_last_new_map :: nat
  st_compacted :: nat
  st_term_of_next_version :: nat
  st_term_of_last_version :: nat
  st_last_replicated :: nat
  st_last_committable :: nat
  st_rollback_count :: nat
  st_pending_txs :: "(nat \<times> 'h pending_tx \<times> bool) list"
  st_global_hooks :: "string list"
  st_map_hooks :: "(string \<times> (nat \<Rightarrow> kv_writes \<Rightarrow> 'h option)) list"
  st_history :: bool
  st_snapshotter :: bool
  st_chunker :: "ledger_chunker option"
  st_encryptor :: "crypto_util option"
  st_strict_versions :: bool
  st_is_historical :: bool
  st_flags :: "8 word"
  st_calls :: "store_call list"

text \<open>What the store relies on: the persistent map, hashes, the secret nonces, and the answers of its neighbours.\<close>

record 's kv_env =
  kv_ops :: "('s, bytes, bytes versionv) map_ops"
  kv_sha256 :: "bytes \<Rightarrow> bytes"
  kv_commit_nonce :: "tx_id \<Rightarrow> kv_error + bytes"
  kv_record_committable :: "store_call list \<Rightarrow> nat \<Rightarrow> bool"
  kv_sign :: "store_call list \<Rightarrow> tx_id \<Rightarrow> (string \<times> (kv_error + bytes \<times> bytes)) list"
  kv_verify_root :: "store_call list \<Rightarrow> nat \<Rightarrow> bool"

definition new_store :: "bool \<Rightarrow> bool \<Rightarrow> ('s, 'h) store" where
  "new_store strict_versions is_historical =
     \<lparr>st_heap = [], st_maps = [], st_version = 0, st_last_new_map = NoVersion, st_compacted = 0,
      st_term_of_next_version = 0, st_term_of_last_version = 0, st_last_replicated = 0, st_last_committable = 0,
      st_rollback_count = 0, st_pending_txs = [], st_global_hooks = [], st_map_hooks = [], st_history = False,
      st_snapshotter = False, st_chunker = None, st_encryptor = None, st_strict_versions = strict_versions,
      st_is_historical = is_historical, st_flags = 0, st_calls = []\<rparr>"

definition store_clear :: "('s, 'h, 'z) store_scheme \<Rightarrow> ('s, 'h, 'z) store_scheme" where
  "store_clear st =
     st\<lparr>st_maps := [], st_pending_txs := [], st_version := 0, st_last_new_map := NoVersion, st_compacted := 0,
        st_term_of_next_version := 0, st_term_of_last_version := 0, st_last_replicated := 0, st_last_committable := 0,
        st_rollback_count := 0\<rparr>"

definition st_call :: "store_call \<Rightarrow> ('s, 'h, 'z) store_scheme \<Rightarrow> ('s, 'h, 'z) store_scheme" where
  "st_call c st = st\<lparr>st_calls := st_calls st @ [c]\<rparr>"

definition call_if :: "bool \<Rightarrow> store_call \<Rightarrow> ('s, 'h, 'z) store_scheme \<Rightarrow> ('s, 'h, 'z) store_scheme" where
  "call_if b c st = (if b then st_call c st else st)"

section \<open>Versions and flags\<close>

definition next_version_unsafe :: "('s, 'h, 'z) store_scheme \<Rightarrow> nat \<times> ('s, 'h, 'z) store_scheme" where
  "next_version_unsafe st =
     (let v = add64 (st_version st) 1; v = (if 2 ^ 63 - 1 < v then 0 else v)
      in (v, st\<lparr>st_version := v, st_term_of_last_version := st_term_of_next_version st\<rparr>))"

definition next_version_new_map :: "bool \<Rightarrow> ('s, 'h, 'z) store_scheme \<Rightarrow> (nat \<times> nat) \<times> ('s, 'h, 'z) store_scheme" where
  "next_version_new_map commit_new_map st =
     (let (v, st') = next_version_unsafe st
      in ((v, st_last_new_map st), if commit_new_map then st'\<lparr>st_last_new_map := v\<rparr> else st'))"

definition next_txid :: "('s, 'h, 'z) store_scheme \<Rightarrow> tx_id \<times> ('s, 'h, 'z) store_scheme" where
  "next_txid st =
     (let (v, st) = next_version_unsafe st
      in (\<lparr>tx_view = st_term_of_next_version st, tx_seqno = st_version st\<rparr>, st))"

definition current_txid :: "('s, 'h, 'z) store_scheme \<Rightarrow> tx_id" where
  "current_txid st = \<lparr>tx_view = st_term_of_last_version st, tx_seqno = st_version st\<rparr>"

definition current_txid_and_commit_term :: "('s, 'h, 'z) store_scheme \<Rightarrow> tx_id \<times> nat" where
  "current_txid_and_commit_term st = (current_txid st, st_term_of_next_version st)"

definition check_rollback_count :: "nat \<Rightarrow> ('s, 'h, 'z) store_scheme \<Rightarrow> bool" where
  "check_rollback_count n st \<longleftrightarrow> st_rollback_count st = n"

definition committable_gap :: "('s, 'h, 'z) store_scheme \<Rightarrow> nat" where
  "committable_gap st = sub64 (st_version st) (st_last_committable st)"

definition SNAPSHOT_AT_NEXT_SIGNATURE :: "8 word" where
  "SNAPSHOT_AT_NEXT_SIGNATURE = 0x02"

definition set_flag :: "8 word \<Rightarrow> ('s, 'h, 'z) store_scheme \<Rightarrow> ('s, 'h, 'z) store_scheme" where
  "set_flag f st = st\<lparr>st_flags := st_flags st OR f\<rparr>"

definition unset_flag :: "8 word \<Rightarrow> ('s, 'h, 'z) store_scheme \<Rightarrow> ('s, 'h, 'z) store_scheme" where
  "unset_flag f st = st\<lparr>st_flags := st_flags st AND NOT f\<rparr>"

definition flag_enabled :: "8 word \<Rightarrow> ('s, 'h, 'z) store_scheme \<Rightarrow> bool" where
  "flag_enabled f st \<longleftrightarrow> st_flags st AND f \<noteq> 0"

definition initialise_term :: "nat \<Rightarrow> ('s, 'h, 'z) store_scheme \<Rightarrow> (kv_error + unit) \<times> ('s, 'h, 'z) store_scheme" where
  "initialise_term t st =
     (if st_term_of_next_version st \<noteq> 0 then (Inl LogicError, st)
      else (Inr (), call_if (st_history st) (HistorySetTerm t) (st\<lparr>st_term_of_next_version := t\<rparr>)))"

section \<open>Maps\<close>

definition get_security_domain :: "string \<Rightarrow> security_domain" where
  "get_security_domain nm = (if take 7 nm = ''public:'' then PUBLIC else PRIVATE)"

definition get_map_internal :: "nat \<Rightarrow> string \<Rightarrow> ('s, 'h, 'z) store_scheme \<Rightarrow> map_ptr option" where
  "get_map_internal v nm st =
     (case map_of (st_maps st) nm of
        Some (map_creation_version, p) \<Rightarrow>
          if map_creation_version \<le> v \<or> map_creation_version = NoVersion then Some p else None
      | None \<Rightarrow> None)"

definition alloc_map :: "('s, bytes, 'w) map_ops \<Rightarrow> string \<Rightarrow> security_domain \<Rightarrow> ('s, 'h, 'z) store_scheme \<Rightarrow> map_ptr \<times> ('s, 'h, 'z) store_scheme" where
  "alloc_map ops nm sd st = (length (st_heap st), st\<lparr>st_heap := st_heap st @ [new_map ops nm sd]\<rparr>)"

definition set_cell :: "map_ptr \<Rightarrow> ('s, 'h) kv_cell \<Rightarrow> ('s, 'h, 'z) store_scheme \<Rightarrow> ('s, 'h, 'z) store_scheme" where
  "set_cell p m st = st\<lparr>st_heap := (st_heap st)[p := m]\<rparr>"

definition with_hooks :: "('s, 'h, 'z) store_scheme \<Rightarrow> ('s, 'h) kv_cell \<Rightarrow> ('s, 'h) kv_cell" where
  "with_hooks st m =
     (let m = (if km_name m \<in> set (st_global_hooks st) then m\<lparr>km_global_hook := True\<rparr> else m)
      in case map_of (st_map_hooks st) (km_name m) of Some hook \<Rightarrow> m\<lparr>km_hook := Some hook\<rparr> | None \<Rightarrow> m)"

definition add_dynamic_map :: "nat \<Rightarrow> map_ptr \<Rightarrow> ('s, 'h, 'z) store_scheme \<Rightarrow> (kv_error + unit) \<times> ('s, 'h, 'z) store_scheme" where
  "add_dynamic_map v p st =
     (let m = st_heap st ! p; nm = km_name m
      in if get_map_internal v nm st \<noteq> None then (Inl LogicError, st)
         else (Inr (), set_cell p (with_hooks st m) (st\<lparr>st_maps := omap_set nm (v, p) (st_maps st)\<rparr>)))"

definition update_named :: "string \<Rightarrow> (('s, 'h) kv_cell \<Rightarrow> ('s, 'h) kv_cell) \<Rightarrow> ('s, 'h, 'z) store_scheme \<Rightarrow> ('s, 'h, 'z) store_scheme" where
  "update_named nm f st =
     (case map_of (st_maps st) nm of Some (_, p) \<Rightarrow> set_cell p (f (st_heap st ! p)) st | None \<Rightarrow> st)"

definition set_map_hook :: "string \<Rightarrow> (nat \<Rightarrow> kv_writes \<Rightarrow> 'h option) \<Rightarrow> ('s, 'h, 'z) store_scheme \<Rightarrow> ('s, 'h, 'z) store_scheme" where
  "set_map_hook nm hook st =
     update_named nm (\<lambda>m. m\<lparr>km_hook := Some hook\<rparr>) (st\<lparr>st_map_hooks := omap_set nm hook (st_map_hooks st)\<rparr>)"

definition unset_map_hook :: "string \<Rightarrow> ('s, 'h, 'z) store_scheme \<Rightarrow> ('s, 'h, 'z) store_scheme" where
  "unset_map_hook nm st =
     update_named nm (\<lambda>m. m\<lparr>km_hook := None\<rparr>) (st\<lparr>st_map_hooks := filter (\<lambda>e. fst e \<noteq> nm) (st_map_hooks st)\<rparr>)"

definition set_global_hook :: "string \<Rightarrow> ('s, 'h, 'z) store_scheme \<Rightarrow> ('s, 'h, 'z) store_scheme" where
  "set_global_hook nm st =
     update_named nm (\<lambda>m. m\<lparr>km_global_hook := True\<rparr>) (st\<lparr>st_global_hooks := List.insert nm (st_global_hooks st)\<rparr>)"

definition unset_global_hook :: "string \<Rightarrow> ('s, 'h, 'z) store_scheme \<Rightarrow> ('s, 'h, 'z) store_scheme" where
  "unset_global_hook nm st =
     update_named nm (\<lambda>m. m\<lparr>km_global_hook := False\<rparr>) (st\<lparr>st_global_hooks := removeAll nm (st_global_hooks st)\<rparr>)"

section \<open>Transactions\<close>

record 's kv_tx =
  ct_read_txid :: "tx_id option"
  ct_commit_view :: nat
  ct_created_maps :: map_collection
  ct_all_changes :: "'s ordered_changes"
  ct_committed :: bool
  ct_success :: bool
  ct_version :: nat
  ct_flags :: "8 word"
  ct_entry_flags :: "8 word"

definition create_tx :: "'s kv_tx" where
  "create_tx =
     \<lparr>ct_read_txid = None, ct_commit_view = 0, ct_created_maps = [], ct_all_changes = [], ct_committed = False,
      ct_success = False, ct_version = NoVersion, ct_flags = 0, ct_entry_flags = 0\<rparr>"

definition get_map_and_change_set_by_name ::
  "('s, bytes, 'w) map_ops \<Rightarrow> string \<Rightarrow> bool \<Rightarrow> 's kv_tx \<Rightarrow> ('s, 'h, 'z) store_scheme \<Rightarrow>
   (kv_error + map_ptr \<times> 's kv_changes option) \<times> 's kv_tx \<times> ('s, 'h, 'z) store_scheme"
where
  "get_map_and_change_set_by_name ops nm track tx st =
     (let (read_txid, tx) =
        (case ct_read_txid tx of
           Some txid \<Rightarrow> (txid, tx)
         | None \<Rightarrow>
             let (txid, view) = current_txid_and_commit_term st
             in (txid, tx\<lparr>ct_read_txid := Some txid, ct_commit_view := view\<rparr>))
      in case get_map_internal (tx_seqno read_txid) nm st of
           Some p \<Rightarrow> (Inr (p, create_change_set (st_heap st ! p) (tx_seqno read_txid) track), tx, st)
         | None \<Rightarrow>
             if map_of (ct_created_maps tx) nm \<noteq> None then (Inl LogicError, tx, st)
             else
               let (p, st) = alloc_map ops nm (get_security_domain nm) st
               in (Inr (p, create_change_set (st_heap st ! p) (tx_seqno read_txid) track),
                   tx\<lparr>ct_created_maps := omap_set nm p (ct_created_maps tx)\<rparr>, st))"

text \<open>A handle works on the change set of its map, which exists once from the first handle on.\<close>

definition get_handle_by_name ::
  "('s, bytes, 'w) map_ops \<Rightarrow> string \<Rightarrow> bool \<Rightarrow> 's kv_tx \<Rightarrow> ('s, 'h, 'z) store_scheme \<Rightarrow>
   (kv_error + unit) \<times> 's kv_tx \<times> ('s, 'h, 'z) store_scheme"
where
  "get_handle_by_name ops nm track tx st =
     (case map_of (ct_all_changes tx) nm of
        Some _ \<Rightarrow> (Inr (), tx, st)
      | None \<Rightarrow>
          (case get_map_and_change_set_by_name ops nm track tx st of
             (Inl e, tx, st) \<Rightarrow> (Inl e, tx, st)
           | (Inr (p, None), tx, st) \<Rightarrow> (Inl CompactedVersionConflict, tx, st)
           | (Inr (p, Some cs), tx, st) \<Rightarrow> (Inr (), tx\<lparr>ct_all_changes := omap_set nm (p, cs) (ct_all_changes tx)\<rparr>, st)))"

definition through_handle :: "string \<Rightarrow> ('s kv_changes \<Rightarrow> 's kv_changes) \<Rightarrow> 's kv_tx \<Rightarrow> 's kv_tx" where
  "through_handle nm f tx =
     tx\<lparr>ct_all_changes := map (\<lambda>(n, p, cs). (n, p, if n = nm then f cs else cs)) (ct_all_changes tx)\<rparr>"

section \<open>Applying changes\<close>

primrec add_new_maps ::
  "nat \<Rightarrow> 's ordered_changes \<Rightarrow> map_collection \<Rightarrow> ('s, 'h, 'z) store_scheme \<Rightarrow> (kv_error + unit) \<times> ('s, 'h, 'z) store_scheme"
where
  "add_new_maps v changes [] st = (Inr (), st)"
| "add_new_maps v changes (new # new_maps) st =
     (if (case map_of changes (fst new) of Some (_, cs) \<Rightarrow> has_writes cs | None \<Rightarrow> False)
      then (case add_dynamic_map v (snd new) st of
              (Inl e, st) \<Rightarrow> (Inl e, st)
            | (Inr _, st) \<Rightarrow> add_new_maps v changes new_maps st)
      else add_new_maps v changes new_maps st)"

primrec commit_views ::
  "('s, bytes, bytes versionv) map_ops \<Rightarrow> nat \<Rightarrow> bool \<Rightarrow> 's ordered_changes \<Rightarrow> ('s, 'h) kv_cell list \<Rightarrow>
   ('s, 'h) kv_cell list \<times> nat list"
where
  "commit_views ops v track [] heap = (heap, [])"
| "commit_views ops v track (c # changes) heap =
     (let p = fst (snd c);
          (m, commit_version) = handle_commit ops v track (snd (snd c)) (heap ! p);
          (heap, commit_versions) = commit_views ops v track changes (heap[p := m])
      in (heap, commit_version # commit_versions))"

definition post_commits :: "('s, 'h) kv_cell list \<Rightarrow> 's ordered_changes \<Rightarrow> nat list \<Rightarrow> 'h list" where
  "post_commits heap changes commit_versions =
     concat (map (\<lambda>((_, p, cs), v). case handle_post_commit (heap ! p) cs v of Some h \<Rightarrow> [h] | None \<Rightarrow> [])
       (zip changes commit_versions))"

text \<open>
  The resolver gives the version of the transaction. The result is the version, \<open>NoVersion\<close> if nothing is written,
  with the hooks for the consensus, or none if the transaction conflicts.
\<close>

definition apply_changes ::
  "('s, bytes, bytes versionv) map_ops \<Rightarrow> 's ordered_changes \<Rightarrow>
   (bool \<Rightarrow> ('s, 'h, 'z) store_scheme \<Rightarrow> (nat \<times> nat) \<times> ('s, 'h, 'z) store_scheme) \<Rightarrow>
   map_collection \<Rightarrow> nat option \<Rightarrow> bool \<Rightarrow> nat option \<Rightarrow> ('s, 'h, 'z) store_scheme \<Rightarrow>
   (kv_error + (nat \<times> 'h list) option) \<times> ('s, 'h, 'z) store_scheme"
where
  "apply_changes ops changes version_resolver new_maps new_maps_conflict_version track expected_rollback_count st =
     (let has_writes = list_ex (\<lambda>(_, _, cs). has_writes cs) changes;
          ok = (case expected_rollback_count of
                  Some n \<Rightarrow> changes = [] \<or> check_rollback_count n st
                | None \<Rightarrow> True);
          ok = (ok \<and> (has_writes \<longrightarrow> list_all (\<lambda>(_, p, cs). prepare ops (st_heap st ! p) cs) changes));
          current_v = (case new_maps_conflict_version of Some v \<Rightarrow> v | None \<Rightarrow> st_version st);
          ok = (ok \<and> list_all (\<lambda>(nm, _). get_map_internal current_v nm st = None) new_maps)
      in if \<not> ok then (Inr None, st)
         else if \<not> has_writes then (Inr (Some (NoVersion, [])), st)
         else
           let ((version, _), st) = version_resolver (new_maps \<noteq> []) st
           in case add_new_maps version changes new_maps st of
                (Inl e, st) \<Rightarrow> (Inl e, st)
              | (Inr _, st) \<Rightarrow>
                  let (heap, commit_versions) = commit_views ops version track changes (st_heap st)
                  in (Inr (Some (version, post_commits heap changes commit_versions)), st\<lparr>st_heap := heap\<rparr>))"

section \<open>Serialising a transaction\<close>

definition LEDGER_CHUNK_AT_NEXT_SIGNATURE :: "8 word" where
  "LEDGER_CHUNK_AT_NEXT_SIGNATURE = 0x01"

definition TX_SNAPSHOT_AT_NEXT_SIGNATURE :: "8 word" where
  "TX_SNAPSHOT_AT_NEXT_SIGNATURE = 0x02"

definition LEDGER_CHUNK_BEFORE_THIS_TX :: "8 word" where
  "LEDGER_CHUNK_BEFORE_THIS_TX = 0x04"

definition FORCE_LEDGER_CHUNK_AFTER :: "8 word" where
  "FORCE_LEDGER_CHUNK_AFTER = 0x01"

definition FORCE_LEDGER_CHUNK_BEFORE :: "8 word" where
  "FORCE_LEDGER_CHUNK_BEFORE = 0x02"

definition set_tx_flag :: "8 word \<Rightarrow> 's kv_tx \<Rightarrow> 's kv_tx" where
  "set_tx_flag f tx = tx\<lparr>ct_flags := ct_flags tx OR f\<rparr>"

definition unset_tx_flag :: "8 word \<Rightarrow> 's kv_tx \<Rightarrow> 's kv_tx" where
  "unset_tx_flag f tx = tx\<lparr>ct_flags := ct_flags tx AND NOT f\<rparr>"

definition tx_flag_enabled :: "8 word \<Rightarrow> 's kv_tx \<Rightarrow> bool" where
  "tx_flag_enabled f tx \<longleftrightarrow> ct_flags tx AND f \<noteq> 0"

definition empty_claims :: bytes where
  "empty_claims = replicate sha256_size 0"

definition get_commit_evidence :: "'s kv_env \<Rightarrow> tx_id \<Rightarrow> kv_error + string" where
  "get_commit_evidence env txid =
     (case kv_commit_nonce env txid of
        Inl e \<Rightarrow> Inl e
      | Inr nonce \<Rightarrow> Inr (''ce:'' @ to_string (tx_view txid) @ ''.'' @ to_string (tx_seqno txid) @ '':'' @ to_hex nonce))"

text \<open>The changes of a transaction with the domains of their maps.\<close>

definition changes_with_domains ::
  "('s, 'h, 'z) store_scheme \<Rightarrow> 's ordered_changes \<Rightarrow> (string \<times> security_domain \<times> 's kv_changes) list"
where
  "changes_with_domains st changes = map (\<lambda>(_, p, cs). (km_name (st_heap st ! p), km_security_domain (st_heap st ! p), cs)) changes"

text \<open>The result is empty if nothing was written, else the entry with the commit evidence and its digest.\<close>

definition tx_serialise ::
  "'s kv_env \<Rightarrow> bytes option \<Rightarrow> 's kv_tx \<Rightarrow> ('s, 'h, 'z) store_scheme \<Rightarrow> (kv_error + (bytes \<times> bytes \<times> string) option) \<times> 's kv_tx"
where
  "tx_serialise env claims_digest tx st =
     (if \<not> ct_committed tx \<or> \<not> ct_success tx then (Inl LogicError, tx)
      else case claims_digest of
        None \<Rightarrow> (Inl LogicError, tx)
      | Some claims \<Rightarrow>
          if \<not> list_ex (\<lambda>(_, _, cs). has_writes cs) (ct_all_changes tx) then (Inr None, tx)
          else case st_encryptor st of
            None \<Rightarrow> (Inl SerialiserError, tx)
          | Some e \<Rightarrow>
              (let txid = \<lparr>tx_view = ct_commit_view tx, tx_seqno = ct_version tx\<rparr>
               in case get_commit_evidence env txid of
                    Inl err \<Rightarrow> (Inl err, tx)
                  | Inr commit_evidence \<Rightarrow>
                      let digest = kv_sha256 env (string_bytes commit_evidence);
                          tx = (if tx_flag_enabled LEDGER_CHUNK_BEFORE_THIS_TX tx
                                then tx\<lparr>ct_entry_flags := ct_entry_flags tx OR FORCE_LEDGER_CHUNK_BEFORE\<rparr> else tx);
                          wrapper = new_ser_wrapper (Some e) txid WriteSetWithCommitEvidenceAndClaims
                            (unat (ct_entry_flags tx)) digest claims False
                      in (case serialise_all (in_domain_order (changes_with_domains st (ct_all_changes tx))) wrapper of
                            Inl err \<Rightarrow> Inl err
                          | Inr s \<Rightarrow> map_sum id (\<lambda>data. Some (data, digest, commit_evidence)) (sw_get_raw_data s), tx)))"

section \<open>Signatures\<close>

definition should_create_ledger_chunk :: "'s kv_env \<Rightarrow> nat \<Rightarrow> ('s, 'h, 'z) store_scheme \<Rightarrow> bool \<times> ('s, 'h, 'z) store_scheme" where
  "should_create_ledger_chunk env v st =
     (let r = (case st_chunker st of Some c \<Rightarrow> is_chunk_end_requested c v | None \<Rightarrow> False)
      in if st_snapshotter st then (r \<or> kv_record_committable env (st_calls st) v, st_call (SnapshotterRecord v) st)
         else (r \<or> flag_enabled SNAPSHOT_AT_NEXT_SIGNATURE st, st))"

text \<open>A reserved transaction comes with the number of rollbacks at its creation.\<close>

definition create_reserved_tx :: "tx_id \<Rightarrow> ('s, 'h, 'z) store_scheme \<Rightarrow> 's kv_tx \<times> nat" where
  "create_reserved_tx txid st =
     (create_tx
        \<lparr>ct_version := tx_seqno txid, ct_commit_view := tx_view txid,
         ct_read_txid := Some \<lparr>tx_view = st_term_of_last_version st, tx_seqno = sub64 (tx_seqno txid) 1\<rparr>\<rparr>,
      st_rollback_count st)"

definition commit_reserved ::
  "'s kv_env \<Rightarrow> nat \<Rightarrow> 's kv_tx \<Rightarrow> ('s, 'h, 'z) store_scheme \<Rightarrow> (kv_error + 'h pending_info) \<times> 's kv_tx \<times> ('s, 'h, 'z) store_scheme"
where
  "commit_reserved env rollback_count tx st =
     (if ct_committed tx \<or> ct_all_changes tx = [] then (Inl LogicError, tx, st)
      else
        let v = ct_version tx
        in case apply_changes (kv_ops env) (ct_all_changes tx) (\<lambda>_ st. ((v, sub64 v 1), st)) (ct_created_maps tx) (Some v) False
               (Some rollback_count) st of
             (Inl e, st) \<Rightarrow> (Inl e, tx, st)
           | (Inr None, st) \<Rightarrow>
               if check_rollback_count rollback_count st then (Inl LogicError, tx\<lparr>ct_success := False\<rparr>, st)
               else (Inr \<lparr>pi_success = FAIL_NO_REPLICATE, pi_data = [], pi_claims_digest = Some empty_claims,
                          pi_commit_evidence_digest = replicate sha256_size 0, pi_hooks = []\<rparr>,
                     tx\<lparr>ct_success := False, ct_committed := True\<rparr>, st)
           | (Inr (Some (_, hooks)), st) \<Rightarrow>
               let (chunk, st) = should_create_ledger_chunk env v st;
                   tx = tx\<lparr>ct_success := True\<rparr>;
                   (tx, st) =
                     (if chunk then
                        (tx\<lparr>ct_entry_flags := ct_entry_flags tx OR FORCE_LEDGER_CHUNK_AFTER\<rparr>,
                         st\<lparr>st_chunker := map_option (\<lambda>c. produced_chunk_at c v) (st_chunker st)\<rparr>)
                      else (tx, st))
               in case tx_serialise env (Some empty_claims) (tx\<lparr>ct_committed := True\<rparr>) st of
                    (Inl e, tx) \<Rightarrow> (Inl e, tx, st)
                  | (Inr None, tx) \<Rightarrow>
                      (Inr \<lparr>pi_success = SUCCESS, pi_data = [], pi_claims_digest = Some empty_claims,
                           pi_commit_evidence_digest = replicate sha256_size 0, pi_hooks = hooks\<rparr>, tx, st)
                  | (Inr (Some (data, digest, _)), tx) \<Rightarrow>
                      (Inr \<lparr>pi_success = SUCCESS, pi_data = data, pi_claims_digest = Some empty_claims,
                           pi_commit_evidence_digest = digest, pi_hooks = hooks\<rparr>, tx, st))"

fun put_signatures ::
  "('s, bytes, 'w) map_ops \<Rightarrow> (string \<times> (kv_error + bytes \<times> bytes)) list \<Rightarrow> 's kv_tx \<Rightarrow> ('s, 'h, 'z) store_scheme \<Rightarrow>
   (kv_error + unit) \<times> 's kv_tx \<times> ('s, 'h, 'z) store_scheme"
where
  "put_signatures ops [] tx st = (Inr (), tx, st)"
| "put_signatures ops ((nm, value) # vs) tx st =
     (case get_handle_by_name ops nm False tx st of
        (Inl e, tx, st) \<Rightarrow> (Inl e, tx, st)
      | (Inr _, tx, st) \<Rightarrow>
          (case value of
             Inl e \<Rightarrow> (Inl e, tx, st)
           | Inr (k, v) \<Rightarrow> put_signatures ops vs (through_handle nm (\<lambda>cs. handle_put cs k v) tx) st))"

fun pending_call :: "'s kv_env \<Rightarrow> 'h pending_tx \<Rightarrow> ('s, 'h, 'z) store_scheme \<Rightarrow> (kv_error + 'h pending_info) \<times> ('s, 'h, 'z) store_scheme" where
  "pending_call env (MovePendingTx data claims_digest digest hooks) st =
     (Inr \<lparr>pi_success = SUCCESS, pi_data = data, pi_claims_digest = claims_digest, pi_commit_evidence_digest = digest,
          pi_hooks = hooks\<rparr>, st)"
| "pending_call env (SignaturePendingTx txid) st =
     (let (sig, rollback_count) = create_reserved_tx txid st
      in case put_signatures (kv_ops env) (kv_sign env (st_calls st) txid) sig st of
           (Inl e, sig, st) \<Rightarrow> (Inl e, st)
         | (Inr _, sig, st) \<Rightarrow>
             let (r, sig, st) = commit_reserved env rollback_count sig st in (r, st))"

section \<open>Replication in the order of versions\<close>

text \<open>
  \<^verbatim>\<open>Store::commit\<close> collects the pending transactions from the last replicated version on (\<open>commit_begin\<close>), calls
  each of them (\<open>commit_call\<close>), hands the batch to the consensus and takes note of its answer (\<open>commit_finish\<close>). The
  lock of the versions is free between these steps. A cursor holds the local variables.
\<close>

type_synonym 'h batch = "(nat \<times> bytes \<times> bool \<times> 'h list) list"

record 'h commit_cursor =
  cc_contiguous :: "('h pending_tx \<times> bool) list"
  cc_batch :: "'h batch"
  cc_previous_last_replicated :: nat
  cc_next_last_replicated :: nat
  cc_previous_rollback_count :: nat
  cc_replication_view :: nat
  cc_offset :: nat

function collect_contiguous ::
  "nat \<Rightarrow> (nat \<times> 'a) list \<Rightarrow> 'a list \<times> (nat \<times> 'a) list"
where
  "collect_contiguous v pending =
     (case map_of pending (Suc v) of
        None \<Rightarrow> ([], pending)
      | Some x \<Rightarrow>
          (let (xs, rest) = collect_contiguous (Suc v) (filter (\<lambda>e. fst e \<noteq> Suc v) pending) in (x # xs, rest)))"
  by pat_completeness auto

termination
proof (relation "measure (\<lambda>(v, pending). length pending)")
  fix v x and pending :: "(nat \<times> 'a) list"
  assume "map_of pending (Suc v) = Some x"
  then have "(Suc v, x) \<in> set pending" by (rule map_of_SomeD)
  then have "length (filter (\<lambda>e. fst e \<noteq> Suc v) pending) < length pending" by (rule length_filter_less) simp
  then show "((Suc v, filter (\<lambda>e. fst e \<noteq> Suc v) pending), (v, pending)) \<in> measure (\<lambda>(v, pending). length pending)" by simp
qed simp

declare collect_contiguous.simps [simp del]

definition commit_begin ::
  "bool \<Rightarrow> tx_id \<Rightarrow> 'h pending_tx \<Rightarrow> bool \<Rightarrow> ('s, 'h, 'z) store_scheme \<Rightarrow> (commit_result + 'h commit_cursor) \<times> ('s, 'h, 'z) store_scheme"
where
  "commit_begin is_primary txid pending_tx globally_committable st =
     (if tx_view txid \<noteq> st_term_of_next_version st \<and> is_primary then (Inl FAIL_NO_REPLICATE, st)
      else
        let st = (if globally_committable \<and> st_last_committable st < tx_seqno txid
                  then st\<lparr>st_last_committable := tx_seqno txid\<rparr> else st);
            pending = (if map_of (st_pending_txs st) (tx_seqno txid) = None
                       then (tx_seqno txid, pending_tx, globally_committable) # st_pending_txs st else st_pending_txs st);
            (contiguous, pending) = collect_contiguous (st_last_replicated st) pending;
            st = st\<lparr>st_pending_txs := pending\<rparr>
        in if contiguous = [] then (Inl SUCCESS, st)
           else (Inr \<lparr>cc_contiguous = contiguous, cc_batch = [], cc_previous_last_replicated = st_last_replicated st,
                     cc_next_last_replicated = st_last_replicated st + length contiguous,
                     cc_previous_rollback_count = st_rollback_count st,
                     cc_replication_view = st_term_of_next_version st, cc_offset = 1\<rparr>, st))"

definition commit_call ::
  "'s kv_env \<Rightarrow> 'h pending_tx \<times> bool \<Rightarrow> 'h commit_cursor \<Rightarrow> ('s, 'h, 'z) store_scheme \<Rightarrow>
   (kv_error + commit_result + 'h commit_cursor) \<times> ('s, 'h, 'z) store_scheme"
where
  "commit_call env next_tx cur st =
     (case pending_call env (fst next_tx) st of
        (Inl e, st) \<Rightarrow> (Inl e, st)
      | (Inr info, st) \<Rightarrow>
          if pi_success info = FAIL_NO_REPLICATE then (Inr (Inl FAIL_NO_REPLICATE), st)
          else
            let st = call_if (st_history st)
                  (HistoryAppend (pi_data info) (Some (pi_commit_evidence_digest info)) (pi_claims_digest info)
                    (Some (cc_replication_view cur))) st;
                st = st\<lparr>st_chunker := map_option (\<lambda>c. append_entry_size c (length (pi_data info))) (st_chunker st)\<rparr>
            in (Inr (Inr (cur\<lparr>cc_batch := cc_batch cur @
                    [(cc_previous_last_replicated cur + cc_offset cur, pi_data info, snd next_tx, pi_hooks info)],
                  cc_offset := cc_offset cur + 1\<rparr>)), st))"

primrec commit_calls ::
  "'s kv_env \<Rightarrow> ('h pending_tx \<times> bool) list \<Rightarrow> 'h commit_cursor \<Rightarrow> ('s, 'h, 'z) store_scheme \<Rightarrow>
   (kv_error + commit_result + 'h commit_cursor) \<times> ('s, 'h, 'z) store_scheme"
where
  "commit_calls env [] cur st = (Inr (Inr cur), st)"
| "commit_calls env (p # ps) cur st =
     (case commit_call env p cur st of
        (Inr (Inr cur), st) \<Rightarrow> commit_calls env ps cur st
      | (r, st) \<Rightarrow> (r, st))"

definition commit_finish :: "bool \<Rightarrow> 'h commit_cursor \<Rightarrow> ('s, 'h, 'z) store_scheme \<Rightarrow> commit_result \<times> ('s, 'h, 'z) store_scheme" where
  "commit_finish replicated cur st =
     (if replicated then
        (SUCCESS,
         if st_last_replicated st = cc_previous_last_replicated cur \<and> cc_previous_rollback_count cur = st_rollback_count st
         then st\<lparr>st_last_replicated := cc_next_last_replicated cur\<rparr> else st)
      else (FAIL_NO_REPLICATE, st))"

text \<open>
  The consensus, if there is one, says whether it is primary, and takes a batch in a view. It may call the store
  before it answers.
\<close>

type_synonym ('s, 'h, 'z) consensus = "bool \<times> ('h batch \<Rightarrow> nat \<Rightarrow> ('s, 'h, 'z) store_scheme \<Rightarrow> bool \<times> ('s, 'h, 'z) store_scheme)"

definition store_commit ::
  "'s kv_env \<Rightarrow> ('s, 'h, 'z) consensus option \<Rightarrow> tx_id \<Rightarrow> 'h pending_tx \<Rightarrow> bool \<Rightarrow> ('s, 'h, 'z) store_scheme \<Rightarrow>
   (kv_error + commit_result) \<times> ('s, 'h, 'z) store_scheme"
where
  "store_commit env consensus txid pending_tx globally_committable st =
     (case consensus of
        None \<Rightarrow> (Inr SUCCESS, st)
      | Some (is_primary, hand_over) \<Rightarrow>
          (case commit_begin is_primary txid pending_tx globally_committable st of
             (Inl r, st) \<Rightarrow> (Inr r, st)
           | (Inr cur, st) \<Rightarrow>
               (case commit_calls env (cc_contiguous cur) cur st of
                  (Inl e, st) \<Rightarrow> (Inl e, st)
                | (Inr (Inl r), st) \<Rightarrow> (Inr r, st)
                | (Inr (Inr cur), st) \<Rightarrow>
                    let (replicated, st) = hand_over (cc_batch cur) (cc_replication_view cur) st;
                        (r, st) = commit_finish replicated cur st
                    in (Inr r, st))))"

section \<open>Committing a transaction\<close>

definition tx_commit ::
  "'s kv_env \<Rightarrow> ('s, 'h, 'z) consensus option \<Rightarrow> bytes option \<Rightarrow>
   (bool \<Rightarrow> ('s, 'h, 'z) store_scheme \<Rightarrow> (nat \<times> nat) \<times> ('s, 'h, 'z) store_scheme) \<Rightarrow> bool \<Rightarrow> 's kv_tx \<Rightarrow> ('s, 'h, 'z) store_scheme \<Rightarrow>
   (kv_error + commit_result) \<times> 's kv_tx \<times> ('s, 'h, 'z) store_scheme"
where
  "tx_commit env consensus claims version_resolver observed tx st =
     (if ct_committed tx then (Inl LogicError, tx, st)
      else if ct_all_changes tx = [] then (Inr SUCCESS, tx\<lparr>ct_committed := True, ct_success := True\<rparr>, st)
      else
        case apply_changes (kv_ops env) (ct_all_changes tx) version_resolver (ct_created_maps tx) None False None st of
          (Inl e, st) \<Rightarrow> (Inl e, tx, st)
        | (Inr None, st) \<Rightarrow> (Inr FAIL_CONFLICT, tx\<lparr>ct_success := False\<rparr>, st)
        | (Inr (Some (v, hooks)), st) \<Rightarrow>
            let tx = tx\<lparr>ct_success := True, ct_committed := True, ct_version := v\<rparr>;
                st = (if tx_flag_enabled LEDGER_CHUNK_AT_NEXT_SIGNATURE tx
                      then st\<lparr>st_chunker := map_option (\<lambda>c. force_end_of_chunk c v) (st_chunker st)\<rparr> else st);
                (tx, st) =
                  (if tx_flag_enabled TX_SNAPSHOT_AT_NEXT_SIGNATURE tx
                   then (unset_tx_flag TX_SNAPSHOT_AT_NEXT_SIGNATURE tx, set_flag SNAPSHOT_AT_NEXT_SIGNATURE st) else (tx, st))
            in if v = NoVersion then (Inr SUCCESS, tx, st)
               else case tx_serialise env claims tx st of
                   (Inl e, tx) \<Rightarrow> (Inl SerialiserError, tx\<lparr>ct_committed := False\<rparr>, st)
                 | (Inr None, tx) \<Rightarrow> (Inr SUCCESS, tx, st)
                 | (Inr (Some (data, digest, evidence)), tx) \<Rightarrow>
                     let st = call_if observed (WriteSetObserved (kv_sha256 env data) evidence) st
                     in case store_commit env consensus \<lparr>tx_view = ct_commit_view tx, tx_seqno = v\<rparr>
                            (MovePendingTx data claims digest hooks) False st of
                          (Inl e, st) \<Rightarrow> (Inl SerialiserError, tx\<lparr>ct_committed := False\<rparr>, st)
                        | (Inr r, st) \<Rightarrow> (Inr r, tx, st))"

definition commit_version :: "'s kv_tx \<Rightarrow> kv_error + nat" where
  "commit_version tx = (if \<not> ct_committed tx \<or> \<not> ct_success tx then Inl LogicError else Inr (ct_version tx))"

definition commit_term :: "'s kv_tx \<Rightarrow> kv_error + nat" where
  "commit_term tx = (if \<not> ct_committed tx \<or> \<not> ct_success tx then Inl LogicError else Inr (ct_commit_view tx))"

definition get_txid :: "'s kv_tx \<Rightarrow> kv_error + tx_id option" where
  "get_txid tx =
     (if \<not> ct_committed tx then Inl LogicError
      else case ct_read_txid tx of
        None \<Rightarrow> Inr None
      | Some read_txid \<Rightarrow>
          Inr (Some (if ct_version tx = NoVersion then read_txid
                     else \<lparr>tx_view = ct_commit_view tx, tx_seqno = ct_version tx\<rparr>)))"

definition set_read_txid :: "tx_id \<Rightarrow> nat \<Rightarrow> 's kv_tx \<Rightarrow> kv_error + 's kv_tx" where
  "set_read_txid txid view tx =
     (if ct_read_txid tx \<noteq> None then Inl LogicError
      else Inr (tx\<lparr>ct_read_txid := Some txid, ct_commit_view := view\<rparr>))"

section \<open>Compaction and rollback\<close>

definition update_cells ::
  "(('s, 'h) kv_cell \<Rightarrow> ('s, 'h) kv_cell) \<Rightarrow> ('s, 'h, 'z) store_scheme \<Rightarrow> ('s, 'h, 'z) store_scheme"
where
  "update_cells f st = st\<lparr>st_heap := foldl (\<lambda>heap (_, _, p). heap[p := f (heap ! p)]) (st_heap st) (st_maps st)\<rparr>"

definition post_compact_calls :: "('s, 'h, 'z) store_scheme \<Rightarrow> store_call list" where
  "post_compact_calls st =
     concat (map (\<lambda>(_, _, p). map (\<lambda>(v, w). GlobalHook (km_name (st_heap st ! p)) v w) (snd (map_post_compact (st_heap st ! p))))
       (st_maps st))"

definition compact_store :: "bool \<Rightarrow> nat \<Rightarrow> ('s, 'h, 'z) store_scheme \<Rightarrow> ('s, 'h, 'z) store_scheme" where
  "compact_store is_primary v st =
     (let st = call_if (st_snapshotter st) (SnapshotterCommit v is_primary) st;
          st = st\<lparr>st_chunker := map_option (\<lambda>c. compacted_to c v) (st_chunker st)\<rparr>
      in if st_version st < v then st
         else
           let st = (update_cells (map_compact v) st)\<lparr>st_compacted := v\<rparr>;
               st = call_if (st_history st) (HistoryCompact v) st
           in (update_cells (fst \<circ> map_post_compact) st)\<lparr>st_calls := st_calls st @ post_compact_calls st\<rparr>)"

definition store_rollback :: "tx_id \<Rightarrow> nat \<Rightarrow> ('s, 'h, 'z) store_scheme \<Rightarrow> (kv_error + unit) \<times> ('s, 'h, 'z) store_scheme" where
  "store_rollback txid term_of_next_version st =
     (let st = call_if (st_snapshotter st) (SnapshotterRollback (tx_seqno txid)) st;
          st = st\<lparr>st_chunker := map_option (\<lambda>c. rolled_back_to c (tx_seqno txid)) (st_chunker st)\<rparr>
      in if tx_seqno txid < st_compacted st then (Inl LogicError, st)
         else
           let st = st\<lparr>st_term_of_next_version := term_of_next_version, st_term_of_last_version := tx_view txid\<rparr>;
               st = call_if (st_history st) (HistoryRollback txid term_of_next_version) st
           in if st_version st \<le> tx_seqno txid then (Inr (), st)
              else
                let st = unset_flag SNAPSHOT_AT_NEXT_SIGNATURE
                      (st\<lparr>st_version := tx_seqno txid, st_last_replicated := tx_seqno txid,
                          st_last_committable := min (st_last_committable st) (tx_seqno txid),
                          st_rollback_count := st_rollback_count st + 1, st_pending_txs := []\<rparr>);
                    st = call_if (st_encryptor st \<noteq> None) (EncryptorRollback (tx_seqno txid)) st;
                    st = update_cells (map_rollback (tx_seqno txid)) st
                in (Inr (), st\<lparr>st_maps := filter (\<lambda>(_, v, _). v \<le> tx_seqno txid) (st_maps st)\<rparr>))"

section \<open>Swapping private maps\<close>

fun swap_targets ::
  "('s, bytes, 'w) map_ops \<Rightarrow> (string \<times> map_ptr) list \<Rightarrow> ('s, 'h, 'z) store_scheme \<Rightarrow> (kv_error + (map_ptr \<times> map_ptr) list) \<times> ('s, 'h, 'z) store_scheme"
where
  "swap_targets ops [] st = (Inr [], st)"
| "swap_targets ops ((nm, theirs) # entries) st =
     (let (mine, st) =
        (case map_of (st_maps st) nm of
           None \<Rightarrow>
             (let (p, st) = alloc_map ops nm PRIVATE st
              in (Some p, st\<lparr>st_maps := omap_set nm (NoVersion, p) (st_maps st)\<rparr>))
         | Some (_, p) \<Rightarrow> (if km_security_domain (st_heap st ! p) = PRIVATE then Some p else None, st))
      in case mine of
           None \<Rightarrow> (Inl LogicError, st)
         | Some p \<Rightarrow>
             (case swap_targets ops entries st of
                (Inl e, st) \<Rightarrow> (Inl e, st)
              | (Inr ps, st) \<Rightarrow> (Inr ((p, theirs) # ps), st)))"

fun swap_cells :: "(map_ptr \<times> map_ptr) list \<Rightarrow> ('s, 'h, 'z) store_scheme \<Rightarrow> ('s, 'h, 'z) store_scheme \<Rightarrow> ('s, 'h, 'z) store_scheme \<times> ('s, 'h, 'z) store_scheme" where
  "swap_cells [] st source = (st, source)"
| "swap_cells ((p, q) # ps) st source =
     (let (m, m') = map_swap (st_heap st ! p) (st_heap source ! q)
      in swap_cells ps (set_cell p m st) (set_cell q m' source))"

definition swap_private_maps ::
  "('s, bytes, 'w) map_ops \<Rightarrow> ('s, 'h, 'z) store_scheme \<Rightarrow> ('s, 'h, 'z) store_scheme \<Rightarrow> (kv_error + unit) \<times> ('s, 'h, 'z) store_scheme \<times> ('s, 'h, 'z) store_scheme"
where
  "swap_private_maps ops st source =
     (if st_version st < st_version source then (Inl RuntimeError, st, source)
      else
        let entries = [(nm, p). (nm, _, p) \<leftarrow> st_maps source, km_security_domain (st_heap source ! p) = PRIVATE]
        in case swap_targets ops entries st of
             (Inl e, st) \<Rightarrow> (Inl e, st, source)
           | (Inr ps, st) \<Rightarrow> (Inr (), swap_cells ps st source))"

end
