(* ===== verification/KV_Pipeline.thy ===== *)
theory KV_Pipeline
  imports KV_Store
begin

text \<open>
  The order in which committed transactions reach the consensus: transactions get their versions one after the
  other, but their threads may call \<^verbatim>\<open>Store::commit\<close> in any order.
\<close>

section \<open>Collecting and calling\<close>

lemma collect_contiguous_spec:
  assumes "collect_contiguous v ps = (xs, rest)"
  shows "(\<forall>i<length xs. map_of ps (Suc (v + i)) = Some (xs ! i)) \<and> map_of ps (Suc (v + length xs)) = None \<and>
    map_of rest = (\<lambda>u. if v < u \<and> u \<le> v + length xs then None else map_of ps u)"
  using assms
proof (induction v ps arbitrary: xs rest rule: collect_contiguous.induct)
  case (1 v ps)
  show ?case
  proof (cases "map_of ps (Suc v)")
    case None
    then have "xs = []" "rest = ps" using "1.prems" by (simp_all add: collect_contiguous.simps [of v ps])
    then show ?thesis using None by (auto simp: fun_eq_iff)
  next
    case (Some x)
    let ?ps = "filter (\<lambda>e. fst e \<noteq> Suc v) ps"
    obtain ys where ys: "collect_contiguous (Suc v) ?ps = (ys, rest)" "xs = x # ys"
      using "1.prems" Some by (auto simp: collect_contiguous.simps [of v ps] split: prod.splits)
    have f: "map_of ?ps u = (if u = Suc v then None else map_of ps u)" for u
      by (induction ps) auto
    note IH = "1.IH" [OF Some ys(1)]
    have "map_of ps (Suc (v + i)) = Some (xs ! i)" if "i < length xs" for i
      using that IH Some f by (cases i) (auto simp: ys(2))
    moreover have "map_of ps (Suc (v + length xs)) = None" using IH f by (auto simp: ys(2))
    moreover have "map_of rest u = (if v < u \<and> u \<le> v + length xs then None else map_of ps u)" for u
      using IH f [of u] by (auto simp: ys(2))
    ultimately show ?thesis by blast
  qed
qed

text \<open>What a pipeline step leaves alone, apart from the answer of the consensus.\<close>

definition same_pipeline :: "('s, 'h, 'z) store_scheme \<Rightarrow> ('s, 'h, 'z) store_scheme \<Rightarrow> bool" where
  "same_pipeline st st' \<longleftrightarrow>
     st_pending_txs st' = st_pending_txs st \<and> st_last_replicated st' = st_last_replicated st \<and>
     st_rollback_count st' = st_rollback_count st \<and> st_term_of_next_version st' = st_term_of_next_version st \<and>
     store.more st' = store.more st"

lemma same_pipeline_refl [simp]: "same_pipeline st st"
  by (simp add: same_pipeline_def)

lemma same_pipeline_trans: "same_pipeline a b \<Longrightarrow> same_pipeline b c \<Longrightarrow> same_pipeline a c"
  by (simp add: same_pipeline_def)

fun entry_of :: "nat \<times> 'h pending_tx \<times> bool \<Rightarrow> nat \<times> bytes \<times> bool \<times> 'h list" where
  "entry_of (v, MovePendingTx data _ _ hooks, committable) = (v, data, committable, hooks)"
| "entry_of (v, SignaturePendingTx _, committable) = (v, [], committable, [])"

fun is_move :: "'h pending_tx \<Rightarrow> bool" where
  "is_move (MovePendingTx _ _ _ _) = True"
| "is_move (SignaturePendingTx _) = False"

lemma commit_call_move:
  assumes "is_move (fst p)"
  shows "\<exists>st'. commit_call env p cur st =
      (Inr (Inr (cur\<lparr>cc_batch := cc_batch cur @ [entry_of (cc_previous_last_replicated cur + cc_offset cur, p)],
                    cc_offset := cc_offset cur + 1\<rparr>)), st') \<and> same_pipeline st st'"
proof -
  obtain data c d h b where p: "p = (MovePendingTx data c d h, b)" using assms by (cases p; cases "fst p") auto
  show ?thesis unfolding p by (simp add: commit_call_def same_pipeline_def call_if_def st_call_def Let_def)
qed

lemma commit_calls_moves:
  assumes "list_all (is_move \<circ> fst) ps"
  shows "\<exists>st'. commit_calls env ps cur st =
      (Inr (Inr (cur\<lparr>cc_batch := cc_batch cur @
          map entry_of (zip [cc_previous_last_replicated cur + cc_offset cur..<cc_previous_last_replicated cur + cc_offset cur + length ps] ps),
          cc_offset := cc_offset cur + length ps\<rparr>)), st') \<and> same_pipeline st st'"
  using assms
proof (induction ps arbitrary: cur st)
  case (Cons p ps)
  let ?i = "cc_previous_last_replicated cur + cc_offset cur"
  let ?cur = "cur\<lparr>cc_batch := cc_batch cur @ [entry_of (?i, p)], cc_offset := cc_offset cur + 1\<rparr>"
  obtain st1 where st1: "commit_call env p cur st = (Inr (Inr ?cur), st1)" "same_pipeline st st1"
    using commit_call_move [of p env cur st] Cons.prems by auto
  obtain st2 where st2: "commit_calls env ps ?cur st1 =
      (Inr (Inr (?cur\<lparr>cc_batch := cc_batch ?cur @ map entry_of (zip [Suc ?i..<Suc ?i + length ps] ps),
          cc_offset := cc_offset ?cur + length ps\<rparr>)), st2)" "same_pipeline st1 st2"
    using Cons.IH [of ?cur st1] Cons.prems by auto
  have "[?i..<?i + length (p # ps)] = ?i # [Suc ?i..<Suc ?i + length ps]" by (simp add: upt_conv_Cons del: upt_Suc)
  then show ?case using st1 st2 by (auto intro: same_pipeline_trans)
qed simp

section \<open>A consensus that accepts\<close>

record ('s, 'h) ledger_store = "('s, 'h) store" +
  ls_ledger :: "'h batch"

definition accept :: "'h batch \<Rightarrow> nat \<Rightarrow> ('s, 'h) ledger_store \<Rightarrow> bool \<times> ('s, 'h) ledger_store" where
  "accept b view st = (True, st\<lparr>ls_ledger := ls_ledger st @ b\<rparr>)"

primrec commit_all ::
  "'s kv_env \<Rightarrow> nat \<Rightarrow> (nat \<times> 'h pending_tx \<times> bool) list \<Rightarrow> ('s, 'h) ledger_store \<Rightarrow>
   (kv_error + commit_result) list \<times> ('s, 'h) ledger_store"
where
  "commit_all env view [] st = ([], st)"
| "commit_all env view (t # ts) st =
     (let (r, st) = store_commit env (Some (True, accept)) \<lparr>tx_view = view, tx_seqno = fst t\<rparr> (fst (snd t)) (snd (snd t)) st;
          (rs, st) = commit_all env view ts st
      in (r # rs, st))"

text \<open>
  After some of the transactions have committed, the longest run of versions without a gap has been handed over and
  the others are pending.
\<close>

definition replicated_up_to ::
  "nat \<Rightarrow> nat \<Rightarrow> 'h batch \<Rightarrow> (nat \<rightharpoonup> 'h pending_tx \<times> bool) \<Rightarrow> ('s, 'h) ledger_store \<Rightarrow> bool"
where
  "replicated_up_to view lr ledger txs st \<longleftrightarrow>
     (\<exists>k. st_last_replicated st = lr + k \<and> st_term_of_next_version st = view \<and>
        (\<forall>i<k. txs (Suc (lr + i)) \<noteq> None) \<and> txs (Suc (lr + k)) = None \<and>
        ls_ledger st = ledger @ map (\<lambda>v. entry_of (v, the (txs v))) [Suc lr..<Suc (lr + k)] \<and>
        map_of (st_pending_txs st) = (\<lambda>v. if lr + k < v then txs v else None))"

lemma commit_replicates:
  fixes st :: "('s, 'h) ledger_store"
  assumes inv: "replicated_up_to view lr ledger txs st" and new: "txs v = None" "lr < v"
    and moves: "\<And>u p. (txs(v \<mapsto> t)) u = Some p \<Longrightarrow> is_move (fst p)"
  shows "\<exists>st'. store_commit env (Some (True, accept)) \<lparr>tx_view = view, tx_seqno = v\<rparr> (fst t) (snd t) st = (Inr SUCCESS, st') \<and>
    replicated_up_to view lr ledger (txs(v \<mapsto> t)) st'"
proof -
  obtain k where k: "st_last_replicated st = lr + k" "st_term_of_next_version st = view"
    "\<forall>i<k. txs (Suc (lr + i)) \<noteq> None" "txs (Suc (lr + k)) = None"
    "ls_ledger st = ledger @ map (\<lambda>v. entry_of (v, the (txs v))) [Suc lr..<Suc (lr + k)]"
    "map_of (st_pending_txs st) = (\<lambda>v. if lr + k < v then txs v else None)"
    using inv by (auto simp: replicated_up_to_def)
  let ?txs = "txs(v \<mapsto> t)" and ?pending = "(v, t) # st_pending_txs st"
  have v: "lr + k < v"
  proof (rule ccontr)
    assume "\<not> lr + k < v"
    then have "v - Suc lr < k" "Suc (lr + (v - Suc lr)) = v" using new(2) by auto
    then show False using k(3) new(1) by metis
  qed
  have p: "map_of (st_pending_txs st) v = None" "map_of ?pending = (\<lambda>u. if lr + k < u then ?txs u else None)"
    using new(1) v by (auto simp: k(6) fun_eq_iff)
  obtain xs rest where c: "collect_contiguous (lr + k) ?pending = (xs, rest)" by (rule prod.exhaust)
  note C = collect_contiguous_spec [OF c, unfolded p(2)]
  have xs: "?txs (Suc (lr + k + i)) = Some (xs ! i)" if "i < length xs" for i using C that by auto
  define st1 where "st1 = (if snd t \<and> st_last_committable st < v then st\<lparr>st_last_committable := v\<rparr> else st)\<lparr>st_pending_txs := rest\<rparr>"
  have st1: "st_last_replicated st1 = lr + k" "st_term_of_next_version st1 = view" "ls_ledger st1 = ls_ledger st"
    "st_pending_txs st1 = rest" "st_rollback_count st1 = st_rollback_count st"
    using k by (simp_all add: st1_def)
  let ?cur = "\<lparr>cc_contiguous = xs, cc_batch = [], cc_previous_last_replicated = lr + k,
      cc_next_last_replicated = lr + k + length xs, cc_previous_rollback_count = st_rollback_count st1,
      cc_replication_view = view, cc_offset = 1\<rparr>"
  have b: "commit_begin True \<lparr>tx_view = view, tx_seqno = v\<rparr> (fst t) (snd t) st =
      (if xs = [] then (Inl SUCCESS, st1) else (Inr ?cur, st1))"
    using k(1,2) p(1) c by (cases t; cases "snd t") (simp_all add: commit_begin_def Let_def st1_def)
  let ?new = "map (\<lambda>u. entry_of (u, the (?txs u))) [Suc (lr + k)..<Suc (lr + k) + length xs]"
  have old: "map (\<lambda>u. entry_of (u, the (txs u))) [Suc lr..<Suc (lr + k)] = map (\<lambda>u. entry_of (u, the (?txs u))) [Suc lr..<Suc (lr + k)]"
    using v by (auto simp: fun_upd_def)
  have ledger: "ls_ledger st @ ?new = ledger @ map (\<lambda>u. entry_of (u, the (?txs u))) [Suc lr..<Suc (lr + (k + length xs))]"
  proof -
    have "[Suc lr..<Suc (lr + (k + length xs))] = [Suc lr..<Suc (lr + k)] @ [Suc (lr + k)..<Suc (lr + k) + length xs]"
      using upt_add_eq_append [of "Suc lr" "Suc (lr + k)" "length xs"] by (simp add: add.assoc del: upt_Suc)
    then show ?thesis unfolding k(5) old by (simp del: upt_Suc fun_upd_apply)
  qed
  have before: "?txs (Suc (lr + i)) \<noteq> None" if "i < k + length xs" for i
  proof (cases "i < k")
    case True
    then show ?thesis using k(3) by simp
  next
    case False
    then have "Suc (lr + i) = Suc (lr + k + (i - k))" "i - k < length xs" using that by simp_all
    then show ?thesis using xs [of "i - k"] by simp
  qed
  have reached: "replicated_up_to view lr ledger ?txs st2"
    if "st_last_replicated st2 = lr + k + length xs" "st_term_of_next_version st2 = view" "st_pending_txs st2 = rest"
      "ls_ledger st2 = ls_ledger st @ ?new" for st2 :: "('s, 'h) ledger_store"
    unfolding replicated_up_to_def
  proof (intro exI conjI)
    show "?txs (Suc (lr + (k + length xs))) = None" using C by (auto simp: add.assoc)
    show "map_of (st_pending_txs st2) = (\<lambda>u. if lr + (k + length xs) < u then ?txs u else None)"
      unfolding that(3) using C by (auto simp: fun_eq_iff)
  qed (use that ledger before in \<open>simp_all add: add.assoc del: upt_Suc fun_upd_apply\<close>)
  show ?thesis
  proof (cases "xs = []")
    case True
    then have "replicated_up_to view lr ledger ?txs st1" by (intro reached) (simp_all add: st1)
    then show ?thesis using b True by (simp add: store_commit_def)
  next
    case False
    have "is_move (fst x)" if "x \<in> set xs" for x
      using that xs moves by (metis in_set_conv_nth)
    then have moves: "list_all (is_move \<circ> fst) xs" by (simp add: list_all_iff)
    define N where "N = ?new"
    have batch: "map entry_of (zip [lr + k + 1..<lr + k + 1 + length xs] xs) = N"
      unfolding N_def by (rule nth_equalityI) (auto simp: xs nth_append simp del: upt_Suc fun_upd_apply)
    obtain st2 where st2: "commit_calls env xs ?cur st1 =
        (Inr (Inr (?cur\<lparr>cc_batch := N, cc_offset := 1 + length xs\<rparr>)), st2)" "same_pipeline st1 st2"
      using commit_calls_moves [OF moves, of env ?cur st1, unfolded commit_cursor.simps append_Nil batch] by auto
    have ls: "ls_ledger st2 = ls_ledger st1" using st2(2) by (cases st1; cases st2) (simp add: same_pipeline_def)
    let ?st3 = "st2\<lparr>ls_ledger := ls_ledger st2 @ N, st_last_replicated := lr + k + length xs\<rparr>"
    have "store_commit env (Some (True, accept)) \<lparr>tx_view = view, tx_seqno = v\<rparr> (fst t) (snd t) st = (Inr SUCCESS, ?st3)"
      using st2 st1 False by (simp add: store_commit_def b accept_def commit_finish_def same_pipeline_def)
    moreover have "replicated_up_to view lr ledger ?txs ?st3"
      using st2(2) by (intro reached) (simp_all add: st1 ls N_def same_pipeline_def del: upt_Suc fun_upd_apply)
    ultimately show ?thesis by blast
  qed
qed

lemma commit_all_replicates:
  assumes "replicated_up_to view lr ledger txs st" "distinct (map fst ts)" "\<forall>t\<in>set ts. lr < fst t \<and> txs (fst t) = None"
    and "\<forall>p\<in>ran txs \<union> snd ` set ts. is_move (fst p)"
  shows "\<exists>st'. commit_all env view ts st = (replicate (length ts) (Inr SUCCESS), st') \<and>
    replicated_up_to view lr ledger (txs ++ map_of ts) st'"
  using assms
proof (induction ts arbitrary: txs st)
  case (Cons t ts)
  obtain v p where t: "t = (v, p)" by (rule prod.exhaust)
  have "is_move (fst q)" if "(txs(v \<mapsto> p)) u = Some q" for u q
    using that Cons.prems(4) by (auto simp: t ran_def split: if_splits)
  then obtain st1 where st1: "store_commit env (Some (True, accept)) \<lparr>tx_view = view, tx_seqno = v\<rparr> (fst p) (snd p) st = (Inr SUCCESS, st1)"
    "replicated_up_to view lr ledger (txs(v \<mapsto> p)) st1"
    using commit_replicates [OF Cons.prems(1), of v p env] Cons.prems(3) by (auto simp: t)
  have u: "\<forall>t\<in>set ts. lr < fst t \<and> (txs(v \<mapsto> p)) (fst t) = None" using Cons.prems(2,3) by (force simp: t)
  have m: "\<forall>q\<in>ran (txs(v \<mapsto> p)) \<union> snd ` set ts. is_move (fst q)" using Cons.prems(4) by (auto simp: t ran_def)
  obtain st2 where "commit_all env view ts st1 = (replicate (length ts) (Inr SUCCESS), st2)"
    "replicated_up_to view lr ledger (txs(v \<mapsto> p) ++ map_of ts) st2"
    using Cons.IH [OF st1(2) _ u m] Cons.prems(2) by (auto simp del: fun_upd_apply)
  moreover have "txs(v \<mapsto> p) ++ map_of ts = txs ++ map_of (t # ts)"
  proof -
    have "map_of ts v = None" using Cons.prems(2) by (simp add: t map_of_eq_None_iff)
    then show ?thesis by (auto simp: t map_add_def fun_eq_iff split: option.split)
  qed
  ultimately show ?case using st1(1) by (simp add: t del: fun_upd_apply)
qed (simp add: map_add_def)

section \<open>Properties\<close>

text \<open>
  C37. Everything committed is replicated. Let \<open>n\<close> transactions have the versions that follow the last replicated
  one, and let them call \<^verbatim>\<open>Store::commit\<close> in any order, on a primary in their view whose consensus accepts batches.
  Then every call succeeds, nothing is left pending, and the consensus has received every transaction once, in the
  order of their versions.
\<close>

theorem commits_all_replicated:
  fixes st :: "('s, 'h) ledger_store"
  assumes "st_pending_txs st = []" "st_term_of_next_version st = view" "distinct (map fst txs)"
    "fst ` set txs = {st_last_replicated st<..st_last_replicated st + n}" "\<forall>t\<in>set txs. is_move (fst (snd t))"
  shows "\<exists>st'. commit_all env view txs st = (replicate n (Inr SUCCESS), st') \<and>
    st_last_replicated st' = st_last_replicated st + n \<and> st_pending_txs st' = [] \<and>
    ls_ledger st' = ls_ledger st @ map entry_of (sort_key fst txs)"
proof -
  let ?lr = "st_last_replicated st" and ?txs = "map_of txs"
  have "card (fst ` set txs) = length txs" using assms(3) by (metis distinct_card length_map set_map)
  then have len: "length txs = n" by (simp add: assms(4))
  have "replicated_up_to view ?lr (ls_ledger st) Map.empty st"
    unfolding replicated_up_to_def by (rule exI [of _ 0]) (simp add: assms(1,2))
  moreover have "\<forall>t\<in>set txs. ?lr < fst t \<and> Map.empty (fst t) = None"
    using assms(4) by (metis greaterThanAtMost_iff image_eqI)
  ultimately obtain st' where st': "commit_all env view txs st = (replicate n (Inr SUCCESS), st')"
    "replicated_up_to view ?lr (ls_ledger st) ?txs st'"
    using commit_all_replicates [of view ?lr "ls_ledger st" Map.empty st txs env] assms(3,5) len by auto
  obtain k where k: "st_last_replicated st' = ?lr + k" "\<forall>i<k. ?txs (Suc (?lr + i)) \<noteq> None" "?txs (Suc (?lr + k)) = None"
    "ls_ledger st' = ls_ledger st @ map (\<lambda>v. entry_of (v, the (?txs v))) [Suc ?lr..<Suc (?lr + k)]"
    "map_of (st_pending_txs st') = (\<lambda>v. if ?lr + k < v then ?txs v else None)"
    using st'(2) by (auto simp: replicated_up_to_def)
  have dom: "?txs v \<noteq> None \<longleftrightarrow> ?lr < v \<and> v \<le> ?lr + n" for v
    using assms(4) by (auto simp: map_of_eq_None_iff)
  have "k = n"
  proof (rule antisym)
    show "n \<le> k" using k(3) dom [of "Suc (?lr + k)"] by simp
    show "k \<le> n" using k(2) dom [of "Suc (?lr + (k - 1))"] by (cases k) auto
  qed
  have "map_of (st_pending_txs st') v = None" for v using k(5) dom [of v] by (auto simp: \<open>k = n\<close>)
  then have "map_of (st_pending_txs st') = Map.empty" by blast
  then have pending: "st_pending_txs st' = []" by simp
  have "map fst (sort_key fst txs) = [Suc ?lr..<Suc (?lr + n)]"
    by (rule sorted_distinct_set_unique) (use assms(3,4) in \<open>auto simp: distinct_map simp del: upt_Suc\<close>)
  moreover have "entry_of t = entry_of (fst t, the (?txs (fst t)))" if "t \<in> set (sort_key fst txs)" for t
  proof -
    have "?txs (fst t) = Some (snd t)" by (rule map_of_is_SomeI) (use that assms(3) in simp_all)
    then show ?thesis by (simp only: option.sel prod.collapse)
  qed
  ultimately have "map entry_of (sort_key fst txs) = map (\<lambda>v. entry_of (v, the (?txs v))) [Suc ?lr..<Suc (?lr + n)]"
    by (metis (mono_tags, lifting) map_map map_eq_conv comp_apply)
  then show ?thesis using st'(1) k(1,4) pending by (simp add: \<open>k = n\<close> del: upt_Suc)
qed

definition sample_pending :: "byte \<Rightarrow> unit pending_tx" where
  "sample_pending b = MovePendingTx [b] None [] []"

definition sample_store :: "(unit, unit) ledger_store" where
  "sample_store = store.extend (new_store True False) (ledger_store.fields [])"

definition empty_env :: "unit kv_env" where
  "empty_env =
     \<lparr>kv_ops = \<lparr>m_empty = (), m_get = (\<lambda>_ _. None), m_put = (\<lambda>_ _ _. ()), m_remove = (\<lambda>_ _. ()), m_elems = (\<lambda>_. [])\<rparr>,
      kv_sha256 = (\<lambda>_. []), kv_commit_nonce = (\<lambda>_. Inl LogicError), kv_record_committable = (\<lambda>_ _. False),
      kv_sign = (\<lambda>_ _. []), kv_verify_root = (\<lambda>_ _. False)\<rparr>"

theorem commits_all_replicated_witness:
  "\<exists>st'. commit_all empty_env 0 [(3, sample_pending 3, True), (1, sample_pending 1, False), (2, sample_pending 2, False)]
      sample_store = ([Inr SUCCESS, Inr SUCCESS, Inr SUCCESS], st') \<and>
    st_last_replicated st' = 3 \<and> st_pending_txs st' = [] \<and>
    ls_ledger st' = [(1, [1], False, []), (2, [2], False, []), (3, [3], True, [])]"
proof -
  let ?txs = "[(3::nat, sample_pending 3, True), (1, sample_pending 1, False), (2, sample_pending 2, False)]"
  have lr: "st_pending_txs sample_store = []" "st_term_of_next_version sample_store = 0" "st_last_replicated sample_store = 0"
    "ls_ledger sample_store = []"
    by (simp_all add: sample_store_def new_store_def store.defs ledger_store.defs)
  have "distinct (map fst ?txs)" "\<forall>t\<in>set ?txs. is_move (fst (snd t))" by (simp_all add: sample_pending_def)
  moreover have "fst ` set ?txs = {st_last_replicated sample_store<..st_last_replicated sample_store + 3}"
    by (auto simp: lr)
  moreover have "sort_key fst ?txs = [(1, sample_pending 1, False), (2, sample_pending 2, False), (3, sample_pending 3, True)]"
    by (simp add: sort_key_def)
  ultimately show ?thesis
    using commits_all_replicated [OF lr(1,2), of ?txs 3 empty_env] by (simp add: lr sample_pending_def numeral_3_eq_3)
qed

text \<open>The fields of the pipeline after the operations on versions.\<close>

lemma update_cells_fields [simp]:
  "st_maps (update_cells f st) = st_maps st" "st_version (update_cells f st) = st_version st"
  "st_compacted (update_cells f st) = st_compacted st" "st_last_replicated (update_cells f st) = st_last_replicated st"
  "st_pending_txs (update_cells f st) = st_pending_txs st" "st_rollback_count (update_cells f st) = st_rollback_count st"
  "st_term_of_next_version (update_cells f st) = st_term_of_next_version st" "store.more (update_cells f st) = store.more st"
  by (simp_all add: update_cells_def)

lemma next_version_below:
  assumes "st_version st + 1 < 2 ^ 63"
  shows "next_version_unsafe st =
    (st_version st + 1, st\<lparr>st_version := st_version st + 1, st_term_of_last_version := st_term_of_next_version st\<rparr>)"
  using assms by (simp add: next_version_unsafe_def add64_def two64_def)

lemma rollback_pipeline:
  fixes view :: nat
  assumes "st_compacted st \<le> tx_seqno txid"
  defines "st' \<equiv> snd (store_rollback txid view st)"
  shows "st_term_of_next_version st' = view" "st_compacted st' = st_compacted st" "store.more st' = store.more st"
    "tx_seqno txid < st_version st \<Longrightarrow> st_version st' = tx_seqno txid \<and> st_last_replicated st' = tx_seqno txid \<and> st_pending_txs st' = []"
    "st_version st \<le> tx_seqno txid \<Longrightarrow> st_version st' = st_version st \<and> st_last_replicated st' = st_last_replicated st \<and>
       st_pending_txs st' = st_pending_txs st"
  using assms by (auto simp: st'_def store_rollback_def Let_def call_if_def st_call_def unset_flag_def)

text \<open>
  C38. A transaction of an old view can be replicated in place of a new one. Two transactions of a view get the two next
  versions, and before they are handed over the node loses its view and rolls back. The second of them then commits
  while the node is a backup: it is kept as pending and its commit succeeds. When the node is elected again with nothing to
  roll back, two new transactions get the same versions and commit. The consensus receives the first of
  them followed by the old transaction; the second one stays pending forever although its commit succeeds.
\<close>

theorem stale_transaction_replicated:
  fixes st0 :: "('s, 'h) ledger_store"
  assumes "st_version st0 = v" "st_compacted st0 \<le> v" "v + 2 < 2 ^ 63" "st_term_of_next_version st0 = view"
    "is_move old" "is_move first" "is_move second"
  shows "let st = snd (next_version_unsafe (snd (next_version_unsafe st0)));
      st = snd (store_rollback \<lparr>tx_view = term, tx_seqno = v\<rparr> (view + 1) st);
      (r, st) = store_commit env (Some (False, accept)) \<lparr>tx_view = view, tx_seqno = v + 2\<rparr> old False st;
      st = snd (store_rollback \<lparr>tx_view = term, tx_seqno = v\<rparr> (view + 2) st);
      (w1, st) = next_version_unsafe st;
      (w2, st) = next_version_unsafe st;
      (r1, st) = store_commit env (Some (True, accept)) \<lparr>tx_view = view + 2, tx_seqno = w1\<rparr> first False st;
      (r2, st) = store_commit env (Some (True, accept)) \<lparr>tx_view = view + 2, tx_seqno = w2\<rparr> second False st
    in w1 = v + 1 \<and> w2 = v + 2 \<and> r = Inr SUCCESS \<and> r1 = Inr SUCCESS \<and> r2 = Inr SUCCESS \<and>
       ls_ledger st = ls_ledger st0 @ [entry_of (v + 1, first, False), entry_of (v + 2, old, False)] \<and>
       st_pending_txs st = [(v + 2, second, False)] \<and> st_last_replicated st = v + 2"
proof -
  define a where "a = snd (next_version_unsafe (snd (next_version_unsafe st0)))"
  define b where "b = snd (store_rollback \<lparr>tx_view = term, tx_seqno = v\<rparr> (view + 1) a)"
  define c where "c = b\<lparr>st_pending_txs := [(v + 2, old, False)]\<rparr>"
  define d where "d = snd (store_rollback \<lparr>tx_view = term, tx_seqno = v\<rparr> (view + 2) c)"
  have a: "st_version a = v + 2" "st_compacted a = st_compacted st0" "store.more a = store.more st0"
    using assms(1,3) by (simp_all add: a_def next_version_below)
  note B = rollback_pipeline [of a "\<lparr>tx_view = term, tx_seqno = v\<rparr>" "view + 1", folded b_def]
  have b: "st_version b = v" "st_last_replicated b = v" "st_pending_txs b = []" "st_compacted b \<le> v"
    "store.more b = store.more st0"
    using B a assms(2) by simp_all
  have cc: "store_commit env (Some (False, accept)) \<lparr>tx_view = view, tx_seqno = v + 2\<rparr> old False b = (Inr SUCCESS, c)"
    by (simp add: store_commit_def commit_begin_def b collect_contiguous.simps c_def)
  note D = rollback_pipeline [of c "\<lparr>tx_view = term, tx_seqno = v\<rparr>" "view + 2", folded d_def]
  have d: "st_version d = v" "st_last_replicated d = v" "st_pending_txs d = [(v + 2, old, False)]"
    "st_term_of_next_version d = view + 2" "store.more d = store.more st0"
    using D b by (simp_all add: c_def)
  define d1 where "d1 = snd (next_version_unsafe d)"
  define e where "e = snd (next_version_unsafe d1)"
  have e: "next_version_unsafe d = (v + 1, d1)" "next_version_unsafe d1 = (v + 2, e)"
    "st_last_replicated e = v" "st_pending_txs e = [(v + 2, old, False)]" "st_term_of_next_version e = view + 2"
    "store.more e = store.more st0"
    using assms(3) d by (simp_all add: next_version_below e_def d1_def)
  let ?cur = "\<lparr>cc_contiguous = [(first, False), (old, False)], cc_batch = [], cc_previous_last_replicated = v,
      cc_next_last_replicated = v + 2, cc_previous_rollback_count = st_rollback_count e,
      cc_replication_view = view + 2, cc_offset = 1\<rparr>"
  let ?batch = "[entry_of (v + 1, first, False), entry_of (v + 2, old, False)]"
  have f: "commit_begin True \<lparr>tx_view = view + 2, tx_seqno = v + 1\<rparr> first False e = (Inr ?cur, e\<lparr>st_pending_txs := []\<rparr>)"
    by (simp add: commit_begin_def e collect_contiguous.simps)
  obtain g where g: "commit_calls env [(first, False), (old, False)] ?cur (e\<lparr>st_pending_txs := []\<rparr>) =
      (Inr (Inr (?cur\<lparr>cc_batch := ?batch, cc_offset := 3\<rparr>)), g)" "same_pipeline (e\<lparr>st_pending_txs := []\<rparr>) g"
    using commit_calls_moves [of "[(first, False), (old, False)]" env ?cur "e\<lparr>st_pending_txs := []\<rparr>"] assms(5,6)
    by (auto simp: upt_rec numeral_3_eq_3)
  define h where "h = g\<lparr>ls_ledger := ls_ledger g @ ?batch, st_last_replicated := v + 2\<rparr>"
  have first: "store_commit env (Some (True, accept)) \<lparr>tx_view = view + 2, tx_seqno = v + 1\<rparr> first False e = (Inr SUCCESS, h)"
    unfolding store_commit_def option.case prod.case f sum.case commit_cursor.simps g(1)
    using g(2) by (simp add: accept_def commit_finish_def same_pipeline_def e h_def)
  have ls: "ls_ledger g = ls_ledger st0" using g(2) e(6) by (cases g; cases st0) (simp add: same_pipeline_def)
  have h: "st_last_replicated h = v + 2" "st_pending_txs h = []" "st_term_of_next_version h = view + 2"
    "ls_ledger h = ls_ledger st0 @ ?batch"
    using g(2) by (simp_all add: h_def same_pipeline_def e ls)
  have second: "store_commit env (Some (True, accept)) \<lparr>tx_view = view + 2, tx_seqno = v + 2\<rparr> second False h =
      (Inr SUCCESS, h\<lparr>st_pending_txs := [(v + 2, second, False)]\<rparr>)"
    by (simp add: store_commit_def commit_begin_def h collect_contiguous.simps)
  show ?thesis
    unfolding a_def [symmetric] b_def [symmetric] Let_def cc prod.case d_def [symmetric] e(1,2) first second
    by (simp add: h)
qed

text \<open>The old transaction is replicated as version 2 although another one with this version was committed.\<close>

theorem stale_transaction_replicated_witness:
  "let st = snd (next_version_unsafe (snd (next_version_unsafe sample_store)));
      st = snd (store_rollback \<lparr>tx_view = 0, tx_seqno = 0\<rparr> 1 st);
      (r, st) = store_commit empty_env (Some (False, accept)) \<lparr>tx_view = 0, tx_seqno = 2\<rparr> (sample_pending 7) False st;
      st = snd (store_rollback \<lparr>tx_view = 0, tx_seqno = 0\<rparr> 2 st);
      (w1, st) = next_version_unsafe st;
      (w2, st) = next_version_unsafe st;
      (r1, st) = store_commit empty_env (Some (True, accept)) \<lparr>tx_view = 2, tx_seqno = w1\<rparr> (sample_pending 8) False st;
      (r2, st) = store_commit empty_env (Some (True, accept)) \<lparr>tx_view = 2, tx_seqno = w2\<rparr> (sample_pending 9) False st
    in w2 = 2 \<and> r2 = Inr SUCCESS \<and> ls_ledger st = [(1, [8], False, []), (2, [7], False, [])]"
proof -
  have s: "st_version sample_store = 0" "st_compacted sample_store \<le> 0" "(0::nat) + 2 < 2 ^ 63"
    "st_term_of_next_version sample_store = 0" "ls_ledger sample_store = []"
    by (simp_all add: sample_store_def new_store_def store.defs ledger_store.defs)
  have "is_move (sample_pending b)" for b by (simp add: sample_pending_def)
  from stale_transaction_replicated [OF s(1-4) this this this, of 0 empty_env 7 8 9] show ?thesis
    unfolding Let_def case_prod_beta s(5) add_0 sample_pending_def entry_of.simps append_Nil by (elim conjE) (intro conjI)
qed

end
