(* ===== verification/KV_Entry.thy ===== *)
theory KV_Entry
  imports KV_Pipeline Raft_State
begin

unbundle bit_operations_syntax

text \<open>
  How a store takes over a ledger entry of another node: \<^verbatim>\<open>Store::fill_maps\<close> and \<^verbatim>\<open>Store::commit_deserialised\<close>
  (\<^verbatim>\<open>src/kv/store.h\<close>) and the wrapper that consensus applies (\<^verbatim>\<open>src/kv/deserialise.h\<close>).
\<close>

section \<open>Reading moves forward\<close>

text \<open>The bytes in front of both readers. They grow less with every map that is started, so reading ends.\<close>

definition rr_left :: "raw_reader \<Rightarrow> nat" where
  "rr_left r = length (rr_data r) - rr_offset r"

definition ds_left :: "deserialiser \<Rightarrow> nat" where
  "ds_left d = rr_left (ds_public d) + rr_left (ds_private d)"

definition forward :: "(deserialiser \<Rightarrow> kv_error + 'a \<times> deserialiser) \<Rightarrow> bool" where
  "forward f \<longleftrightarrow> (\<forall>d x d'. f d = Inr (x, d') \<longrightarrow> ds_left d' \<le> ds_left d)"

definition raw_forward :: "(raw_reader \<Rightarrow> kv_error + 'a \<times> raw_reader) \<Rightarrow> bool" where
  "raw_forward f \<longleftrightarrow> (\<forall>r x r'. f r = Inr (x, r') \<longrightarrow> rr_left r' \<le> rr_left r)"

lemma forward_return: "forward (\<lambda>d. Inr (x, d))"
  by (simp add: forward_def)

lemma forward_bind: "forward f \<Longrightarrow> (\<And>x. forward (g x)) \<Longrightarrow> forward (\<lambda>d. bind_kv (f d) g)"
  unfolding forward_def bind_kv_Inr by (meson order_trans)

lemma forward_ds_read: "raw_forward f \<Longrightarrow> forward (ds_read f)"
  by (auto simp: forward_def raw_forward_def ds_read_def bind_kv_Inr ds_left_def ds_reader_def ds_set_reader_def)

lemma raw_forward_read_entry: "raw_forward (read_entry n)"
  by (auto simp: raw_forward_def read_entry_def rr_left_def split: if_splits option.splits)

lemma raw_forward_prefixed: "raw_forward read_size_prefixed_entry"
  by (auto simp: raw_forward_def read_size_prefixed_entry_def read_entry_def rr_left_def Let_def
      split: if_splits option.splits sum.splits)

lemma raw_forward_read_vector: "raw_forward (read_vector w)"
  using raw_forward_prefixed unfolding raw_forward_def read_vector_def
  by (auto split: if_splits option.splits sum.splits)

lemma read_string_less:
  assumes "read_string r = Inr (s, r')"
  shows "rr_left r' < rr_left r"
  using assms
  by (auto simp: read_string_def read_size_prefixed_entry_def read_entry_def rr_left_def rr_memory_def Let_def
      split: if_splits option.splits sum.splits)

lemma start_map_less:
  assumes "ds_start_map d = Inr (Some nm, d')"
  shows "ds_left d' < ds_left d"
  using assms
  by (auto simp: ds_start_map_def ds_read_def bind_kv_Inr ds_left_def ds_reader_def ds_set_reader_def
      split: if_splits dest: read_string_less)

lemmas forward_reads = forward_ds_read [OF raw_forward_read_entry] forward_ds_read [OF raw_forward_read_vector]

lemma forward_read_times: "forward rd \<Longrightarrow> forward (read_times n rd f a)"
proof (induction n arbitrary: a)
  case 0
  then show ?case using forward_return [of a] by (simp add: forward_def)
next
  case (Suc n)
  from forward_bind [OF Suc.prems Suc.IH [OF Suc.prems]] show ?case by (simp add: forward_def)
qed

lemma forward_deserialise_internal: "forward (deserialise_internal m v)"
proof (cases "create_change_set m v False")
  case None
  then show ?thesis by (simp add: forward_def deserialise_internal_def)
next
  case (Some cs)
  have "forward ds_read_dependency" "forward ds_write" "forward ds_remove" "forward ds_entry_version" "forward ds_count_header"
    unfolding ds_read_dependency_def ds_write_def ds_remove_def ds_entry_version_def ds_count_header_def
    by (intro forward_bind forward_reads forward_return)+
  then show ?thesis
    unfolding deserialise_internal_def Some option.case Let_def by (intro forward_bind forward_read_times)
qed

lemma map_read_less:
  "ds_start_map d = Inr (Some nm, d') \<Longrightarrow> deserialise_internal m v d' = Inr (cs, d'') \<Longrightarrow> ds_left d'' < ds_left d"
  using start_map_less forward_deserialise_internal unfolding forward_def by (metis le_less_trans)

section \<open>Applying an entry\<close>

function fill_loop ::
  "('s, bytes, 'w) map_ops \<Rightarrow> nat \<Rightarrow> deserialiser \<Rightarrow> 's ordered_changes \<Rightarrow> map_collection \<Rightarrow> ('s, 'h, 'z) store_scheme \<Rightarrow>
   (kv_error + ('s ordered_changes \<times> map_collection) option) \<times> ('s, 'h, 'z) store_scheme"
where
  "fill_loop ops v d changes new_maps st =
     (case ds_start_map d of
        Inl e \<Rightarrow> (Inl e, st)
      | Inr (None, d) \<Rightarrow> (Inr (if ds_end d then Some (changes, new_maps) else None), st)
      | Inr (Some nm, d) \<Rightarrow>
          let (p, new_maps, st) =
            (case get_map_internal v nm st of
               Some p \<Rightarrow> (p, new_maps, st)
             | None \<Rightarrow>
                 let (p, st) = alloc_map ops nm (get_security_domain nm) st in (p, omap_set nm p new_maps, st))
          in if map_of changes nm \<noteq> None then (Inr None, st)
             else case deserialise_internal (st_heap st ! p) v d of
                 Inl e \<Rightarrow> (Inl e, st)
               | Inr (cs, d) \<Rightarrow> fill_loop ops v d (omap_set nm (p, cs) changes) new_maps st)"
  by pat_completeness auto

termination
  by (relation "measure (\<lambda>(ops, v, d, changes, new_maps, st). ds_left d)") (auto intro: map_read_less)

declare fill_loop.simps [simp del]

record 's filled =
  fm_version :: nat
  fm_view :: nat
  fm_entry_flags :: nat
  fm_changes :: "'s ordered_changes"
  fm_new_maps :: map_collection
  fm_claims_digest :: "bytes option"
  fm_commit_evidence_digest :: "bytes option"

text \<open>The result is \<^verbatim>\<open>false\<close> if it is none. Without an encryptor the view stays what the caller passed, 0.\<close>

definition fill_maps ::
  "('s, bytes, 'w) map_ops \<Rightarrow> bytes \<Rightarrow> bool \<Rightarrow> bool \<Rightarrow> ('s, 'h, 'z) store_scheme \<Rightarrow>
   (kv_error + 's filled option) \<times> ('s, 'h, 'z) store_scheme"
where
  "fill_maps ops data only_public ignore_strict_versions st =
     (case ds_init (new_deserialiser (st_encryptor st) (if only_public then Some PUBLIC else None)) data (st_is_historical st) of
        Inl e \<Rightarrow> (Inl e, st)
      | Inr (None, d) \<Rightarrow> (Inr None, st)
      | Inr (Some (v, view, flags), d) \<Rightarrow>
          (case store_rollback \<lparr>tx_view = st_term_of_last_version st, tx_seqno = sub64 v 1\<rparr> (st_term_of_next_version st) st of
             (Inl e, st) \<Rightarrow> (Inl e, st)
           | (Inr _, st) \<Rightarrow>
               if st_strict_versions st \<and> \<not> ignore_strict_versions \<and> st_version st \<noteq> sub64 v 1 then (Inr None, st)
               else case fill_loop ops v d [] [] st of
                   (Inl e, st) \<Rightarrow> (Inl e, st)
                 | (Inr None, st) \<Rightarrow> (Inr None, st)
                 | (Inr (Some (changes, new_maps)), st) \<Rightarrow>
                     (Inr (Some
                        \<lparr>fm_version = v, fm_view = (case view of Some w \<Rightarrow> w | None \<Rightarrow> 0), fm_entry_flags = flags,
                         fm_changes = changes, fm_new_maps = new_maps, fm_claims_digest = ds_claims_digest d,
                         fm_commit_evidence_digest = ds_commit_evidence_digest d\<rparr>), st)))"

definition commit_deserialised ::
  "('s, bytes, bytes versionv) map_ops \<Rightarrow> 's ordered_changes \<Rightarrow> nat \<Rightarrow> nat \<Rightarrow> map_collection \<Rightarrow> bool \<Rightarrow>
   ('s, 'h, 'z) store_scheme \<Rightarrow> (kv_error + 'h list option) \<times> ('s, 'h, 'z) store_scheme"
where
  "commit_deserialised ops changes v term new_maps track st =
     (case apply_changes ops changes (\<lambda>_ st. ((v, sub64 v 1), st)) new_maps None track None st of
        (Inl e, st) \<Rightarrow> (Inl e, st)
      | (Inr None, st) \<Rightarrow> (Inr None, st)
      | (Inr (Some (_, hooks)), st) \<Rightarrow>
          (Inr (Some hooks), st\<lparr>st_version := v, st_last_replicated := v, st_term_of_last_version := term\<rparr>))"

definition SIGNATURES :: string where
  "SIGNATURES = ''public:ccf.internal.signatures''"

definition COSE_SIGNATURES :: string where
  "COSE_SIGNATURES = ''public:ccf.internal.cose_signatures''"

definition SERIALISED_MERKLE_TREE :: string where
  "SERIALISED_MERKLE_TREE = ''public:ccf.internal.tree''"

definition ENCRYPTED_PAST_LEDGER_SECRET :: string where
  "ENCRYPTED_PAST_LEDGER_SECRET = ''public:ccf.internal.historical_encrypted_ledger_secret''"

text \<open>The case distinction by the number of maps falls through from two to three.\<close>

definition signature_contents :: "'s ordered_changes \<Rightarrow> bool" where
  "signature_contents changes =
     (let has = (\<lambda>nm. map_of changes nm \<noteq> None);
          signature_in = has SIGNATURES; cose_signature_in = has COSE_SIGNATURES; merkle_tree_in = has SERIALISED_MERKLE_TREE;
          n = length changes
      in (n = 2 \<and> merkle_tree_in \<and> cose_signature_in \<noteq> signature_in) \<or>
         ((n = 2 \<or> n = 3) \<and> merkle_tree_in \<and> cose_signature_in \<and> signature_in))"

text \<open>What \<^verbatim>\<open>apply\<close> does once the changes are committed.\<close>

definition apply_entry_effects ::
  "bytes \<Rightarrow> 's filled \<Rightarrow> ('s, 'h, 'z) store_scheme \<Rightarrow> ('s, 'h, 'z) store_scheme"
where
  "apply_entry_effects data f st =
     (let v = fm_version f;
          st = call_if (st_history st) (HistoryAppend data (fm_commit_evidence_digest f) (fm_claims_digest f) None) st
      in st\<lparr>st_chunker := map_option (\<lambda>c.
            let c = append_entry_size c (length data);
                c = (if of_nat (fm_entry_flags f) AND FORCE_LEDGER_CHUNK_BEFORE \<noteq> 0 then produced_chunk_at c (sub64 v 1) else c)
            in if of_nat (fm_entry_flags f) AND FORCE_LEDGER_CHUNK_AFTER \<noteq> 0 then produced_chunk_at c v else c)
          (st_chunker st)\<rparr>)"

definition apply_entry ::
  "'s kv_env \<Rightarrow> bytes \<Rightarrow> bool \<Rightarrow> tx_id option \<Rightarrow> bool \<Rightarrow> ('s, 'h, 'z) store_scheme \<Rightarrow>
   (kv_error + apply_result \<times> 'h list) \<times> ('s, 'h, 'z) store_scheme"
where
  "apply_entry env data only_public expected_txid track st =
     (case fill_maps (kv_ops env) data only_public True st of
        (Inl e, st) \<Rightarrow> (Inl e, st)
      | (Inr None, st) \<Rightarrow> (Inr (APPLY_FAIL, []), st)
      | (Inr (Some f), st) \<Rightarrow>
          if (case expected_txid of Some txid \<Rightarrow> fm_view f \<noteq> tx_view txid \<or> fm_version f \<noteq> tx_seqno txid | None \<Rightarrow> False)
          then (Inr (APPLY_FAIL, []), st)
          else case commit_deserialised (kv_ops env) (fm_changes f) (fm_version f) (fm_view f) (fm_new_maps f) track st of
              (Inl e, st) \<Rightarrow> (Inl e, st)
            | (Inr None, st) \<Rightarrow> (Inr (APPLY_FAIL, []), st)
            | (Inr (Some hooks), st) \<Rightarrow>
                (let has = (\<lambda>nm. map_of (fm_changes f) nm \<noteq> None);
                     signature = (has SIGNATURES \<or> has COSE_SIGNATURES)
                 in if signature \<and> (\<not> signature_contents (fm_changes f) \<or>
                        st_history st \<and> \<not> kv_verify_root env (st_calls st) (fm_version f))
                    then (Inr (APPLY_FAIL, hooks), st)
                    else
                      (Inr (if has ENCRYPTED_PAST_LEDGER_SECRET then PASS_ENCRYPTED_PAST_LEDGER_SECRET
                            else if signature then PASS_SIGNATURE else PASS, hooks),
                       apply_entry_effects data f st)))"

end
