(* ===== verification/KV_Effects.thy ===== *)
theory KV_Effects
  imports KV_Entry
begin

text \<open>
  The effect of a transaction on the contents of the maps, and the well-formedness of the store that its operations keep.
\<close>

section \<open>Contents of the maps\<close>

definition cell_get :: "('s, 'k, 'v versionv) map_ops \<Rightarrow> ('s, 'k, 'v, 'h) kv_map \<Rightarrow> 'k \<rightharpoonup> 'v versionv" where
  "cell_get ops m = m_get ops (lc_state (km_tail m))"

definition newest ::
  "('s, bytes, bytes versionv) map_ops \<Rightarrow> ('s, 'h, 'z) store_scheme \<Rightarrow> string \<Rightarrow> bytes \<rightharpoonup> bytes versionv"
where
  "newest ops st nm =
     (case map_of (st_maps st) nm of Some (_, p) \<Rightarrow> cell_get ops (st_heap st ! p) | None \<Rightarrow> Map.empty)"

definition writes_to :: "'s ordered_changes \<Rightarrow> string \<Rightarrow> bool" where
  "writes_to changes nm = (case map_of changes nm of Some (_, cs) \<Rightarrow> has_writes cs | None \<Rightarrow> False)"

text \<open>Maps that differ in their hooks only.\<close>

definition same_roll :: "('s, 'k, 'v, 'h) kv_map \<Rightarrow> ('s, 'k, 'v, 'h) kv_map \<Rightarrow> bool" where
  "same_roll m m' \<longleftrightarrow> km_commits m' = km_commits m \<and> km_name m' = km_name m \<and>
     km_security_domain m' = km_security_domain m \<and> km_rollback_counter m' = km_rollback_counter m"

abbreviation same_rolls :: "('s, 'k, 'v, 'h) kv_map list \<Rightarrow> ('s, 'k, 'v, 'h) kv_map list \<Rightarrow> bool" where
  "same_rolls \<equiv> list_all2 same_roll"

lemma same_roll_refl [simp]: "same_roll m m"
  by (simp add: same_roll_def)

lemma same_rolls_refl [simp]: "same_rolls h h"
  by (simp add: list_all2_refl)

lemma same_rolls_trans: "same_rolls a b \<Longrightarrow> same_rolls b c \<Longrightarrow> same_rolls a c"
  by (rule list_all2_trans [where ?P1.0 = same_roll]) (auto simp: same_roll_def)

lemma same_rolls_update: "p < length h \<Longrightarrow> same_roll (h ! p) m \<Longrightarrow> same_rolls h (h[p := m])"
  by (simp add: list_all2_conv_all_nth nth_list_update)

lemma same_roll_cell: "same_roll m m' \<Longrightarrow> cell_get ops m' = cell_get ops m"
  by (simp add: same_roll_def cell_get_def)

lemma with_hooks_roll: "same_roll m (with_hooks st m)"
  by (simp add: with_hooks_def same_roll_def Let_def split: option.split)

lemma add_new_maps_spec:
  assumes "\<forall>(nm, p)\<in>set new. p < length (st_heap st) \<and> km_name (st_heap st ! p) = nm \<and> map_of (st_maps st) nm = None"
    "distinct (map fst new)"
  shows "\<exists>ms heap. add_new_maps v changes new st = (Inr (), st\<lparr>st_maps := ms, st_heap := heap\<rparr>) \<and>
    same_rolls (st_heap st) heap \<and> (sorted_wrt (<) (omap_keys (st_maps st)) \<longrightarrow> sorted_wrt (<) (omap_keys ms)) \<and>
    (\<forall>nm. map_of ms nm = (case map_of new nm of
       Some p \<Rightarrow> if writes_to changes nm then Some (v, p) else map_of (st_maps st) nm
     | None \<Rightarrow> map_of (st_maps st) nm))"
  using assms
proof (induction new arbitrary: st)
  case Nil
  show ?case by (intro exI [of _ "st_maps st"] exI [of _ "st_heap st"]) simp
next
  case (Cons n new)
  obtain nm p where n: "n = (nm, p)" by (rule prod.exhaust)
  have p: "p < length (st_heap st)" "km_name (st_heap st ! p) = nm" "map_of (st_maps st) nm = None"
    using Cons.prems(1) by (auto simp: n)
  have nm: "map_of new nm = None" using Cons.prems(2) by (simp add: n map_of_eq_None_iff)
  show ?case
  proof (cases "writes_to changes nm")
    case False
    then have "add_new_maps v changes (n # new) st = add_new_maps v changes new st"
      by (auto simp: n writes_to_def split: option.splits)
    moreover have "\<forall>(nm, p)\<in>set new. p < length (st_heap st) \<and> km_name (st_heap st ! p) = nm \<and> map_of (st_maps st) nm = None"
      using Cons.prems(1) by simp
    ultimately obtain ms heap where
      IH: "add_new_maps v changes (n # new) st = (Inr (), st\<lparr>st_maps := ms, st_heap := heap\<rparr>)"
      "same_rolls (st_heap st) heap" "sorted_wrt (<) (omap_keys (st_maps st)) \<longrightarrow> sorted_wrt (<) (omap_keys ms)"
      "\<forall>nm. map_of ms nm = (case map_of new nm of
         Some p \<Rightarrow> if writes_to changes nm then Some (v, p) else map_of (st_maps st) nm
       | None \<Rightarrow> map_of (st_maps st) nm)"
      using Cons.IH [of st] Cons.prems(2) by auto
    moreover have "map_of ms m = (case map_of (n # new) m of
         Some p \<Rightarrow> if writes_to changes m then Some (v, p) else map_of (st_maps st) m
       | None \<Rightarrow> map_of (st_maps st) m)" for m
      using IH(4) False nm by (simp add: n)
    ultimately show ?thesis by blast
  next
    case True
    let ?st = "st\<lparr>st_maps := omap_set nm (v, p) (st_maps st), st_heap := (st_heap st)[p := with_hooks st (st_heap st ! p)]\<rparr>"
    have roll: "same_rolls (st_heap st) (st_heap ?st)" using same_rolls_update [OF p(1) with_hooks_roll] by simp
    have step: "add_new_maps v changes (n # new) st = add_new_maps v changes new ?st"
      using True p by (auto simp: n writes_to_def add_dynamic_map_def get_map_internal_def set_cell_def Let_def split: option.splits)
    have "q < length (st_heap ?st) \<and> km_name (st_heap ?st ! q) = m \<and> map_of (st_maps ?st) m = None" if "(m, q) \<in> set new" for m q
    proof -
      have m: "m \<noteq> nm" using that Cons.prems(2) by (force simp: n)
      have q: "q < length (st_heap st)" "km_name (st_heap st ! q) = m" "map_of (st_maps st) m = None"
        using that Cons.prems(1) by (auto simp: n)
      have "km_name (st_heap ?st ! q) = m" using list_all2_nthD [OF roll q(1)] q(2) by (simp only: same_roll_def)
      moreover have "q < length (st_heap ?st)" using list_all2_lengthD [OF roll] q(1) by simp
      ultimately show ?thesis using m q(3) by (simp add: map_of_omap_set_other)
    qed
    then have "\<forall>(m, q)\<in>set new. q < length (st_heap ?st) \<and> km_name (st_heap ?st ! q) = m \<and> map_of (st_maps ?st) m = None"
      by blast
    from Cons.IH [OF this] Cons.prems(2) obtain ms heap where
      IH: "add_new_maps v changes new ?st = (Inr (), ?st\<lparr>st_maps := ms, st_heap := heap\<rparr>)"
      "same_rolls (st_heap ?st) heap" "sorted_wrt (<) (omap_keys (st_maps ?st)) \<longrightarrow> sorted_wrt (<) (omap_keys ms)"
      "\<forall>nm. map_of ms nm = (case map_of new nm of
         Some p \<Rightarrow> if writes_to changes nm then Some (v, p) else map_of (st_maps ?st) nm
       | None \<Rightarrow> map_of (st_maps ?st) nm)" by auto
    show ?thesis
    proof (intro exI conjI allI)
      show "add_new_maps v changes (n # new) st = (Inr (), st\<lparr>st_maps := ms, st_heap := heap\<rparr>)"
        using IH(1) unfolding step by simp
      show "same_rolls (st_heap st) heap" by (rule same_rolls_trans [OF roll IH(2)])
      show "sorted_wrt (<) (omap_keys (st_maps st)) \<longrightarrow> sorted_wrt (<) (omap_keys ms)" using IH(3) by (simp add: sorted_omap_set)
      show "map_of ms m = (case map_of (n # new) m of
         Some p \<Rightarrow> if writes_to changes m then Some (v, p) else map_of (st_maps st) m
       | None \<Rightarrow> map_of (st_maps st) m)" for m
        using IH(4) nm True by (cases "m = nm") (auto simp: n map_of_omap_set map_of_omap_set_other split: option.splits)
    qed
  qed
qed

lemma commit_views_cells:
  assumes "distinct (map (fst \<circ> snd) changes)" "\<forall>(nm, p, cs)\<in>set changes. p < length heap"
  shows "length (fst (commit_views ops v track changes heap)) = length heap \<and>
    (\<forall>q. fst (commit_views ops v track changes heap) ! q =
       (case map_of (map snd changes) q of Some cs \<Rightarrow> fst (handle_commit ops v track cs (heap ! q)) | None \<Rightarrow> heap ! q))"
  using assms
proof (induction changes arbitrary: heap)
  case (Cons c changes)
  obtain nm p cs where c: "c = (nm, p, cs)" by (cases c) auto
  let ?heap = "heap[p := fst (handle_commit ops v track cs (heap ! p))]"
  have p: "p < length heap" "map_of (map snd changes) p = None"
    using Cons.prems by (force simp: c map_of_eq_None_iff)+
  have "\<forall>(nm, p, cs)\<in>set changes. p < length ?heap" using Cons.prems(2) by auto
  moreover have "distinct (map (fst \<circ> snd) changes)" using Cons.prems(1) by (simp add: comp_def)
  ultimately have IH: "length (fst (commit_views ops v track changes ?heap)) = length ?heap"
    "fst (commit_views ops v track changes ?heap) ! q =
       (case map_of (map snd changes) q of Some cs \<Rightarrow> fst (handle_commit ops v track cs (?heap ! q)) | None \<Rightarrow> ?heap ! q)" for q
    using Cons.IH by blast+
  have "fst (commit_views ops v track (c # changes) heap) = fst (commit_views ops v track changes ?heap)"
    by (simp add: c case_prod_beta Let_def)
  moreover have "?heap ! q = (if q = p then fst (handle_commit ops v track cs (heap ! p)) else heap ! q)" for q
    using p(1) by (simp add: nth_list_update)
  moreover have "map_of (map snd (c # changes)) q = (if q = p then Some cs else map_of (map snd changes) q)" for q
    by (simp add: c)
  ultimately show ?case using IH p(2) by (simp split: option.split)
qed simp

section \<open>Well-formed stores and transactions\<close>

definition store_wf ::
  "('s, bytes, bytes versionv) map_ops \<Rightarrow> ('s \<Rightarrow> bool) \<Rightarrow> ('s, 'h, 'z) store_scheme \<Rightarrow> bool"
where
  "store_wf ops ok st \<longleftrightarrow>
     sorted_wrt (<) (omap_keys (st_maps st)) \<and>
     (\<forall>(nm, cv, p)\<in>set (st_maps st). cv \<le> st_version st \<and> p < length (st_heap st) \<and> km_name (st_heap st ! p) = nm \<and>
        km_security_domain (st_heap st ! p) = get_security_domain nm \<and>
        map_wf ops ok (st_heap st ! p) \<and> lc_version (km_tail (st_heap st ! p)) \<le> st_version st \<and>
        lc_version (km_head (st_heap st ! p)) \<le> st_compacted st) \<and>
     st_compacted st \<le> st_version st \<and> st_version st < 2 ^ 63"

text \<open>A map that a transaction has created and nobody else has seen.\<close>

definition fresh_cell :: "('s, bytes, 'w) map_ops \<Rightarrow> string \<Rightarrow> ('s, 'h) kv_cell \<Rightarrow> bool" where
  "fresh_cell ops nm m \<longleftrightarrow> km_name m = nm \<and> km_security_domain m = get_security_domain nm \<and>
     km_commits m = [\<lparr>lc_version = 0, lc_state = m_empty ops, lc_writes = []\<rparr>]"

definition changes_wf ::
  "('s, bytes, 'w) map_ops \<Rightarrow> 's ordered_changes \<Rightarrow> map_collection \<Rightarrow> ('s, 'h, 'z) store_scheme \<Rightarrow> bool"
where
  "changes_wf ops changes new_maps st \<longleftrightarrow>
     sorted_wrt (<) (omap_keys changes) \<and> sorted_wrt (<) (omap_keys new_maps) \<and> distinct (map (fst \<circ> snd) changes) \<and>
     (\<forall>(nm, p)\<in>set new_maps. p < length (st_heap st) \<and> fresh_cell ops nm (st_heap st ! p) \<and> p \<notin> snd ` snd ` set (st_maps st) \<and>
        p \<in> fst ` snd ` set changes) \<and>
     (\<forall>(nm, p, cs)\<in>set changes. p < length (st_heap st) \<and> sorted_wrt (<) (omap_keys (ch_writes cs)) \<and>
        (map_of new_maps nm = Some p \<or> (\<exists>cv. map_of (st_maps st) nm = Some (cv, p))))"

lemma handle_commit_roll:
  "same_roll m m' \<Longrightarrow> same_roll (fst (handle_commit ops v track cs m)) (fst (handle_commit ops v track cs m'))"
  by (simp add: same_roll_def handle_commit_def case_prod_beta)

text \<open>The maps after the commit of a transaction, by pointer and by name.\<close>

definition committed_cell ::
  "('s, bytes, bytes versionv) map_ops \<Rightarrow> nat \<Rightarrow> bool \<Rightarrow> 's ordered_changes \<Rightarrow> ('s, 'h, 'z) store_scheme \<Rightarrow> map_ptr \<Rightarrow> ('s, 'h) kv_cell"
where
  "committed_cell ops v track changes st q =
     (case map_of (map snd changes) q of Some cs \<Rightarrow> fst (handle_commit ops v track cs (st_heap st ! q)) | None \<Rightarrow> st_heap st ! q)"

definition committed_to ::
  "('s, bytes, bytes versionv) map_ops \<Rightarrow> nat \<Rightarrow> bool \<Rightarrow> 's ordered_changes \<Rightarrow> map_collection \<Rightarrow>
   ('s, 'h, 'z) store_scheme \<Rightarrow> ('s, 'h, 'z) store_scheme \<Rightarrow> bool"
where
  "committed_to ops v track changes new_maps st st' \<longleftrightarrow>
     length (st_heap st') = length (st_heap st) \<and>
     (\<forall>q<length (st_heap st). same_roll (committed_cell ops v track changes st q) (st_heap st' ! q)) \<and>
     (sorted_wrt (<) (omap_keys (st_maps st)) \<longrightarrow> sorted_wrt (<) (omap_keys (st_maps st'))) \<and>
     (\<forall>nm. map_of (st_maps st') nm = (case map_of new_maps nm of
        Some p \<Rightarrow> if writes_to changes nm then Some (v, p) else map_of (st_maps st) nm
      | None \<Rightarrow> map_of (st_maps st) nm))"

lemma apply_changes_success:
  assumes cwf: "changes_wf ops changes new_maps st"
    and new: "\<forall>(nm, p)\<in>set new_maps. map_of (st_maps st) nm = None"
    and writes: "list_ex (\<lambda>(_, _, cs). has_writes cs) changes"
    and prep: "\<forall>(nm, p, cs)\<in>set changes. prepare ops (st_heap st ! p) cs"
    and res: "resolver (new_maps \<noteq> []) st = ((v, l), st1)" "st_heap st1 = st_heap st" "st_maps st1 = st_maps st"
    and expected: "expected = None \<or> expected = Some (st_rollback_count st)"
  shows "\<exists>hooks ms heap. apply_changes ops changes resolver new_maps conflict track expected st =
      (Inr (Some (v, hooks)), st1\<lparr>st_maps := ms, st_heap := heap\<rparr>) \<and>
    committed_to ops v track changes new_maps st (st1\<lparr>st_maps := ms, st_heap := heap\<rparr>)"
proof -
  have "\<forall>(nm, p)\<in>set new_maps. p < length (st_heap st1) \<and> km_name (st_heap st1 ! p) = nm \<and> map_of (st_maps st1) nm = None"
    using cwf new by (auto simp: res changes_wf_def fresh_cell_def)
  moreover have "distinct (map fst new_maps)" using cwf by (simp add: changes_wf_def sorted_less_distinct)
  ultimately obtain ms heap where add: "add_new_maps v changes new_maps st1 = (Inr (), st1\<lparr>st_maps := ms, st_heap := heap\<rparr>)"
    "same_rolls (st_heap st) heap" "sorted_wrt (<) (omap_keys (st_maps st)) \<longrightarrow> sorted_wrt (<) (omap_keys ms)"
    "\<forall>nm. map_of ms nm = (case map_of new_maps nm of
       Some p \<Rightarrow> if writes_to changes nm then Some (v, p) else map_of (st_maps st) nm | None \<Rightarrow> map_of (st_maps st) nm)"
    using add_new_maps_spec [of new_maps st1 v changes] unfolding res by blast
  have len: "length heap = length (st_heap st)" using add(2) by (simp add: list_all2_lengthD)
  have ptrs: "distinct (map (fst \<circ> snd) changes)" "\<forall>(nm, p, cs)\<in>set changes. p < length heap"
    using cwf unfolding changes_wf_def len by (blast, blast)
  obtain heap' cvs where h: "commit_views ops v track changes heap = (heap', cvs)" by (rule prod.exhaust)
  have cells: "length heap' = length (st_heap st)" "heap' ! q =
      (case map_of (map snd changes) q of Some cs \<Rightarrow> fst (handle_commit ops v track cs (heap ! q)) | None \<Rightarrow> heap ! q)" for q
    using commit_views_cells [OF ptrs, of ops v track] by (simp_all add: h len)
  have "same_roll (committed_cell ops v track changes st q) (heap' ! q)" if "q < length (st_heap st)" for q
    using list_all2_nthD [OF add(2) that]
    by (auto simp: committed_cell_def cells(2) intro: handle_commit_roll split: option.split)
  then have c: "committed_to ops v track changes new_maps st (st1\<lparr>st_maps := ms, st_heap := heap'\<rparr>)"
    using add(3,4) cells(1) by (simp add: committed_to_def)
  have "list_all (\<lambda>(_, p, cs). prepare ops (st_heap st ! p) cs) changes" using prep by (auto simp: list_all_iff)
  moreover have "list_all (\<lambda>(nm, _). get_map_internal u nm st = None) new_maps" for u
    using new by (auto simp: list_all_iff get_map_internal_def)
  moreover have "case expected of Some n \<Rightarrow> changes = [] \<or> check_rollback_count n st | None \<Rightarrow> True"
    using expected by (auto simp: check_rollback_count_def)
  ultimately have "apply_changes ops changes resolver new_maps conflict track expected st =
      (Inr (Some (v, post_commits heap' changes cvs)), st1\<lparr>st_maps := ms, st_heap := heap'\<rparr>)"
    using writes by (simp add: apply_changes_def Let_def res(1) add(1) h)
  then show ?thesis using c by blast
qed

text \<open>If the changes are applied at all, nothing stood in the way.\<close>

lemma apply_changes_cases:
  assumes "apply_changes ops changes resolver new_maps None track expected st = (Inr (Some (v, hooks)), st')" "store_wf ops ok st"
    "list_ex (\<lambda>(_, _, cs). has_writes cs) changes"
  shows "\<forall>(nm, p)\<in>set new_maps. map_of (st_maps st) nm = None" "\<forall>(nm, p, cs)\<in>set changes. prepare ops (st_heap st ! p) cs"
proof -
  have "list_all (\<lambda>(nm, _). get_map_internal (st_version st) nm st = None) new_maps"
    and p: "list_all (\<lambda>(_, p, cs). prepare ops (st_heap st ! p) cs) changes"
    using assms(1,3) by (simp_all add: apply_changes_def Let_def split: if_splits)
  then have g: "get_map_internal (st_version st) nm st = None" if "(nm, p) \<in> set new_maps" for nm p
    using that by (auto simp: list_all_iff)
  have "map_of (st_maps st) nm = None" if "(nm, p) \<in> set new_maps" for nm p
  proof (rule ccontr)
    assume "map_of (st_maps st) nm \<noteq> None"
    then obtain cv q where m: "map_of (st_maps st) nm = Some (cv, q)" by auto
    then have "cv \<le> st_version st" using assms(2) by (auto simp: store_wf_def dest!: map_of_SomeD)
    then show False using g [OF that] m by (simp add: get_map_internal_def)
  qed
  then show "\<forall>(nm, p)\<in>set new_maps. map_of (st_maps st) nm = None" by blast
  show "\<forall>(nm, p, cs)\<in>set changes. prepare ops (st_heap st ! p) cs" using p by (auto simp: list_all_iff)
qed

lemma changes_by_pointer:
  assumes "changes_wf ops changes new_maps st"
  shows "map_of changes nm = Some (p, cs) \<Longrightarrow> map_of (map snd changes) p = Some cs"
    "map_of (map snd changes) p = Some cs \<Longrightarrow> \<exists>nm. map_of changes nm = Some (p, cs)"
proof -
  have d: "distinct (map fst (map snd changes))" "distinct (map fst changes)"
    using assms by (simp_all add: changes_wf_def sorted_less_distinct)
  show "map_of changes nm = Some (p, cs) \<Longrightarrow> map_of (map snd changes) p = Some cs"
    using d(1) by (metis imageI list.set_map map_of_SomeD map_of_is_SomeI snd_conv)
  show "map_of (map snd changes) p = Some cs \<Longrightarrow> \<exists>nm. map_of changes nm = Some (p, cs)"
    using d(2) by (fastforce dest!: map_of_SomeD intro: map_of_is_SomeI)
qed

locale store_maps = ordered_map ops ok
  for ops :: "('s, bytes, bytes versionv) map_ops" and ok
begin

lemma commit_cell:
  assumes "ok (lc_state (km_tail m))"
  shows "cell_get ops (fst (handle_commit ops v track cs m)) = foldl (replay_write v) (cell_get ops m) (ch_writes cs)"
proof -
  obtain s changes where fold: "foldl (commit_write ops v track) (lc_state (km_tail m), False) (ch_writes cs) = (s, changes)"
    by (rule prod.exhaust)
  have s: "m_get ops s = foldl (replay_write v) (cell_get ops m) (ch_writes cs)"
    using commit_state [OF assms, of v track False "ch_writes cs"] by (simp add: fold cell_get_def)
  have "\<not> snd (foldl (commit_write ops v track) (s0, b) w) \<Longrightarrow> fst (foldl (commit_write ops v track) (s0, b) w) = s0" for s0 b w
  proof (induction w rule: rev_induct)
    case (snoc kov w)
    obtain k ov where "kov = (k, ov)" by (rule prod.exhaust)
    then show ?case
      using snoc by (cases ov; cases "foldl (commit_write ops v track) (s0, b) w") (auto split: if_splits)
  qed simp
  from this [of "lc_state (km_tail m)" False "ch_writes cs"] have "\<not> changes \<Longrightarrow> s = lc_state (km_tail m)" by (simp add: fold)
  then show ?thesis using s by (auto simp: handle_commit_def fold cell_get_def)
qed

lemma fresh_cell_wf:
  assumes "fresh_cell ops nm m"
  shows "map_wf ops ok m" "cell_get ops m = Map.empty" "lc_version (km_tail m) = 0" "lc_version (km_head m) = 0"
  using assms by (simp_all add: fresh_cell_def map_wf_def keys_wf_def lc_key_def entries_within_def cell_get_def ok_empty get_empty fun_eq_iff)

text \<open>The maps of a transaction, in a well-formed store, are well formed and older than the next version.\<close>

lemma change_cell:
  assumes "store_wf ops ok st" "changes_wf ops changes new_maps st" "map_of changes nm = Some (p, cs)"
  shows "p < length (st_heap st)" "map_wf ops ok (st_heap st ! p)" "lc_version (km_tail (st_heap st ! p)) \<le> st_version st"
    "km_name (st_heap st ! p) = nm" "km_security_domain (st_heap st ! p) = get_security_domain nm"
    "sorted_wrt (<) (omap_keys (ch_writes cs))"
proof -
  have c: "p < length (st_heap st) \<and> sorted_wrt (<) (omap_keys (ch_writes cs)) \<and>
      (map_of new_maps nm = Some p \<or> (\<exists>cv. map_of (st_maps st) nm = Some (cv, p)))"
    using assms(2) map_of_SomeD [OF assms(3)] by (auto simp: changes_wf_def)
  then show "p < length (st_heap st)" "sorted_wrt (<) (omap_keys (ch_writes cs))" by simp_all
  from c consider "map_of new_maps nm = Some p" | cv where "map_of (st_maps st) nm = Some (cv, p)" by blast
  then have "map_wf ops ok (st_heap st ! p) \<and> lc_version (km_tail (st_heap st ! p)) \<le> st_version st \<and>
    km_name (st_heap st ! p) = nm \<and> km_security_domain (st_heap st ! p) = get_security_domain nm"
  proof cases
    case 1
    then have "fresh_cell ops nm (st_heap st ! p)" using assms(2) by (auto simp: changes_wf_def dest!: map_of_SomeD)
    then show ?thesis using fresh_cell_wf by (auto simp: fresh_cell_def)
  next
    case 2
    then show ?thesis using assms(1) by (auto simp: store_wf_def dest!: map_of_SomeD)
  qed
  then show "map_wf ops ok (st_heap st ! p)" "lc_version (km_tail (st_heap st ! p)) \<le> st_version st"
    "km_name (st_heap st ! p) = nm" "km_security_domain (st_heap st ! p) = get_security_domain nm" by simp_all
qed

lemma published_cell:
  assumes "store_wf ops ok st" "map_of (st_maps st) nm = Some (cv, p)"
  shows "p < length (st_heap st)" "km_name (st_heap st ! p) = nm" "map_wf ops ok (st_heap st ! p)"
    "km_security_domain (st_heap st ! p) = get_security_domain nm" "lc_version (km_tail (st_heap st ! p)) \<le> st_version st" "cv \<le> st_version st"
    "lc_version (km_head (st_heap st ! p)) \<le> st_compacted st"
  using assms by (auto simp: store_wf_def dest!: map_of_SomeD)

lemma committed_newest:
  assumes wf: "store_wf ops ok st" and cwf: "changes_wf ops changes new_maps st"
    and new: "\<forall>(nm, p)\<in>set new_maps. map_of (st_maps st) nm = None"
    and c: "committed_to ops v track changes new_maps st st'"
  shows "newest ops st' nm =
    (case map_of changes nm of Some (_, cs) \<Rightarrow> foldl (replay_write v) (newest ops st nm) (ch_writes cs) | None \<Rightarrow> newest ops st nm)"
proof -
  have cell: "cell_get ops (st_heap st' ! q) = cell_get ops (committed_cell ops v track changes st q)" if "q < length (st_heap st)" for q
    using c that by (simp add: committed_to_def same_roll_cell)
  have maps: "map_of (st_maps st') nm = (case map_of new_maps nm of
        Some p \<Rightarrow> if writes_to changes nm then Some (v, p) else map_of (st_maps st) nm
      | None \<Rightarrow> map_of (st_maps st) nm)" using c by (simp add: committed_to_def)
  show ?thesis
  proof (cases "map_of changes nm")
    case None
    then have m: "map_of (st_maps st') nm = map_of (st_maps st) nm" by (simp add: maps writes_to_def split: option.split)
    show ?thesis
    proof (cases "map_of (st_maps st) nm")
      case (Some x)
      obtain cv p where x: "x = (cv, p)" by (rule prod.exhaust)
      have "map_of (map snd changes) p = None"
      proof (rule ccontr)
        assume "map_of (map snd changes) p \<noteq> None"
        then obtain nm' cs where n: "map_of changes nm' = Some (p, cs)" using changes_by_pointer(2) [OF cwf] by blast
        have "km_name (st_heap st ! p) = nm" "km_name (st_heap st ! p) = nm'"
          using published_cell(2) [OF wf] Some x change_cell(4) [OF wf cwf n] by simp_all
        then show False using n None by simp
      qed
      then have "committed_cell ops v track changes st p = st_heap st ! p" by (simp add: committed_cell_def)
      then show ?thesis using None m Some x cell published_cell(1) [OF wf, of nm cv p] by (simp add: newest_def)
    qed (simp add: newest_def m None)
  next
    case (Some x)
    obtain p cs where x: "x = (p, cs)" by (rule prod.exhaust)
    note n = Some [unfolded x]
    have cc: "cell_get ops (st_heap st' ! p) = foldl (replay_write v) (cell_get ops (st_heap st ! p)) (ch_writes cs)"
      using cell [OF change_cell(1) [OF wf cwf n]] commit_cell wf_tail(2) [OF change_cell(2) [OF wf cwf n]]
      by (simp add: committed_cell_def changes_by_pointer(1) [OF cwf n])
    show ?thesis
    proof (cases "map_of new_maps nm")
      case None
      then obtain cv where "map_of (st_maps st) nm = Some (cv, p)"
        using cwf map_of_SomeD [OF n] by (auto simp: changes_wf_def)
      then show ?thesis using None n cc by (simp add: newest_def maps)
    next
      case (Some q)
      have mn: "map_of (st_maps st) nm = None" using new map_of_SomeD [OF Some] by auto
      then have "q = p" using cwf map_of_SomeD [OF n] Some by (auto simp: changes_wf_def)
      then have "fresh_cell ops nm (st_heap st ! p)" using cwf map_of_SomeD [OF Some] by (auto simp: changes_wf_def)
      then have "cell_get ops (st_heap st ! p) = Map.empty" by (rule fresh_cell_wf)
      then show ?thesis
        using mn Some n cc \<open>q = p\<close> by (auto simp: newest_def maps writes_to_def has_writes_def)
    qed
  qed
qed

lemma commit_tail:
  assumes "map_wf ops ok m" "lc_version (km_tail m) \<le> u" "v \<le> u"
  shows "lc_version (km_tail (fst (handle_commit ops v track cs m))) \<le> u"
  by (rule map_commit_cases [OF wf_tail(2) [OF assms(1)], of v track cs]) (use assms(2,3) in auto)

lemma same_roll_wf: "same_roll m m' \<Longrightarrow> map_wf ops ok m' = map_wf ops ok m"
  by (simp add: same_roll_def map_wf_def)

lemma handle_commit_name [simp]:
  "km_name (fst (handle_commit ops v track cs m)) = km_name m"
  "km_security_domain (fst (handle_commit ops v track cs m)) = km_security_domain m"
  by (simp_all add: handle_commit_def case_prod_beta)

lemma commit_head: "map_wf ops ok m \<Longrightarrow> km_head (fst (handle_commit ops v track cs m)) = km_head m"
  using wf_tail(1) [of m] by (simp add: handle_commit_def case_prod_beta)

lemma committed_wf:
  assumes wf: "store_wf ops ok st" and cwf: "changes_wf ops changes new_maps st"
    and new: "\<forall>(nm, p)\<in>set new_maps. map_of (st_maps st) nm = None"
    and c: "committed_to ops v track changes new_maps st st'"
    and old: "\<forall>(nm, p, cs)\<in>set changes. lc_version (km_tail (st_heap st ! p)) < v"
    and v: "v \<le> st_version st'" "st_version st \<le> st_version st'" "st_compacted st' \<le> st_version st'" "st_version st' < 2 ^ 63"
      "st_compacted st' = st_compacted st"
  shows "store_wf ops ok st'"
proof -
  have sorted: "sorted_wrt (<) (omap_keys (st_maps st'))" using c wf by (simp add: committed_to_def store_wf_def)
  have "cv \<le> st_version st' \<and> p < length (st_heap st') \<and> km_name (st_heap st' ! p) = nm \<and>
        km_security_domain (st_heap st' ! p) = get_security_domain nm \<and>
        map_wf ops ok (st_heap st' ! p) \<and> lc_version (km_tail (st_heap st' ! p)) \<le> st_version st' \<and>
        lc_version (km_head (st_heap st' ! p)) \<le> st_compacted st'"
    if "(nm, cv, p) \<in> set (st_maps st')" for nm cv p
  proof -
    have m': "map_of (st_maps st') nm = Some (cv, p)" using that sorted by (simp add: sorted_less_distinct)
    then have "map_of new_maps nm = Some p \<and> cv = v \<or> map_of (st_maps st) nm = Some (cv, p)"
      using c by (auto simp: committed_to_def split: option.splits if_splits)
    then have "cv \<le> st_version st' \<and> p < length (st_heap st) \<and> km_name (st_heap st ! p) = nm \<and>
        km_security_domain (st_heap st ! p) = get_security_domain nm \<and> map_wf ops ok (st_heap st ! p) \<and>
        lc_version (km_tail (st_heap st ! p)) \<le> st_version st' \<and> lc_version (km_head (st_heap st ! p)) \<le> st_compacted st"
    proof
      assume n: "map_of new_maps nm = Some p \<and> cv = v"
      then have "p < length (st_heap st)" and f: "fresh_cell ops nm (st_heap st ! p)"
        using cwf by (auto simp: changes_wf_def dest!: map_of_SomeD)
      then show ?thesis using fresh_cell_wf [OF f] n v(1) by (simp add: fresh_cell_def)
    next
      assume "map_of (st_maps st) nm = Some (cv, p)"
      from published_cell [OF wf this] v(2) show ?thesis by simp
    qed
    then have p: "cv \<le> st_version st'" "p < length (st_heap st)" "km_name (st_heap st ! p) = nm"
      "km_security_domain (st_heap st ! p) = get_security_domain nm" "map_wf ops ok (st_heap st ! p)"
      "lc_version (km_tail (st_heap st ! p)) \<le> st_version st'" "lc_version (km_head (st_heap st ! p)) \<le> st_compacted st" by simp_all
    let ?m = "committed_cell ops v track changes st p"
    have "map_wf ops ok ?m \<and> lc_version (km_tail ?m) \<le> st_version st' \<and> km_name ?m = nm \<and>
      km_security_domain ?m = get_security_domain nm \<and> lc_version (km_head ?m) \<le> st_compacted st"
    proof (cases "map_of (map snd changes) p")
      case (Some cs)
      then have t: "lc_version (km_tail (st_heap st ! p)) < v" using old by (fastforce dest!: map_of_SomeD)
      from commit_wf [OF p(5) t] commit_tail [OF p(5,6) v(1)] commit_head [OF p(5)] show ?thesis using Some p by (simp add: committed_cell_def)
    qed (use p in \<open>simp add: committed_cell_def\<close>)
    moreover have "same_roll ?m (st_heap st' ! p)" "length (st_heap st') = length (st_heap st)"
      using c p(2) by (simp_all add: committed_to_def)
    ultimately show ?thesis using p(1,2) v(5) same_roll_wf [of ?m "st_heap st' ! p"] by (simp add: same_roll_def)
  qed
  then show ?thesis using sorted v(3,4) by (auto simp: store_wf_def)
qed

text \<open>Operations on all maps of the store.\<close>

lemma published_distinct:
  assumes "store_wf ops ok st"
  shows "distinct (map (snd \<circ> snd) (st_maps st))"
proof -
  have "distinct (map fst (st_maps st))" using assms by (simp add: store_wf_def sorted_less_distinct)
  moreover have "map fst (st_maps st) = map (\<lambda>e. km_name (st_heap st ! snd (snd e))) (st_maps st)"
    using assms by (auto simp: store_wf_def)
  ultimately have "distinct (map (\<lambda>p. km_name (st_heap st ! p)) (map (snd \<circ> snd) (st_maps st)))" by (simp add: comp_def)
  then show ?thesis by (rule distinct_map [THEN iffD1, THEN conjunct1])
qed

lemma update_cells_nth:
  assumes "distinct (map (snd \<circ> snd) ms)"
  shows "length (foldl (\<lambda>heap (_, _, p). heap[p := f (heap ! p)]) heap ms) = length heap \<and>
    (\<forall>q<length heap. foldl (\<lambda>heap (_, _, p). heap[p := f (heap ! p)]) heap ms ! q =
       (if q \<in> snd ` snd ` set ms then f (heap ! q) else heap ! q))"
  using assms
proof (induction ms arbitrary: heap)
  case (Cons e ms)
  obtain nm cv p where e: "e = (nm, cv, p)" by (cases e) auto
  have p: "p \<notin> snd ` snd ` set ms" using Cons.prems by (auto simp: e image_comp comp_def)
  then have "heap[p := x] ! q = heap ! q" if "q \<in> snd ` snd ` set ms" for q x using that by (metis nth_list_update_neq)
  moreover have d: "distinct (map (snd \<circ> snd) ms)" using Cons.prems by (simp add: comp_def)
  ultimately show ?case
    using p Cons.IH [OF d, of "heap[p := f (heap ! p)]"] by (simp add: e nth_list_update)
qed simp

lemma update_cells_wf:
  assumes wf: "store_wf ops ok st"
    and f: "\<And>m. map_wf ops ok m \<Longrightarrow> lc_version (km_tail m) \<le> st_version st \<Longrightarrow> lc_version (km_head m) \<le> st_compacted st \<Longrightarrow>
      map_wf ops ok (f m) \<and> km_name (f m) = km_name m \<and> km_security_domain (f m) = km_security_domain m \<and>
      lc_version (km_tail (f m)) \<le> st_version st' \<and> lc_version (km_head (f m)) \<le> st_compacted st'"
    and maps: "set (st_maps st') \<subseteq> set (st_maps st)" "sorted_wrt (<) (omap_keys (st_maps st'))"
      "\<forall>(nm, cv, p)\<in>set (st_maps st'). cv \<le> st_version st'"
    and st': "st_heap st' = st_heap (update_cells f st)" "st_compacted st' \<le> st_version st'" "st_version st' < 2 ^ 63"
  shows "store_wf ops ok st'"
proof -
  note cells = update_cells_nth [OF published_distinct [OF wf], of f "st_heap st"]
  have heap: "length (st_heap st') = length (st_heap st)"
    "q < length (st_heap st) \<Longrightarrow> st_heap st' ! q = (if q \<in> snd ` snd ` set (st_maps st) then f (st_heap st ! q) else st_heap st ! q)" for q
    using cells by (simp_all add: st'(1) update_cells_def)
  have "cv \<le> st_version st' \<and> p < length (st_heap st') \<and> km_name (st_heap st' ! p) = nm \<and>
        km_security_domain (st_heap st' ! p) = get_security_domain nm \<and>
        map_wf ops ok (st_heap st' ! p) \<and> lc_version (km_tail (st_heap st' ! p)) \<le> st_version st' \<and>
        lc_version (km_head (st_heap st' ! p)) \<le> st_compacted st'"
    if "(nm, cv, p) \<in> set (st_maps st')" for nm cv p
  proof -
    have m: "(nm, cv, p) \<in> set (st_maps st)" using that maps(1) by blast
    then have p: "p < length (st_heap st)" "km_name (st_heap st ! p) = nm" "map_wf ops ok (st_heap st ! p)"
      "km_security_domain (st_heap st ! p) = get_security_domain nm" "lc_version (km_tail (st_heap st ! p)) \<le> st_version st"
      "lc_version (km_head (st_heap st ! p)) \<le> st_compacted st"
      using wf by (auto simp: store_wf_def)
    have "p \<in> snd ` snd ` set (st_maps st)" using m by force
    then have "st_heap st' ! p = f (st_heap st ! p)" using heap(2) [OF p(1)] by simp
    then show ?thesis using p f [OF p(3,5,6)] that maps(3) heap(1) by auto
  qed
  then show ?thesis using maps(2) st' by (auto simp: store_wf_def)
qed

text \<open>What the operations on one map do to its oldest and its newest commit.\<close>

lemma compact_cell:
  assumes "map_wf ops ok m"
  shows "map_wf ops ok (map_compact v m)" "km_name (map_compact v m) = km_name m"
    "km_security_domain (map_compact v m) = km_security_domain m" "lc_version (km_tail (map_compact v m)) = lc_version (km_tail m)"
    "lc_version (km_head m) \<le> v \<Longrightarrow> lc_version (km_head (map_compact v m)) \<le> v"
proof -
  show "map_wf ops ok (map_compact v m)" by (rule step_wf [OF map_step.compact assms])
  show "km_name (map_compact v m) = km_name m" "km_security_domain (map_compact v m) = km_security_domain m"
    by (simp_all add: map_compact_def case_prod_beta)
  have ne: "km_commits m \<noteq> []" by (rule wf_tail [OF assms])
  obtain n where n: "n < length (km_commits m)" "map lc_key (km_commits (map_compact v m)) = drop n (map lc_key (km_commits m))"
    using compact_loop_keys [OF ne, of "km_global_hook m" v "km_commit_deltas m"] by (auto simp: map_compact_def case_prod_beta)
  then have "km_commits (map_compact v m) \<noteq> []" by auto
  from tail_key [OF this] have "lc_key (km_tail (map_compact v m)) = lc_key (km_tail m)" using n tail_key [OF ne] by (simp add: last_drop)
  then show "lc_version (km_tail (map_compact v m)) = lc_version (km_tail m)" by (simp add: lc_key_def)
  have "cs \<noteq> [] \<Longrightarrow> lc_version (hd cs) \<le> v \<Longrightarrow> lc_version (hd (snd (compact_loop g v ds cs))) \<le> v" for g ds and cs :: "('s, bytes, bytes) local_commit list"
    by (induction g v ds cs rule: compact_loop.induct) (auto simp: Let_def)
  from this [OF ne] show "lc_version (km_head m) \<le> v \<Longrightarrow> lc_version (km_head (map_compact v m)) \<le> v"
    by (simp add: map_compact_def case_prod_beta)
qed

lemma rollback_cell:
  assumes "map_wf ops ok m" "lc_version (km_head m) \<le> v"
  shows "map_wf ops ok (map_rollback v m)" "km_name (map_rollback v m) = km_name m"
    "km_security_domain (map_rollback v m) = km_security_domain m" "lc_version (km_tail (map_rollback v m)) \<le> v"
    "km_head (map_rollback v m) = km_head m"
proof -
  show "map_wf ops ok (map_rollback v m)" by (rule step_wf [OF map_step.rollback assms(1)])
  show "km_name (map_rollback v m) = km_name m" "km_security_domain (map_rollback v m) = km_security_domain m"
    by (simp_all add: map_rollback_def Let_def)
  obtain r rs where rs: "km_commits m = r # rs" using wf_tail(1) [OF assms(1)] by (cases "km_commits m") auto
  show "km_head (map_rollback v m) = km_head m" by (simp add: map_rollback_def Let_def rs)
  show "lc_version (km_tail (map_rollback v m)) \<le> v"
    using assms(2) last_pop_back_while [of "\<lambda>r. v < lc_version r" rs] by (auto simp: map_rollback_def Let_def rs)
qed

section \<open>Operations keep the store well formed\<close>

lemma call_if_calls: "call_if b c st = st\<lparr>st_calls := st_calls st @ (if b then [c] else [])\<rparr>"
  by (simp add: call_if_def st_call_def)

lemma store_wf_cong:
  assumes "store_wf ops ok st" "st_heap st' = st_heap st" "st_maps st' = st_maps st" "st_compacted st' = st_compacted st"
    "st_version st \<le> st_version st'" "st_version st' < 2 ^ 63"
  shows "store_wf ops ok st'"
  using assms by (fastforce simp: store_wf_def)

lemma apply_changes_outcome:
  assumes wf: "store_wf ops ok st" and cwf: "changes_wf ops changes new_maps st"
    and res: "resolver (new_maps \<noteq> []) st = ((v, l), st1)" "st_heap st1 = st_heap st" "st_maps st1 = st_maps st"
  obtains (conflict) "apply_changes ops changes resolver new_maps None track None st = (Inr None, st)"
  | (read_only) "apply_changes ops changes resolver new_maps None track None st = (Inr (Some (NoVersion, [])), st)"
      "\<not> list_ex (\<lambda>(_, _, cs). has_writes cs) changes"
  | (committed) hooks ms heap where
      "apply_changes ops changes resolver new_maps None track None st = (Inr (Some (v, hooks)), st1\<lparr>st_maps := ms, st_heap := heap\<rparr>)"
      "committed_to ops v track changes new_maps st (st1\<lparr>st_maps := ms, st_heap := heap\<rparr>)"
      "\<forall>(nm, p)\<in>set new_maps. map_of (st_maps st) nm = None"
proof -
  let ?w = "list_ex (\<lambda>(_, _, cs). has_writes cs) changes" and ?p = "list_all (\<lambda>(_, p, cs). prepare ops (st_heap st ! p) cs) changes"
  let ?n = "list_all (\<lambda>(nm, _). get_map_internal (st_version st) nm st = None) new_maps"
  consider "\<not> ((?w \<longrightarrow> ?p) \<and> ?n)" | "(?w \<longrightarrow> ?p) \<and> ?n" "\<not> ?w" | "?p" "?n" "?w" by blast
  then show thesis
  proof cases
    case 1
    then show thesis by (intro conflict) (auto simp: apply_changes_def Let_def)
  next
    case 2
    then show thesis by (intro read_only) (simp_all add: apply_changes_def Let_def)
  next
    case 3
    have "map_of (st_maps st) nm = None" if "(nm, p) \<in> set new_maps" for nm p
    proof (rule ccontr)
      assume "map_of (st_maps st) nm \<noteq> None"
      then obtain cv q where m: "map_of (st_maps st) nm = Some (cv, q)" by auto
      have "get_map_internal (st_version st) nm st = None" using 3(2) that by (auto simp: list_all_iff)
      then show False using published_cell(6) [OF wf m] m by (simp add: get_map_internal_def)
    qed
    then have new: "\<forall>(nm, p)\<in>set new_maps. map_of (st_maps st) nm = None" by blast
    have "\<forall>(nm, p, cs)\<in>set changes. prepare ops (st_heap st ! p) cs" using 3(1) by (auto simp: list_all_iff)
    from apply_changes_success [where resolver = resolver and track = track, OF cwf new 3(3) this res, of None None] new show thesis by (auto intro: committed)
  qed
qed

lemma apply_changes_wf:
  assumes wf: "store_wf ops ok st" and cwf: "changes_wf ops changes new_maps st"
    and res: "resolver (new_maps \<noteq> []) st = ((v, l), st1)" "st_heap st1 = st_heap st" "st_maps st1 = st_maps st"
      "st_compacted st1 = st_compacted st"
    and v: "st_version st < v" "v < 2 ^ 63"
    and app: "apply_changes ops changes resolver new_maps None track None st = (r, st')"
  shows "r = Inr None \<and> st' = st \<or> r = Inr (Some (NoVersion, [])) \<and> st' = st \<or>
    (\<exists>hooks. r = Inr (Some (v, hooks)) \<and> st_version st' = st_version st1 \<and> store_wf ops ok (st'\<lparr>st_version := v\<rparr>))"
proof (cases rule: apply_changes_outcome [where resolver = resolver and track = track, OF wf cwf res(1-3)])
  case (3 hooks ms heap)
  have "\<forall>(nm, p, cs)\<in>set changes. lc_version (km_tail (st_heap st ! p)) < v"
  proof (clarify)
    fix nm p cs
    assume "(nm, p, cs) \<in> set changes"
    then have "map_of changes nm = Some (p, cs)" using cwf by (simp add: changes_wf_def sorted_less_distinct)
    from change_cell(3) [OF wf cwf this] v(1) show "lc_version (km_tail (st_heap st ! p)) < v" by simp
  qed
  moreover have "committed_to ops v track changes new_maps st (st1\<lparr>st_maps := ms, st_heap := heap, st_version := v\<rparr>)"
    using 3(2) by (simp add: committed_to_def)
  moreover have "st_compacted st1 \<le> v" using wf res(4) v(1) by (simp add: store_wf_def)
  ultimately have "store_wf ops ok (st1\<lparr>st_maps := ms, st_heap := heap, st_version := v\<rparr>)"
    by (intro committed_wf [where v = v and track = track, OF wf cwf 3(3)]) (use v res in simp_all)
  then show ?thesis using app 3(1) by auto
qed (use app in auto)

lemma next_version_wf: "store_wf ops ok st \<Longrightarrow> st_version st + 1 < 2 ^ 63 \<Longrightarrow> store_wf ops ok (snd (next_version_unsafe st))"
  by (rule store_wf_cong [of st]) (simp_all add: next_version_below le_SucI)

lemma transaction_wf:
  assumes "store_wf ops ok st" "changes_wf ops changes new_maps st" "st_version st + 1 < 2 ^ 63"
    "apply_changes ops changes next_version_new_map new_maps None track None st = (r, st')"
  shows "store_wf ops ok st'"
proof -
  let ?v = "st_version st + 1"
  obtain l st1 where st1: "next_version_new_map (new_maps \<noteq> []) st = ((?v, l), st1)" "st_heap st1 = st_heap st"
    "st_maps st1 = st_maps st" "st_compacted st1 = st_compacted st" "st_version st1 = ?v"
    using assms(3) by (simp add: next_version_new_map_def next_version_below)
  have "st' = st \<or> st_version st' = ?v \<and> store_wf ops ok (st'\<lparr>st_version := ?v\<rparr>)"
    using apply_changes_wf [OF assms(1,2) st1(1-4) _ assms(3,4)] st1(5) by auto
  then show ?thesis using assms(1) store_wf_cong [of "st'\<lparr>st_version := ?v\<rparr>" st'] assms(3) by auto
qed

lemma rollback_nothing:
  fixes view :: nat
  assumes "\<not> (st_compacted st \<le> tx_seqno txid \<and> tx_seqno txid < st_version st)"
  defines "st' \<equiv> snd (store_rollback txid view st)"
  shows "st_heap st' = st_heap st \<and> st_maps st' = st_maps st \<and> st_compacted st' = st_compacted st \<and> st_version st' = st_version st"
proof (cases "tx_seqno txid < st_compacted st")
  case True
  then show ?thesis by (simp add: st'_def store_rollback_def Let_def call_if_calls)
next
  case False
  then have "st_version st \<le> tx_seqno txid" using assms(1) by simp
  then show ?thesis using False by (simp add: st'_def store_rollback_def Let_def call_if_calls)
qed

lemma rollback_maps:
  fixes view :: nat
  assumes "st_compacted st \<le> tx_seqno txid" "tx_seqno txid < st_version st"
  defines "st' \<equiv> snd (store_rollback txid view st)"
  shows "st_heap st' = st_heap (update_cells (map_rollback (tx_seqno txid)) st)"
    "st_maps st' = filter (\<lambda>(_, v, _). v \<le> tx_seqno txid) (st_maps st)"
    "st_compacted st' = st_compacted st" "st_version st' = tx_seqno txid"
  using assms(1,2) by (simp_all add: st'_def store_rollback_def Let_def call_if_calls unset_flag_def update_cells_def)

lemma rollback_wf:
  fixes st :: "('s, 'h, 'z) store_scheme"
  assumes "store_wf ops ok st" "store_rollback txid view st = (r, st')"
  shows "store_wf ops ok st'"
proof (cases "st_compacted st \<le> tx_seqno txid \<and> tx_seqno txid < st_version st")
  have st': "st' = snd (store_rollback txid view st)" using assms(2) by simp
  case False
  then have "st_heap st' = st_heap st" "st_maps st' = st_maps st" "st_compacted st' = st_compacted st" "st_version st' = st_version st"
    unfolding st' using rollback_nothing [OF False, of view] by simp_all
  then show ?thesis by (intro store_wf_cong [OF assms(1)]) (use assms(1) in \<open>simp_all add: store_wf_def\<close>)
next
  have st': "st' = snd (store_rollback txid view st)" using assms(2) by simp
  case True
  let ?v = "tx_seqno txid"
  have f: "st_heap st' = st_heap (update_cells (map_rollback ?v) st)" "st_maps st' = filter (\<lambda>(_, v, _). v \<le> ?v) (st_maps st)"
    "st_compacted st' = st_compacted st" "st_version st' = ?v"
    unfolding st' using True by (simp_all add: rollback_maps)
  have s: "sorted_wrt (<) (omap_keys (st_maps st))" "st_version st < 2 ^ 63" using assms(1) by (simp_all add: store_wf_def)
  have m: "map_wf ops ok (map_rollback ?v m) \<and> km_name (map_rollback ?v m) = km_name m \<and>
      km_security_domain (map_rollback ?v m) = km_security_domain m \<and> lc_version (km_tail (map_rollback ?v m)) \<le> ?v \<and>
      lc_version (km_head (map_rollback ?v m)) \<le> st_compacted st"
    if "map_wf ops ok m" "lc_version (km_head m) \<le> st_compacted st" for m :: "('s, 'h) kv_cell"
    using rollback_cell [OF that(1), of ?v] that(2) True by simp
  show ?thesis
  proof (rule update_cells_wf [OF assms(1), where f = "map_rollback ?v"])
    show "sorted_wrt (<) (omap_keys (st_maps st'))" using s(1) by (simp add: f(2) sorted_wrt_map sorted_wrt_filter)
    show "\<forall>(nm, cv, p)\<in>set (st_maps st'). cv \<le> st_version st'" by (auto simp: f(2,4))
    show "set (st_maps st') \<subseteq> set (st_maps st)" by (simp add: f(2))
    show "map_wf ops ok (map_rollback ?v m) \<and> km_name (map_rollback ?v m) = km_name m \<and>
      km_security_domain (map_rollback ?v m) = km_security_domain m \<and> lc_version (km_tail (map_rollback ?v m)) \<le> st_version st' \<and>
      lc_version (km_head (map_rollback ?v m)) \<le> st_compacted st'"
      if "map_wf ops ok m" "lc_version (km_tail m) \<le> st_version st" "lc_version (km_head m) \<le> st_compacted st" for m :: "('s, 'h) kv_cell"
      unfolding f(3,4) by (rule m [OF that(1,3)])
    show "st_compacted st' \<le> st_version st'" "st_version st' < 2 ^ 63" using True s(2) by (simp_all add: f(3,4))
  qed (rule f)
qed

lemma compact_wf:
  fixes st :: "('s, 'h, 'z) store_scheme"
  assumes "store_wf ops ok st" "st_compacted st \<le> v"
  shows "store_wf ops ok (compact_store primary v st)"
proof (cases "v \<le> st_version st")
  case False
  then have "st_heap (compact_store primary v st) = st_heap st" "st_maps (compact_store primary v st) = st_maps st"
    "st_compacted (compact_store primary v st) = st_compacted st" "st_version (compact_store primary v st) = st_version st"
    by (simp_all add: compact_store_def Let_def call_if_calls)
  then show ?thesis by (intro store_wf_cong [OF assms(1)]) (use assms(1) in \<open>simp_all add: store_wf_def\<close>)
next
  case True
  define st1 where "st1 = (update_cells (map_compact v) st)\<lparr>st_compacted := v\<rparr>"
  have s: "sorted_wrt (<) (omap_keys (st_maps st))" "st_version st < 2 ^ 63" "\<forall>(nm, cv, p)\<in>set (st_maps st). cv \<le> st_version st"
    using assms(1) by (auto simp: store_wf_def)
  have m: "map_wf ops ok (map_compact v m) \<and> km_name (map_compact v m) = km_name m \<and>
      km_security_domain (map_compact v m) = km_security_domain m \<and> lc_version (km_tail (map_compact v m)) \<le> st_version st \<and>
      lc_version (km_head (map_compact v m)) \<le> v"
    if "map_wf ops ok m" "lc_version (km_tail m) \<le> st_version st" "lc_version (km_head m) \<le> st_compacted st" for m :: "('s, 'h) kv_cell"
    using compact_cell [OF that(1), of v] that(2,3) assms(2) by simp
  have wf1: "store_wf ops ok st1"
  proof (rule update_cells_wf [OF assms(1), where f = "map_compact v"])
    show "map_wf ops ok (map_compact v m) \<and> km_name (map_compact v m) = km_name m \<and>
      km_security_domain (map_compact v m) = km_security_domain m \<and> lc_version (km_tail (map_compact v m)) \<le> st_version st1 \<and>
      lc_version (km_head (map_compact v m)) \<le> st_compacted st1"
      if "map_wf ops ok m" "lc_version (km_tail m) \<le> st_version st" "lc_version (km_head m) \<le> st_compacted st" for m :: "('s, 'h) kv_cell"
      using m [OF that] by (simp add: st1_def)
  qed (use s True in \<open>simp_all add: st1_def update_cells_def\<close>)
  have f: "st_heap (compact_store primary v st) = st_heap (update_cells (fst \<circ> map_post_compact) st1)"
    "st_maps (compact_store primary v st) = st_maps st1" "st_compacted (compact_store primary v st) = v"
    "st_version (compact_store primary v st) = st_version st1"
    using True by (simp_all add: compact_store_def Let_def call_if_calls st1_def update_cells_def)
  have "st_maps st1 = st_maps st" "st_version st1 = st_version st" "st_compacted st1 = v" by (simp_all add: st1_def)
  then show ?thesis
    using True s
    by (intro update_cells_wf [OF wf1, where f = "fst \<circ> map_post_compact"]) (auto simp: f map_post_compact_def map_wf_def)
qed

end

interpretation sm: store_maps "champ_ops h esz" "champ_ok h"
  for h :: "bytes \<Rightarrow> 32 word" and esz :: "bytes \<Rightarrow> bytes versionv \<Rightarrow> nat"
  by unfold_locales

end
