(* ===== verification/Spec2Isabelle.thy ===== *)
theory Spec2Isabelle
  imports Raft_Network Seqno_Buckets Ledger_Chunker KV_Handles KV_Effects
begin

text \<open>
  Verification of the Confidential Consortium Framework.
\<close>

section \<open>Properties that span components\<close>

lemma get_term_internal_committed:
  "raft_inv s \<Longrightarrow> i \<le> commit_idx s \<Longrightarrow> get_term_internal s i = view_at (view_history s) i"
  by (simp add: get_term_internal_def raft_inv_def)

lemma get_term_internal_mono:
  "i \<le> j \<Longrightarrow> j \<le> last_idx s \<Longrightarrow> get_term_internal s i \<le> get_term_internal s j"
  by (simp add: get_term_internal_def view_at_mono)

lemma keeps_committed_view:
  assumes "keeps s t" "raft_inv s" "i \<le> commit_idx s"
  shows "get_term_internal t i = get_term_internal s i"
proof -
  have "raft_inv t" "commit_idx s \<le> commit_idx t" "view_at (view_history t) i = view_at (view_history s) i"
    using assms by (simp_all add: keeps_def safe_step_def)
  then show ?thesis using assms(2,3) by (simp add: get_term_internal_committed)
qed

text \<open>
  C3. A final transaction status is final: along every run of a node, a transaction id that the node
  has reported as Committed stays Committed, and one that it has reported as Invalid stays Invalid, for
  every id with a view (the ids that \<^verbatim>\<open>TxID::from_str\<close> accepts).
\<close>

theorem final_status_stable:
  assumes "(node_step env)\<^sup>*\<^sup>* s t" "env_ok env" "raft_inv s"
    and "tx_status_of s v n = Inr st" "st = Committed \<or> st = Invalid" "v \<noteq> VIEW_UNKNOWN"
  shows "tx_status_of t v n = Inr st"
proof -
  have k: "keeps s t" by (rule node_run_keeps [OF assms(1,2)])
  then have inv: "raft_inv t" and c: "commit_idx s \<le> commit_idx t"
    using assms(3) by (simp_all add: keeps_def safe_step_def)
  show ?thesis
  proof (cases "n \<le> commit_idx s")
    case True
    then show ?thesis
      using assms(4,5) c keeps_committed_view [OF k assms(3) True]
      by (simp add: tx_status_of_def get_committed_txid_def evaluate_tx_status_def Let_def split: if_splits)
  next
    case False
    have gt: "v < get_term_internal s (commit_idx s)" and st: "st = Invalid"
      using False assms(4,5)
      by (auto simp: tx_status_of_def get_committed_txid_def evaluate_tx_status_def Let_def split: if_splits)
    have "get_term_internal s (commit_idx s) = get_term_internal t (commit_idx s)"
      using keeps_committed_view [OF k assms(3)] by simp
    also have "\<dots> \<le> get_term_internal t (commit_idx t)"
      using c inv by (intro get_term_internal_mono) (simp_all add: raft_inv_def)
    finally have gt_t: "v < get_term_internal t (commit_idx t)" using gt by simp
    have "v < get_term_internal t n" if "n \<le> last_idx t"
      using gt \<open>get_term_internal s (commit_idx s) = get_term_internal t (commit_idx s)\<close>
        get_term_internal_mono [of "commit_idx s" n t] False that by simp
    then show ?thesis
      using st gt_t inv assms(6)
      by (auto simp: tx_status_of_def get_committed_txid_def evaluate_tx_status_def Let_def raft_inv_def
          VIEW_UNKNOWN_def get_term_internal_def split: if_splits)
  qed
qed

theorem final_status_stable_witness:
  "\<exists>t. (node_step sample_env)\<^sup>*\<^sup>* sample_follower t \<and> commit_idx t = 3 \<and> tx_status_of t 1 1 = Inr Committed"
proof -
  have "tx_status_of sample_follower 1 1 = Inr Committed" by code_simp
  moreover have "(1::view) \<noteq> VIEW_UNKNOWN" by (simp add: VIEW_UNKNOWN_def)
  ultimately show ?thesis
    using sample_run final_status_stable [OF _ sample_env_ok sample_follower_inv] by blast
qed

end
